(* ===== verification/Prelude.thy ===== *)
theory Prelude
  imports Main "HOL-Library.Word"
begin

unbundle bit_operations_syntax

text \<open>
  The vocabulary the component theories share.

  A kernel function is a HOL function that takes the state last and returns a \<open>res\<close>: the C
  function returned a value (\<open>Ok\<close>), called \<open>panic\<close> with a message (\<open>Panic\<close>; the C code
  prints the message and spins for ever), or does not come back on its own (\<open>Block\<close>; the
  thread went to sleep or spins, in the state given). \<open>bind\<close> runs two pieces of code one after
  the other, \<open>for_each\<close> is a C loop over a known range with no \<open>break\<close>.

  The rest are generic facts on lists, functions and words, and the collections of rewrite
  rules of the components: \<open>res_simps\<close> for running code forward, \<open>res_elims\<close> for reading off
  what a returned result says of its steps.
\<close>

type_synonym byte = "8 word"
type_synonym u16 = "16 word"
type_synonym u32 = "32 word"
type_synonym u64 = "64 word"
type_synonym addr = "64 word"

named_theorems res_simps \<open>symbolic execution of kernel code\<close>
named_theorems res_elims \<open>inversion of kernel code that returned\<close>
named_theorems frame_simps \<open>fields an operation leaves alone\<close>

section \<open>Results of kernel code\<close>

datatype ('s, 'a) res = Ok 'a 's | Panic string | Block 's

definition bind :: "('s, 'a) res \<Rightarrow> ('a \<Rightarrow> 's \<Rightarrow> ('s, 'b) res) \<Rightarrow> ('s, 'b) res" where
  "bind m f = (case m of Ok a s \<Rightarrow> f a s | Panic e \<Rightarrow> Panic e | Block s \<Rightarrow> Block s)"

lemma bind_Ok [simp, res_simps]: "bind (Ok a s) f = f a s"
  by (simp add: bind_def)

lemma bind_Panic [simp, res_simps]: "bind (Panic e) f = Panic e"
  by (simp add: bind_def)

lemma bind_Block [simp, res_simps]: "bind (Block s) f = Block s"
  by (simp add: bind_def)

lemma bind_eq_Ok [res_elims]:
  "bind m f = Ok b t \<longleftrightarrow> (\<exists>a s. m = Ok a s \<and> f a s = Ok b t)"
  by (cases m) auto

lemma bind_eq_Block:
  "bind m f = Block t \<longleftrightarrow> m = Block t \<or> (\<exists>a s. m = Ok a s \<and> f a s = Block t)"
  by (cases m) auto

lemma bind_eq_Panic:
  "bind m f = Panic e \<longleftrightarrow> m = Panic e \<or> (\<exists>a s. m = Ok a s \<and> f a s = Panic e)"
  by (cases m) auto

lemma bind_assoc: "bind (bind m f) g = bind m (\<lambda>a s. bind (f a s) g)"
  by (cases m) auto

lemma bind_cong [fundef_cong]:
  "m = m' \<Longrightarrow> (\<And>a s. m' = Ok a s \<Longrightarrow> f a s = f' a s) \<Longrightarrow> bind m f = bind m' f'"
  by (cases m') auto

primrec for_each :: "'i list \<Rightarrow> ('i \<Rightarrow> 's \<Rightarrow> ('s, unit) res) \<Rightarrow> 's \<Rightarrow> ('s, unit) res" where
  "for_each [] f s = Ok () s"
| "for_each (i # is) f s = bind (f i s) (\<lambda>_ s. for_each is f s)"

lemma for_each_append:
  "for_each (xs @ ys) f s = bind (for_each xs f s) (\<lambda>_ s. for_each ys f s)"
  by (induction xs arbitrary: s) (simp_all add: bind_assoc)

text \<open>An invariant of a loop that returned, and a loop that always returns.\<close>

lemma for_each_invariant:
  assumes "for_each xs f s = Ok u t" and "P s"
    and "\<And>i s t. i \<in> set xs \<Longrightarrow> P s \<Longrightarrow> f i s = Ok () t \<Longrightarrow> P t"
  shows "P t"
  using assms
proof (induction xs arbitrary: s)
  case Nil
  then show ?case by simp
next
  case (Cons x xs)
  from Cons.prems(1) obtain s1 where x: "f x s = Ok () s1" and rest: "for_each xs f s1 = Ok u t"
    by (auto simp: res_elims)
  from Cons.prems(2,3) x have "P s1" by auto
  with rest show ?case
    by (rule Cons.IH) (use Cons.prems(3) in auto)
qed

lemma for_each_total:
  assumes "P s"
    and "\<And>i s. i \<in> set xs \<Longrightarrow> P s \<Longrightarrow> \<exists>t. f i s = Ok () t \<and> P t"
  shows "\<exists>t. for_each xs f s = Ok () t \<and> P t"
  using assms
proof (induction xs arbitrary: s)
  case Nil
  then show ?case by simp
next
  case (Cons x xs)
  from Cons.prems obtain s1 where x: "f x s = Ok () s1" and "P s1"
    by (metis list.set_intros(1))
  moreover have "\<exists>t. for_each xs f s1 = Ok () t \<and> P t"
    using \<open>P s1\<close> Cons.prems(2) by (intro Cons.IH) auto
  ultimately show ?case by simp
qed

section \<open>Lists and functions\<close>

lemma nth_list_update_distinct [simp]: "i \<noteq> j \<Longrightarrow> xs[i := x] ! j = xs ! j"
  by (rule nth_list_update_neq)

lemma fun_upd_idem' [simp]: "f x = y \<Longrightarrow> f(x := y) = f"
  by auto

lemma upt_split: "i < n \<Longrightarrow> [0..<n] = [0..<i] @ i # [Suc i..<n]"
  using upt_add_eq_append [of 0 i "n - i"] by (simp add: upt_conv_Cons)

lemma fun_upd_fold [simp]: "(\<lambda>x. if x = a then b else f x) = f(a := b)"
  by (simp add: fun_upd_def)

lemma find_SomeD: "List.find P xs = Some x \<Longrightarrow> x \<in> set xs \<and> P x"
  by (auto simp: find_Some_iff)

text \<open>Bounded quantifiers over numerals, for evaluating concrete instances.\<close>

lemma all_less_numeral:
  "(\<forall>i < numeral k. P i) \<longleftrightarrow> (\<forall>i < pred_numeral k. P i) \<and> P (pred_numeral k)"
  by (auto simp: numeral_eq_Suc less_Suc_eq)

section \<open>Words\<close>

lemma unat_less_exp: "unat (w :: 'a::len word) < 2 ^ LENGTH('a)"
  by (rule unsigned_less)

lemma unat_add_no_wrap:
  "unat a + n < 2 ^ LENGTH('a) \<Longrightarrow> unat (a + of_nat n) = unat a + n"
  for a :: "'a::len word"
  by (simp add: unat_word_ariths unat_of_nat take_bit_nat_eq_self mod_less)

lemma word_offset_eq_iff:
  "a + of_nat i = a + of_nat j \<longleftrightarrow> i = j" if "i < 2 ^ LENGTH('a)" "j < 2 ^ LENGTH('a)"
  for a :: "'a::len word"
  using that by (simp add: word_of_nat_eq_iff take_bit_nat_eq_self)

lemma unat_offset [simp]: "n < 2 ^ LENGTH('a) \<Longrightarrow> unat (of_nat n :: 'a::len word) = n"
  by (simp add: unat_of_nat)

lemma addr_offset_cases:
  fixes a d :: addr
  obtains (inside) k where "k < n" and "a = d + of_nat k"
  | (outside) "\<And>k. k < n \<Longrightarrow> a \<noteq> d + of_nat k"
  by blast

lemma unat_offset_less_iff:
  fixes a d :: addr
  assumes "n \<le> 2 ^ 64"
  shows "unat (a - d) < n \<longleftrightarrow> (\<exists>k<n. a = d + of_nat k)"
proof
  assume "unat (a - d) < n"
  then show "\<exists>k<n. a = d + of_nat k" by (intro exI [of _ "unat (a - d)"]) simp
next
  assume "\<exists>k<n. a = d + of_nat k"
  with assms show "unat (a - d) < n" by auto
qed

lemma offset_Suc_neq:
  fixes d :: addr
  assumes "Suc k < 2 ^ 64"
  shows "d \<noteq> d + 1 + of_nat k"
proof -
  have "d + of_nat 0 \<noteq> d + of_nat (Suc k)"
    using word_offset_eq_iff [of 0 "Suc k" d] assms by simp
  then show ?thesis by (simp only: semiring_1_class.of_nat_0 add_0_right semiring_1_class.of_nat_Suc add.assoc not_False_eq_True)
qed

lemma of_bool_sum_eq_0 [simp]: "of_bool a + of_bool b = (0 :: u32) \<longleftrightarrow> \<not> a \<and> \<not> b"
  by (cases a; cases b) simp_all

end
