(* ===== verification/Bytes.thy ===== *)
theory Bytes
  imports Prelude
begin

text \<open>
  Little-endian layout. \<open>bytes_of\<close> and \<open>word_of\<close> convert between words and byte lists;
  \<open>splice\<close> overwrites part of a byte array; \<open>get16\<close>, \<open>get32\<close>, \<open>get64\<close> and their \<open>put\<close>
  counterparts read and write the fields of a C structure that lies in a byte array, the way
  the kernel casts the data of a disk block; \<open>load64\<close> and \<open>store64\<close> do the same in the
  byte-addressed physical memory.
\<close>

definition bytes_of :: "nat \<Rightarrow> 'a::len word \<Rightarrow> byte list" where
  "bytes_of n w = map (\<lambda>i. ucast (drop_bit (8 * i) w)) [0..<n]"

primrec word_of :: "byte list \<Rightarrow> 'a::len word" where
  "word_of [] = 0"
| "word_of (b # bs) = ucast b OR push_bit 8 (word_of bs)"

definition splice :: "byte list \<Rightarrow> nat \<Rightarrow> byte list \<Rightarrow> byte list" where
  "splice bs off xs = take off bs @ xs @ drop (off + length xs) bs"

definition slice :: "byte list \<Rightarrow> nat \<Rightarrow> nat \<Rightarrow> byte list" where
  "slice bs off n = take n (drop off bs)"

definition get16 :: "byte list \<Rightarrow> nat \<Rightarrow> u16" where "get16 bs off = word_of (slice bs off 2)"
definition get32 :: "byte list \<Rightarrow> nat \<Rightarrow> u32" where "get32 bs off = word_of (slice bs off 4)"
definition get64 :: "byte list \<Rightarrow> nat \<Rightarrow> u64" where "get64 bs off = word_of (slice bs off 8)"

definition put16 :: "byte list \<Rightarrow> nat \<Rightarrow> u16 \<Rightarrow> byte list" where
  "put16 bs off w = splice bs off (bytes_of 2 w)"
definition put32 :: "byte list \<Rightarrow> nat \<Rightarrow> u32 \<Rightarrow> byte list" where
  "put32 bs off w = splice bs off (bytes_of 4 w)"

definition mem_read :: "(addr \<Rightarrow> byte) \<Rightarrow> addr \<Rightarrow> nat \<Rightarrow> byte list" where
  "mem_read m a n = map (\<lambda>i. m (a + of_nat i)) [0..<n]"

primrec mem_write :: "(addr \<Rightarrow> byte) \<Rightarrow> addr \<Rightarrow> byte list \<Rightarrow> addr \<Rightarrow> byte" where
  "mem_write m a [] = m"
| "mem_write m a (x # xs) = mem_write (m(a := x)) (a + 1) xs"

definition load64 :: "(addr \<Rightarrow> byte) \<Rightarrow> addr \<Rightarrow> u64" where
  "load64 m a = word_of (mem_read m a 8)"

definition store64 :: "(addr \<Rightarrow> byte) \<Rightarrow> addr \<Rightarrow> u64 \<Rightarrow> addr \<Rightarrow> byte" where
  "store64 m a w = mem_write m a (bytes_of 8 w)"

section \<open>Encoding and decoding\<close>

lemma length_bytes_of [simp]: "length (bytes_of n w) = n"
  by (simp add: bytes_of_def)

lemma bit_word_of:
  "bit (word_of bs :: 'a::len word) k \<longleftrightarrow>
     k < LENGTH('a) \<and> k div 8 < length bs \<and> bit (bs ! (k div 8)) (k mod 8)"
proof (induction bs arbitrary: k)
  case Nil
  then show ?case by simp
next
  case (Cons b bs)
  show ?case
  proof (cases "k < 8")
    case True
    then show ?thesis by (auto simp: bit_simps)
  next
    case False
    then have k: "k div 8 = Suc ((k - 8) div 8)" "k mod 8 = (k - 8) mod 8"
      by (simp_all add: div_if mod_if)
    have "\<not> bit b k" using False by (auto dest: bit_imp_le_length)
    with False Cons.IH [of "k - 8"] show ?thesis by (auto simp: bit_simps k)
  qed
qed

lemma word_of_bytes_of:
  assumes "LENGTH('a) \<le> 8 * n"
  shows "word_of (bytes_of n w) = (w :: 'a::len word)"
proof (rule bit_word_eqI)
  fix k assume k: "k < LENGTH('a)"
  then have "k div 8 < n" using assms by (simp add: less_mult_imp_div_less mult.commute)
  then show "bit (word_of (bytes_of n w) :: 'a word) k = bit w k"
    using k by (simp add: bit_word_of bytes_of_def bit_simps)
qed

lemma bytes_of_word_of:
  assumes "8 * n \<le> LENGTH('a)" and "length bs = n"
  shows "bytes_of n (word_of bs :: 'a::len word) = bs"
proof (rule nth_equalityI)
  show "length (bytes_of n (word_of bs :: 'a word)) = length bs" using assms by simp
next
  fix i assume "i < length (bytes_of n (word_of bs :: 'a word))"
  then have i: "i < n" by simp
  show "bytes_of n (word_of bs :: 'a word) ! i = bs ! i"
  proof (rule bit_word_eqI)
    fix k assume "k < LENGTH(8)"
    then have "k < 8" by simp
    moreover have "8 * i + k < LENGTH('a)" using i assms(1) \<open>k < 8\<close> by linarith
    ultimately show "bit (bytes_of n (word_of bs :: 'a word) ! i) k = bit (bs ! i) k"
      using i assms(2) by (simp add: bytes_of_def bit_simps bit_word_of)
  qed
qed

section \<open>Byte arrays\<close>

lemma length_splice [simp]: "off + length xs \<le> length bs \<Longrightarrow> length (splice bs off xs) = length bs"
  by (simp add: splice_def)

lemma length_slice [simp]: "off + n \<le> length bs \<Longrightarrow> length (slice bs off n) = n"
  by (simp add: slice_def)

lemma nth_splice:
  assumes "off + length xs \<le> length bs" and "i < length bs"
  shows "splice bs off xs ! i =
    (if off \<le> i \<and> i < off + length xs then xs ! (i - off) else bs ! i)"
  using assms by (auto simp: splice_def nth_append min_def)

lemma nth_slice [simp]: "off + n \<le> length bs \<Longrightarrow> i < n \<Longrightarrow> slice bs off n ! i = bs ! (off + i)"
  by (simp add: slice_def)

lemma slice_splice_same [simp]:
  "off + length xs \<le> length bs \<Longrightarrow> n = length xs \<Longrightarrow> slice (splice bs off xs) off n = xs"
  by (simp add: splice_def slice_def)

lemma slice_splice_other:
  assumes "off + length xs \<le> length bs" and "off' + n \<le> length bs"
    and "off' + n \<le> off \<or> off + length xs \<le> off'"
  shows "slice (splice bs off xs) off' n = slice bs off' n"
  by (rule nth_equalityI) (use assms in \<open>auto simp: nth_splice\<close>)

lemma slice_all [simp]: "length bs = n \<Longrightarrow> slice bs 0 n = bs"
  by (simp add: slice_def)

lemma splice_all [simp]: "length bs = length xs \<Longrightarrow> splice bs 0 xs = xs"
  by (simp add: splice_def)

lemma length_put16 [simp]: "off + 2 \<le> length bs \<Longrightarrow> length (put16 bs off w) = length bs"
  by (simp add: put16_def)

lemma length_put32 [simp]: "off + 4 \<le> length bs \<Longrightarrow> length (put32 bs off w) = length bs"
  by (simp add: put32_def)

lemma get16_put16 [simp]: "off + 2 \<le> length bs \<Longrightarrow> get16 (put16 bs off w) off = w"
  by (simp add: get16_def put16_def word_of_bytes_of)

lemma get32_put32 [simp]: "off + 4 \<le> length bs \<Longrightarrow> get32 (put32 bs off w) off = w"
  by (simp add: get32_def put32_def word_of_bytes_of)

lemma get32_put32_other:
  "off + 4 \<le> length bs \<Longrightarrow> off' + 4 \<le> length bs \<Longrightarrow> off' + 4 \<le> off \<or> off + 4 \<le> off' \<Longrightarrow>
   get32 (put32 bs off w) off' = get32 bs off'"
  by (simp add: get32_def put32_def slice_splice_other)

section \<open>Memory\<close>

lemma mem_write_outside:
  "(\<And>i. i < length xs \<Longrightarrow> b \<noteq> a + of_nat i) \<Longrightarrow> mem_write m a xs b = m b"
proof (induction xs arbitrary: m a)
  case (Cons x xs)
  have "mem_write (m(a := x)) (a + 1) xs b = (m(a := x)) b"
  proof (rule Cons.IH)
    show "b \<noteq> a + 1 + of_nat i" if "i < length xs" for i
      using Cons.prems [of "Suc i"] that by (simp add: add.assoc)
  qed
  then show ?case using Cons.prems [of 0] by simp
qed simp

lemma mem_write_inside:
  "length xs \<le> 2 ^ 64 \<Longrightarrow> i < length xs \<Longrightarrow> mem_write m a xs (a + of_nat i) = xs ! i"
proof (induction xs arbitrary: m a i)
  case (Cons x xs)
  show ?case
  proof (cases i)
    case 0
    have "mem_write (m(a := x)) (a + 1) xs a = (m(a := x)) a"
      by (rule mem_write_outside) (rule offset_Suc_neq, use Cons.prems(1) in simp)
    with 0 show ?thesis by simp
  next
    case (Suc k)
    then show ?thesis
      using Cons.IH [of k "m(a := x)" "a + 1"] Cons.prems by (simp add: add.assoc)
  qed
qed simp

lemma length_mem_read [simp]: "length (mem_read m a n) = n"
  by (simp add: mem_read_def)

lemma nth_mem_read [simp]: "i < n \<Longrightarrow> mem_read m p n ! i = m (p + of_nat i)"
  by (simp add: mem_read_def)

lemma mem_read_0 [simp]: "mem_read m p 0 = []"
  by (simp add: mem_read_def)

lemma mem_read_Suc: "mem_read m p (Suc n) = m p # mem_read m (p + 1) n"
  by (rule nth_equalityI) (auto simp: nth_Cons add.assoc split: nat.splits)

lemma mem_read_cong:
  "(\<And>i. i < n \<Longrightarrow> m (p + of_nat i) = m' (p + of_nat i)) \<Longrightarrow> mem_read m p n = mem_read m' p n"
  by (simp add: mem_read_def)

lemma mem_read_fun_upd:
  "(\<And>j. j < n \<Longrightarrow> t + of_nat j \<noteq> s) \<Longrightarrow> mem_read (m(s := v)) t n = mem_read m t n"
  by (rule mem_read_cong) auto

lemma mem_read_write_same:
  "length xs \<le> 2 ^ 64 \<Longrightarrow> n = length xs \<Longrightarrow> mem_read (mem_write m a xs) a n = xs"
  by (rule nth_equalityI) (simp_all add: mem_read_def mem_write_inside)

lemma mem_read_write_other:
  assumes "\<And>i j. i < length xs \<Longrightarrow> j < n \<Longrightarrow> b + of_nat j \<noteq> a + of_nat i"
  shows "mem_read (mem_write m a xs) b n = mem_read m b n"
  unfolding mem_read_def using assms by (intro map_cong refl mem_write_outside) auto

lemma load64_store64_same [simp]: "load64 (store64 m a w) a = w"
  by (simp add: load64_def store64_def mem_read_write_same word_of_bytes_of)

lemma load64_cong:
  "(\<And>i. i < 8 \<Longrightarrow> m (a + of_nat i) = m' (a + of_nat i)) \<Longrightarrow> load64 m a = load64 m' a"
  unfolding load64_def by (subst mem_read_cong) auto

lemma load64_store64_other:
  assumes "\<And>i j. i < 8 \<Longrightarrow> j < 8 \<Longrightarrow> b + of_nat j \<noteq> a + of_nat i"
  shows "load64 (store64 m a w) b = load64 m b"
  unfolding load64_def store64_def by (subst mem_read_write_other) (use assms in auto)

end
