(* ===== verification/KString.thy ===== *)
theory KString
  imports Bytes
begin

text \<open>
  The byte-level routines of \<^verbatim>\<open>kernel/string.c\<close> and their namesakes of \<^verbatim>\<open>user/ulib.c\<close>, over
  a byte-addressed memory. Pointers are 64-bit words, \<open>p + 1\<close> wraps as the hardware does, and
  each store of the C loop is one update of the memory, so that overlapping source and
  destination behave as in the code. \<open>char\<close> is unsigned on RISC-V, so the comparisons of both
  files read bytes as unsigned. A length that is an \<open>int\<close> in C is an \<open>int\<close> here; an unsigned
  one is a natural number (the callers pass at most 32-bit values). \<open>strlen\<close> and the unbounded
  copies have no bound in C: they are \<open>option\<close>-valued partial functions, \<open>None\<close> when they
  run for ever.
\<close>

type_synonym memory = "addr \<Rightarrow> byte"

section \<open>kernel/string.c\<close>

function memset_from :: "memory \<Rightarrow> addr \<Rightarrow> u32 \<Rightarrow> nat \<Rightarrow> nat \<Rightarrow> memory" where
  "memset_from m dst c i n =
     (if i < n then memset_from (m(dst + of_nat i := ucast c)) dst c (Suc i) n else m)"
  by pat_completeness auto
termination
  by (relation "measure (\<lambda>(m, dst, c, i, n). n - i)") auto

declare memset_from.simps [simp del]

definition memset :: "memory \<Rightarrow> addr \<Rightarrow> u32 \<Rightarrow> nat \<Rightarrow> memory" where
  "memset m dst c n = memset_from m dst c 0 n"

fun memcmp :: "memory \<Rightarrow> addr \<Rightarrow> addr \<Rightarrow> nat \<Rightarrow> int" where
  "memcmp m s1 s2 0 = 0"
| "memcmp m s1 s2 (Suc n) =
     (if m s1 \<noteq> m s2 then uint (m s1) - uint (m s2) else memcmp m (s1 + 1) (s2 + 1) n)"

text \<open>\<^verbatim>\<open>while(n-- > 0) *d++ = *s++\<close> and \<^verbatim>\<open>while(n-- > 0) *--d = *--s\<close>.\<close>

fun copy_up :: "memory \<Rightarrow> addr \<Rightarrow> addr \<Rightarrow> nat \<Rightarrow> memory" where
  "copy_up m d s 0 = m"
| "copy_up m d s (Suc n) = copy_up (m(d := m s)) (d + 1) (s + 1) n"

fun copy_down :: "memory \<Rightarrow> addr \<Rightarrow> addr \<Rightarrow> nat \<Rightarrow> memory" where
  "copy_down m d s 0 = m"
| "copy_down m d s (Suc n) = copy_down (m(d - 1 := m (s - 1))) (d - 1) (s - 1) n"

definition memmove :: "memory \<Rightarrow> addr \<Rightarrow> addr \<Rightarrow> nat \<Rightarrow> memory" where
  "memmove m dst src n =
     (if n = 0 then m
      else if src < dst \<and> src + of_nat n > dst
      then copy_down m (dst + of_nat n) (src + of_nat n) n
      else copy_up m dst src n)"

definition memcpy :: "memory \<Rightarrow> addr \<Rightarrow> addr \<Rightarrow> nat \<Rightarrow> memory" where
  "memcpy m dst src n = memmove m dst src n"

fun strncmp :: "memory \<Rightarrow> addr \<Rightarrow> addr \<Rightarrow> nat \<Rightarrow> int" where
  "strncmp m p q 0 = 0"
| "strncmp m p q (Suc n) =
     (if m p \<noteq> 0 \<and> m p = m q then strncmp m (p + 1) (q + 1) n
      else uint (m p) - uint (m q))"

fun strncpy_pad :: "memory \<Rightarrow> addr \<Rightarrow> nat \<Rightarrow> memory" where
  "strncpy_pad m s 0 = m"
| "strncpy_pad m s (Suc n) = strncpy_pad (m(s := 0)) (s + 1) n"

fun strncpy_copy :: "memory \<Rightarrow> addr \<Rightarrow> addr \<Rightarrow> nat \<Rightarrow> memory" where
  "strncpy_copy m s t 0 = m"
| "strncpy_copy m s t (Suc n) =
     (if m t \<noteq> 0 then strncpy_copy (m(s := m t)) (s + 1) (t + 1) n
      else strncpy_pad (m(s := m t)) (s + 1) n)"

definition strncpy :: "memory \<Rightarrow> addr \<Rightarrow> addr \<Rightarrow> int \<Rightarrow> memory" where
  "strncpy m s t n = strncpy_copy m s t (nat n)"

text \<open>The loop of \<open>safestrcpy\<close> with \<open>k\<close> the value \<open>--n\<close> still allows, then \<^verbatim>\<open>*s = 0\<close>.\<close>

fun safestrcpy_copy :: "memory \<Rightarrow> addr \<Rightarrow> addr \<Rightarrow> nat \<Rightarrow> memory" where
  "safestrcpy_copy m s t 0 = m(s := 0)"
| "safestrcpy_copy m s t (Suc k) =
     (if m t \<noteq> 0 then safestrcpy_copy (m(s := m t)) (s + 1) (t + 1) k
      else (m(s := m t))(s + 1 := 0))"

definition safestrcpy :: "memory \<Rightarrow> addr \<Rightarrow> addr \<Rightarrow> int \<Rightarrow> memory" where
  "safestrcpy m s t n = (if n \<le> 0 then m else safestrcpy_copy m s t (nat n - 1))"

partial_function (option) strlen_from :: "memory \<Rightarrow> addr \<Rightarrow> nat \<Rightarrow> nat option" where
  "strlen_from m s n = (if m (s + of_nat n) = 0 then Some n else strlen_from m s (Suc n))"

definition strlen :: "memory \<Rightarrow> addr \<Rightarrow> nat option" where
  "strlen m s = strlen_from m s 0"

section \<open>user/ulib.c\<close>

partial_function (option) strcpy :: "memory \<Rightarrow> addr \<Rightarrow> addr \<Rightarrow> memory option" where
  "strcpy m s t =
     (if m t = 0 then Some (m(s := m t)) else strcpy (m(s := m t)) (s + 1) (t + 1))"

partial_function (option) strcmp :: "memory \<Rightarrow> addr \<Rightarrow> addr \<Rightarrow> int option" where
  "strcmp m p q =
     (if m p \<noteq> 0 \<and> m p = m q then strcmp m (p + 1) (q + 1)
      else Some (uint (m p) - uint (m q)))"

partial_function (option) strchr :: "memory \<Rightarrow> addr \<Rightarrow> byte \<Rightarrow> addr option" where
  "strchr m s c =
     (if m s = 0 then Some 0 else if m s = c then Some s else strchr m (s + 1) c)"

text \<open>\<open>atoi\<close> accumulates in an \<open>int\<close>; the model keeps its 32-bit wrap-around.\<close>

partial_function (option) atoi_from :: "memory \<Rightarrow> addr \<Rightarrow> u32 \<Rightarrow> u32 option" where
  "atoi_from m s n =
     (if 48 \<le> m s \<and> m s \<le> 57 then atoi_from m (s + 1) (n * 10 + ucast (m s) - 48)
      else Some n)"

definition atoi :: "memory \<Rightarrow> addr \<Rightarrow> u32 option" where
  "atoi m s = atoi_from m s 0"

definition user_memmove :: "memory \<Rightarrow> addr \<Rightarrow> addr \<Rightarrow> int \<Rightarrow> memory" where
  "user_memmove m vdst vsrc n =
     (if vsrc > vdst then copy_up m vdst vsrc (nat n)
      else copy_down m (vdst + of_int n) (vsrc + of_int n) (nat n))"

section \<open>Block operations\<close>

lemma memset_from_step:
  "i < n \<Longrightarrow> memset_from m dst c i n = memset_from (m(dst + of_nat i := ucast c)) dst c (Suc i) n"
  by (subst memset_from.simps) simp

lemma memset_from_done: "\<not> i < n \<Longrightarrow> memset_from m dst c i n = m"
  by (subst memset_from.simps) simp

lemma memset_from_outside:
  assumes "\<And>k. i \<le> k \<Longrightarrow> k < n \<Longrightarrow> a \<noteq> dst + of_nat k"
  shows "memset_from m dst c i n a = m a"
  using assms
proof (induction "n - i" arbitrary: i m)
  case 0
  then show ?case by (simp add: memset_from_done)
next
  case (Suc x)
  then have "i < n" by simp
  have "memset_from (m(dst + of_nat i := ucast c)) dst c (Suc i) n a =
      (m(dst + of_nat i := ucast c)) a"
    by (rule Suc.hyps(1)) (use Suc.prems Suc.hyps(2) in auto)
  moreover have "a \<noteq> dst + of_nat i" using Suc.prems \<open>i < n\<close> by simp
  ultimately show ?case using \<open>i < n\<close> by (simp add: memset_from_step)
qed

lemma memset_from_inside:
  assumes "i \<le> k" and "k < n" and "n \<le> 2 ^ 64"
  shows "memset_from m dst c i n (dst + of_nat k) = ucast c"
  using assms
proof (induction "n - i" arbitrary: i m)
  case (Suc x)
  then have "i < n" by simp
  let ?m = "m(dst + of_nat i := ucast c)"
  show ?case
  proof (cases "i = k")
    case True
    have "memset_from ?m dst c (Suc i) n (dst + of_nat i) = ?m (dst + of_nat i)"
      by (rule memset_from_outside) (use word_offset_eq_iff [of i _ dst] Suc.prems in auto)
    with True \<open>i < n\<close> show ?thesis by (simp add: memset_from_step)
  next
    case False
    have "memset_from ?m dst c (Suc i) n (dst + of_nat k) = ucast c"
      by (rule Suc.hyps(1)) (use Suc.prems Suc.hyps(2) False in auto)
    with \<open>i < n\<close> show ?thesis by (simp add: memset_from_step)
  qed
qed simp

lemma memset_apply:
  "n \<le> 2 ^ 64 \<Longrightarrow> memset m dst c n a = (if unat (a - dst) < n then ucast c else m a)"
  by (auto simp: memset_def unat_offset_less_iff memset_from_inside intro: memset_from_outside)

lemma copy_up_outside:
  assumes "\<And>k. k < n \<Longrightarrow> a \<noteq> d + of_nat k"
  shows "copy_up m d s n a = m a"
  using assms
proof (induction n arbitrary: m d s)
  case (Suc n)
  have "copy_up (m(d := m s)) (d + 1) (s + 1) n a = (m(d := m s)) a"
  proof (rule Suc.IH)
    show "a \<noteq> d + 1 + of_nat k" if "k < n" for k
      using Suc.prems [of "Suc k"] that by (simp add: add.assoc)
  qed
  then show ?case using Suc.prems [of 0] by simp
qed simp

lemma copy_up_inside:
  assumes "n \<le> 2 ^ 64" and "k < n"
    and "\<And>i j. i < j \<Longrightarrow> j < n \<Longrightarrow> s + of_nat j \<noteq> d + of_nat i"
  shows "copy_up m d s n (d + of_nat k) = m (s + of_nat k)"
  using assms
proof (induction n arbitrary: m d s k)
  case (Suc n)
  let ?m = "m(d := m s)"
  show ?case
  proof (cases k)
    case 0
    have "copy_up ?m (d + 1) (s + 1) n d = ?m d"
      by (rule copy_up_outside) (rule offset_Suc_neq, use Suc.prems(1) in simp)
    with 0 show ?thesis by simp
  next
    case (Suc k')
    have "copy_up ?m (d + 1) (s + 1) n (d + 1 + of_nat k') = ?m (s + 1 + of_nat k')"
    proof (rule Suc.IH)
      show "s + 1 + of_nat j \<noteq> d + 1 + of_nat i" if "i < j" "j < n" for i j
        using Suc.prems(3) [of "Suc i" "Suc j"] that by (simp add: add.assoc)
    qed (use \<open>k = Suc k'\<close> Suc.prems(1,2) in auto)
    moreover have "s + 1 + of_nat k' \<noteq> d"
      using Suc.prems(3) [of 0 "Suc k'"] Suc.prems(2) Suc by (simp add: add.assoc)
    ultimately show ?thesis using Suc by (simp add: add.assoc)
  qed
qed simp

lemma copy_down_outside:
  "(\<And>k. k < n \<Longrightarrow> a \<noteq> d + of_nat k) \<Longrightarrow>
   copy_down m (d + of_nat n) (s + of_nat n) n a = m a"
proof (induction n arbitrary: m)
  case (Suc n)
  then show ?case by simp
qed simp

lemma copy_down_inside:
  assumes "n \<le> 2 ^ 64" and "k < n"
    and "\<And>i j. i < j \<Longrightarrow> j < n \<Longrightarrow> s + of_nat i \<noteq> d + of_nat j"
  shows "copy_down m (d + of_nat n) (s + of_nat n) n (d + of_nat k) = m (s + of_nat k)"
  using assms
proof (induction n arbitrary: m)
  case (Suc n)
  let ?m = "m(d + of_nat n := m (s + of_nat n))"
  show ?case
  proof (cases "k = n")
    case True
    have "copy_down ?m (d + of_nat n) (s + of_nat n) n (d + of_nat n) = ?m (d + of_nat n)"
    proof (rule copy_down_outside)
      show "d + of_nat n \<noteq> d + of_nat i" if "i < n" for i
        using word_offset_eq_iff [of n i d] that Suc.prems(1) by simp
    qed
    with True show ?thesis by simp
  next
    case False
    then have "k < n" using Suc.prems by simp
    then have "copy_down ?m (d + of_nat n) (s + of_nat n) n (d + of_nat k) = ?m (s + of_nat k)"
      by (intro Suc.IH) (use Suc.prems in auto)
    moreover have "s + of_nat k \<noteq> d + of_nat n" using Suc.prems(3) [of k n] \<open>k < n\<close> by simp
    ultimately show ?thesis by simp
  qed
qed simp

lemma memmove_no_overlap_up:
  fixes s d :: addr
  assumes "\<not> (s < d \<and> d < s + of_nat n)" and "unat s + n < 2 ^ 64" and "unat d + n \<le> 2 ^ 64"
    and "i < j" and "j < n"
  shows "s + of_nat j \<noteq> d + of_nat i"
proof
  assume eq: "s + of_nat j = d + of_nat i"
  have sn: "unat (s + of_nat n) = unat s + n" "unat (s + of_nat j) = unat s + j"
    and di: "unat (d + of_nat i) = unat d + i"
    using assms by (auto intro!: unat_add_no_wrap)
  from eq sn di have "unat s + j = unat d + i" by metis
  with assms(4,5) have "unat s < unat d" and "unat d < unat s + n" by auto
  with assms(1) sn show False by (simp add: word_less_nat_alt)
qed

lemma memmove_no_overlap_down:
  fixes s d :: addr
  assumes "s \<le> d" and "unat s + n < 2 ^ 64" and "unat d + n \<le> 2 ^ 64" and "i < j" and "j < n"
  shows "s + of_nat i \<noteq> d + of_nat j"
proof
  assume eq: "s + of_nat i = d + of_nat j"
  have "unat (s + of_nat i) = unat s + i" and "unat (d + of_nat j) = unat d + j"
    using assms by (auto intro!: unat_add_no_wrap)
  with eq have "unat s + i = unat d + j" by metis
  with assms show False by (simp add: word_le_nat_alt)
qed

lemma copy_up_apply:
  assumes "\<not> (s < d \<and> d < s + of_nat n)" and "unat s + n < 2 ^ 64" and "unat d + n \<le> 2 ^ 64"
  shows "copy_up m d s n a = (if unat (a - d) < n then m (s + (a - d)) else m a)"
proof -
  have n: "n \<le> 2 ^ 64" using assms(3) by simp
  have "copy_up m d s n a = m (s + (a - d))" if "k < n" "a = d + of_nat k" for k
    using copy_up_inside [OF n that(1) memmove_no_overlap_up [OF assms]] that by simp
  then show ?thesis
    using unat_offset_less_iff [OF n, of a d] copy_up_outside [of n a d m s] by auto
qed

lemma copy_down_apply:
  assumes "s \<le> d" and "unat s + n < 2 ^ 64" and "unat d + n \<le> 2 ^ 64"
  shows "copy_down m (d + of_nat n) (s + of_nat n) n a =
    (if unat (a - d) < n then m (s + (a - d)) else m a)"
proof -
  have n: "n \<le> 2 ^ 64" using assms(3) by simp
  have "copy_down m (d + of_nat n) (s + of_nat n) n a = m (s + (a - d))"
    if "k < n" "a = d + of_nat k" for k
    using copy_down_inside [OF n that(1) memmove_no_overlap_down [OF assms]] that by simp
  then show ?thesis
    using unat_offset_less_iff [OF n, of a d] copy_down_outside [of n a d m s] by auto
qed

lemma memmove_apply:
  assumes "unat src + n < 2 ^ 64" and "unat dst + n \<le> 2 ^ 64"
  shows "memmove m dst src n a = (if unat (a - dst) < n then m (src + (a - dst)) else m a)"
proof (cases "src < dst \<and> dst < src + of_nat n")
  case True
  then have "src \<le> dst" by (simp add: less_imp_le)
  with True show ?thesis using copy_down_apply [OF _ assms] by (simp add: memmove_def)
next
  case False
  then show ?thesis using copy_up_apply [OF False assms] by (auto simp: memmove_def)
qed

lemma user_memmove_apply:
  assumes "0 \<le> n" and "unat src + nat n < 2 ^ 64" and "unat dst + nat n \<le> 2 ^ 64"
  shows "user_memmove m dst src n a =
    (if unat (a - dst) < nat n then m (src + (a - dst)) else m a)"
proof (cases "dst < src")
  case True
  then have "\<not> (src < dst \<and> dst < src + of_nat (nat n))" by simp
  then show ?thesis using True copy_up_apply [OF _ assms(2,3)] by (simp add: user_memmove_def)
next
  case False
  have n: "of_int n = (of_nat (nat n) :: addr)" using assms(1) by simp
  show ?thesis
    using False copy_down_apply [OF _ assms(2,3)] unfolding user_memmove_def n by simp
qed

subsection \<open>Strings in memory\<close>

text \<open>The characters of a string field of size \<open>n\<close>: all its bytes up to
  the first NUL, or all \<open>n\<close> of them.\<close>

definition str_field :: "memory \<Rightarrow> addr \<Rightarrow> nat \<Rightarrow> byte list" where
  "str_field m p n = takeWhile (\<lambda>b. b \<noteq> 0) (mem_read m p n)"

fun cstr :: "memory \<Rightarrow> addr \<Rightarrow> byte list \<Rightarrow> bool" where
  "cstr m p [] \<longleftrightarrow> m p = 0"
| "cstr m p (x # xs) \<longleftrightarrow> m p = x \<and> x \<noteq> 0 \<and> cstr m (p + 1) xs"

lemma str_field_0 [simp]: "str_field m p 0 = []"
  by (simp add: str_field_def)

lemma str_field_Suc:
  "str_field m p (Suc n) = (if m p = 0 then [] else m p # str_field m (p + 1) n)"
  by (simp add: str_field_def mem_read_Suc)

lemma strncmp_0_iff: "strncmp m p q n = 0 \<longleftrightarrow> str_field m p n = str_field m q n"
  by (induction n arbitrary: p q) (auto simp: str_field_Suc unsigned_eq_0_iff dest: unsigned_word_eqI)

lemma cstr_str_field: "cstr m p xs \<Longrightarrow> str_field m p n = take n xs"
proof (induction xs arbitrary: p n)
  case Nil
  then show ?case by (cases n) (simp_all add: str_field_Suc)
next
  case (Cons x xs)
  then show ?case by (cases n) (simp_all add: str_field_Suc)
qed

lemma cstr_nth: "cstr m p xs \<Longrightarrow> i < length xs \<Longrightarrow> m (p + of_nat i) = xs ! i \<and> xs ! i \<noteq> 0"
proof (induction xs arbitrary: p i)
  case (Cons x xs)
  then show ?case by (cases i) (auto simp: add.assoc [symmetric])
qed simp

lemma cstr_end: "cstr m p xs \<Longrightarrow> m (p + of_nat (length xs)) = 0"
  by (induction xs arbitrary: p) (auto simp: add.assoc [symmetric])

lemma strlen_from_cstr:
  assumes "cstr m p xs" and "k \<le> length xs"
  shows "strlen_from m p k = Some (length xs)"
  using assms(2)
proof (induction "length xs - k" arbitrary: k)
  case 0
  then have "k = length xs" by simp
  then show ?case using cstr_end [OF assms(1)] by (simp add: strlen_from.simps)
next
  case (Suc x)
  then have "k < length xs" by simp
  then have "m (p + of_nat k) \<noteq> 0" using cstr_nth [OF assms(1)] by simp
  then show ?case
    using Suc.hyps(1) [of "Suc k"] Suc.hyps(2) \<open>k < length xs\<close>
    by (subst strlen_from.simps) simp
qed

lemma strlen_cstr: "cstr m p xs \<Longrightarrow> strlen m p = Some (length xs)"
  by (simp add: strlen_def strlen_from_cstr)

lemma strncpy_pad_outside:
  "(\<And>k. k < n \<Longrightarrow> a \<noteq> s + of_nat k) \<Longrightarrow> strncpy_pad m s n a = m a"
proof (induction n arbitrary: m s)
  case (Suc n)
  have "strncpy_pad (m(s := 0)) (s + 1) n a = (m(s := 0)) a"
  proof (rule Suc.IH)
    show "a \<noteq> s + 1 + of_nat k" if "k < n" for k
      using Suc.prems [of "Suc k"] that by (simp add: add.assoc)
  qed
  then show ?case using Suc.prems [of 0] by simp
qed simp

lemma strncpy_copy_outside:
  "(\<And>k. k < n \<Longrightarrow> a \<noteq> s + of_nat k) \<Longrightarrow> strncpy_copy m s t n a = m a"
proof (induction n arbitrary: m s t)
  case (Suc n)
  have out: "a \<noteq> s + 1 + of_nat k" if "k < n" for k
    using Suc.prems [of "Suc k"] that by (simp add: add.assoc)
  have "strncpy_copy (m(s := m t)) (s + 1) (t + 1) n a = (m(s := m t)) a"
    by (rule Suc.IH) (rule out)
  moreover have "strncpy_pad (m(s := m t)) (s + 1) n a = (m(s := m t)) a"
    by (rule strncpy_pad_outside) (rule out)
  ultimately show ?case using Suc.prems [of 0] by (cases "m t = 0") simp_all
qed simp

lemma strncpy_pad_inside:
  "n \<le> 2 ^ 64 \<Longrightarrow> k < n \<Longrightarrow> strncpy_pad m s n (s + of_nat k) = 0"
proof (induction n arbitrary: m s k)
  case (Suc n)
  show ?case
  proof (cases k)
    case 0
    have "strncpy_pad (m(s := 0)) (s + 1) n s = (m(s := 0)) s"
      by (rule strncpy_pad_outside) (rule offset_Suc_neq, use Suc.prems in simp)
    with 0 show ?thesis by simp
  next
    case (Suc k')
    then show ?thesis
      using Suc.IH [of k' "m(s := 0)" "s + 1"] Suc.prems by (simp add: add.assoc)
  qed
qed simp

text \<open>Copying \<open>n\<close> bytes at \<open>t\<close> into a field that does not meet them.\<close>

definition apart :: "addr \<Rightarrow> addr \<Rightarrow> nat \<Rightarrow> bool" where
  "apart s t n \<longleftrightarrow> (\<forall>i < n. \<forall>j < n. s + of_nat i \<noteq> t + of_nat j)"

lemma apart_Suc:
  assumes "apart s t (Suc n)"
  shows "apart (s + 1) (t + 1) n" and "s \<noteq> t" and "j < n \<Longrightarrow> t + 1 + of_nat j \<noteq> s"
proof -
  have *: "s + of_nat i \<noteq> t + of_nat j" if "i < Suc n" "j < Suc n" for i j
    using assms that by (auto simp: apart_def)
  show "apart (s + 1) (t + 1) n"
    unfolding apart_def using *[of "Suc _" "Suc _"] by (auto simp: add.assoc)
  show "s \<noteq> t" using *[of 0 0] by simp
  show "j < n \<Longrightarrow> t + 1 + of_nat j \<noteq> s" using *[of 0 "Suc j"] by (auto simp: add.assoc)
qed

lemma mem_read_strncpy_pad:
  "n \<le> 2 ^ 64 \<Longrightarrow> mem_read (strncpy_pad m s n) s n = replicate n 0"
  by (rule nth_equalityI) (simp_all add: strncpy_pad_inside)

lemma strncpy_copy_bytes:
  "n \<le> 2 ^ 64 \<Longrightarrow> apart s t n \<Longrightarrow>
   mem_read (strncpy_copy m s t n) s n = str_field m t n @ replicate (n - length (str_field m t n)) 0"
proof (induction n arbitrary: m s t)
  case (Suc n)
  note ap = apart_Suc [OF Suc.prems(2)]
  have keep: "f s = v" if "\<And>a. (\<And>k. k < n \<Longrightarrow> a \<noteq> s + 1 + of_nat k) \<Longrightarrow> f a = (m(s := v)) a" for f v
    using that [of s] offset_Suc_neq [of _ s] Suc.prems(1) by fastforce
  show ?case
  proof (cases "m t = 0")
    case True
    have "strncpy_pad (m(s := 0)) (s + 1) n s = 0"
      by (rule keep) (rule strncpy_pad_outside)
    with True Suc.prems(1) show ?thesis
      by (simp add: mem_read_Suc mem_read_strncpy_pad str_field_Suc)
  next
    case False
    have "strncpy_copy (m(s := m t)) (s + 1) (t + 1) n s = m t"
      by (rule keep) (rule strncpy_copy_outside)
    moreover have "str_field (m(s := m t)) (t + 1) n = str_field m (t + 1) n"
      unfolding str_field_def by (subst mem_read_fun_upd) (use ap(3) in auto)
    ultimately show ?thesis
      using False Suc.prems(1) Suc.IH [OF _ ap(1), of "m(s := m t)"]
      by (simp add: mem_read_Suc str_field_Suc)
  qed
qed simp

lemma safestrcpy_copy_outside:
  "(\<And>j. j < Suc k \<Longrightarrow> a \<noteq> s + of_nat j) \<Longrightarrow> safestrcpy_copy m s t k a = m a"
proof (induction k arbitrary: m s t)
  case (Suc k)
  have "safestrcpy_copy (m(s := m t)) (s + 1) (t + 1) k a = (m(s := m t)) a"
  proof (rule Suc.IH)
    show "a \<noteq> s + 1 + of_nat j" if "j < Suc k" for j
      using Suc.prems [of "Suc j"] that by (simp add: add.assoc)
  qed
  then show ?case using Suc.prems [of 0] Suc.prems [of 1] by simp
qed simp

lemma safestrcpy_copy_cstr:
  "k < 2 ^ 64 \<Longrightarrow> apart s t (Suc k) \<Longrightarrow> cstr (safestrcpy_copy m s t k) s (str_field m t k)"
proof (induction k arbitrary: m s t)
  case (Suc k)
  note ap = apart_Suc [OF Suc.prems(2)]
  show ?case
  proof (cases "m t = 0")
    case True
    then show ?thesis by (simp add: str_field_Suc)
  next
    case False
    have "safestrcpy_copy (m(s := m t)) (s + 1) (t + 1) k s = (m(s := m t)) s"
      by (rule safestrcpy_copy_outside) (rule offset_Suc_neq, use Suc.prems(1) in simp)
    moreover have "str_field (m(s := m t)) (t + 1) k = str_field m (t + 1) k"
      unfolding str_field_def by (subst mem_read_fun_upd) (use ap(3) in auto)
    ultimately show ?thesis
      using False Suc.prems(1) Suc.IH [OF _ ap(1), of "m(s := m t)"]
      by (simp add: str_field_Suc)
  qed
qed simp

section \<open>Properties\<close>

text \<open>C33: \<open>memmove\<close> of the kernel and \<open>memmove\<close> of the user library, which choose the direction
  of the copy by different tests, compute the same memory: the \<open>n\<close> bytes at the destination are
  the bytes the source had before the call, overlapping or not, and no other byte changes. The
  ranges must not run past the end of the address space (the test \<^verbatim>\<open>s + n > d\<close> of the kernel
  is wrong when \<open>s + n\<close> wraps).\<close>

theorem memmove_correct:
  assumes "0 \<le> n" and "unat src + nat n < 2 ^ 64" and "unat dst + nat n \<le> 2 ^ 64"
  shows "memmove m dst src (nat n) =
           (\<lambda>a. if unat (a - dst) < nat n then m (src + (a - dst)) else m a)
         \<and> user_memmove m dst src n = memmove m dst src (nat n)"
  using memmove_apply [OF assms(2,3)] user_memmove_apply [OF assms] by auto

theorem memmove_correct_witness:
  "memmove ucast 2 0 (nat 4) (5 :: addr) = (3 :: byte)
   \<and> user_memmove ucast 2 0 4 = memmove (ucast :: addr \<Rightarrow> byte) 2 0 (nat 4)"
  using memmove_correct [of 4 0 2 "ucast :: addr \<Rightarrow> byte"] by simp

text \<open>\<open>strncpy\<close> into a field of \<open>n\<close> bytes apart from its source writes the source's
  characters up to the NUL or the field's end and fills the rest with NULs; \<open>strncmp\<close> then finds
  the field equal to the source, and bytes outside the field are kept.\<close>

theorem strncpy_field:
  assumes "0 \<le> n" and "n < 2 ^ 31" and "apart s t (nat n)"
  shows "mem_read (strncpy m s t n) s (nat n) =
           str_field m t (nat n) @ replicate (nat n - length (str_field m t (nat n))) 0
         \<and> strncmp (strncpy m s t n) s t (nat n) = 0
         \<and> (\<forall>a. unat (a - s) \<ge> nat n \<longrightarrow> strncpy m s t n a = m a)"
proof -
  have n: "nat n \<le> 2 ^ 64" using assms(2) by simp
  note field = strncpy_copy_bytes [OF n assms(3), of m]
  have outside: "strncpy m s t n a = m a" if "\<not> unat (a - s) < nat n" for a
    using that unat_offset_less_iff [OF n, of a s] strncpy_copy_outside [of "nat n" a s m t]
    by (auto simp: strncpy_def)
  have "str_field (strncpy m s t n) t (nat n) = str_field m t (nat n)"
    unfolding str_field_def strncpy_def
    by (subst mem_read_cong [of "nat n" _ t m])
       (use assms(3) in \<open>auto simp: apart_def intro!: strncpy_copy_outside dest: sym\<close>)
  moreover have "str_field (strncpy m s t n) s (nat n) = str_field m t (nat n)"
    using field by (simp add: str_field_def strncpy_def takeWhile_append)
  ultimately show ?thesis
    using field outside by (auto simp: strncmp_0_iff strncpy_def)
qed

theorem strncpy_field_witness:
  "strncmp (strncpy (\<lambda>a. if a = 100 then 97 else 0) 0 100 4) 0 100 (nat 4) = 0"
  using strncpy_field [of 4 0 100 "\<lambda>a. if a = 100 then 97 else 0"]
  by (simp add: apart_def all_less_numeral)

text \<open>\<open>safestrcpy\<close> into \<open>n > 0\<close> bytes apart from its source leaves a NUL-terminated string
  there, the source's first characters (at most \<open>n - 1\<close> of them), on which \<open>strlen\<close> terminates
  with that length; bytes outside the \<open>n\<close> are kept.\<close>

theorem safestrcpy_terminated:
  assumes "0 < n" and "n < 2 ^ 31" and "apart s t (nat n)"
  shows "cstr (safestrcpy m s t n) s (str_field m t (nat n - 1))
         \<and> strlen (safestrcpy m s t n) s = Some (length (str_field m t (nat n - 1)))
         \<and> (\<forall>a. unat (a - s) \<ge> nat n \<longrightarrow> safestrcpy m s t n a = m a)"
proof -
  define k where "k = nat n - 1"
  have k: "nat n = Suc k" "Suc k \<le> 2 ^ 64" using assms(1,2) by (auto simp: k_def)
  have eq: "safestrcpy m s t n = safestrcpy_copy m s t k"
    using assms(1) by (simp add: safestrcpy_def k_def)
  have "safestrcpy_copy m s t k a = m a" if "\<not> unat (a - s) < Suc k" for a
    using that unat_offset_less_iff [OF k(2), of a s] safestrcpy_copy_outside [of k a s m t] by auto
  then show ?thesis
    using safestrcpy_copy_cstr [of k s t m] assms(3) k strlen_cstr
    by (auto simp: eq k_def [symmetric])
qed

theorem safestrcpy_terminated_witness:
  "strlen (safestrcpy (\<lambda>_. 97) 0 16 4) 0 = Some 3"
proof -
  have "apart 0 16 (nat 4)" by (simp add: apart_def all_less_numeral)
  then show ?thesis
    using safestrcpy_terminated [of 4 0 16 "\<lambda>_. 97"] by (simp add: str_field_def mem_read_def upt_rec)
qed

end
