(* ===== verification/State.thy ===== *)
theory State
  imports KString
begin

text \<open>
  The kernel's data: the structures of the header files as records with the source's fields, the
  global variables of the kernel as one record \<open>kstate\<close>, and the services every component
  calls: spin locks, \<open>sleep\<close> and \<open>wakeup\<close>, sleep locks and \<open>printf\<close>.

  The model runs one kernel thread at a time. \<open>cur\<close> is the process it runs for (\<open>None\<close> in
  the boot code and the scheduler), \<open>held\<close> the spin locks its hart holds, most recent first;
  the length of \<open>held\<close> is the hart's \<open>noff\<close>. How several harts compete for a spin lock is the
  subject of theory \<open>Spinlock\<close>. Pointers to elements of a static table (buffers, inodes,
  files, processes) are indices, \<open>None\<close> the null pointer; pointers to pages are addresses of
  the physical memory \<open>mem\<close>, which the kernel maps at the same virtual addresses.
  The sentinel \<open>bcache.head\<close> of the buffer list is element \<open>NBUF\<close> of \<open>bufs\<close>.
  Dereferencing a null pointer faults, and the kernel's trap handler then panics with
  \<^verbatim>\<open>kerneltrap\<close>. \<open>disk\<close> is the contents of the disk, and the ghost variable \<open>wtrace\<close> lists
  the writes the device has carried out, oldest first. \<open>kend\<close> is the linker symbol \<open>end\<close>.
\<close>

section \<open>Parameters\<close>

abbreviation (input) NPROC :: nat where "NPROC \<equiv> 64"
abbreviation (input) NOFILE :: nat where "NOFILE \<equiv> 16"
abbreviation (input) NFILE :: nat where "NFILE \<equiv> 100"
abbreviation (input) NINODE :: nat where "NINODE \<equiv> 50"
abbreviation (input) NDEV :: nat where "NDEV \<equiv> 10"
abbreviation (input) ROOTDEV :: u32 where "ROOTDEV \<equiv> 1"
abbreviation (input) ROOTINO :: u32 where "ROOTINO \<equiv> 1"
abbreviation (input) MAXOPBLOCKS :: nat where "MAXOPBLOCKS \<equiv> 10"
abbreviation (input) LOGBLOCKS :: nat where "LOGBLOCKS \<equiv> 30"
abbreviation (input) NBUF :: nat where "NBUF \<equiv> 30"
abbreviation (input) BSIZE :: nat where "BSIZE \<equiv> 1024"
abbreviation (input) NDIRECT :: nat where "NDIRECT \<equiv> 12"
abbreviation (input) NINDIRECT :: nat where "NINDIRECT \<equiv> 256"
abbreviation (input) PIPESIZE :: nat where "PIPESIZE \<equiv> 512"
abbreviation (input) PGSIZE :: nat where "PGSIZE \<equiv> 4096"
abbreviation (input) PHYSTOP :: addr where "PHYSTOP \<equiv> 0x88000000"

section \<open>Structures\<close>

text \<open>The sleep locks and the spin locks of the kernel (\<open>L_sl l\<close> is the spin lock inside the
  sleep lock \<open>l\<close>), and the addresses used as sleep channels.\<close>

datatype sleep_id = SLbuf nat | SLinode nat

datatype lock_id =
    L_kmem | L_bcache | L_sl sleep_id | L_log | L_itable | L_ftable | L_pipe addr
  | L_proc nat | L_wait | L_pid | L_tickslock | L_cons | L_tx | L_pr

datatype chan =
    Ch_sl sleep_id | Ch_log | Ch_nread addr | Ch_nwrite addr | Ch_proc nat
  | Ch_ticks | Ch_cons_r | Ch_tx_chan

record sleeplock =
  sl_locked :: bool
  sl_pid :: int

record buf =
  b_valid :: bool
  b_dev :: u32
  b_blockno :: u32
  b_lock :: sleeplock
  b_refcnt :: u32
  b_prev :: nat
  b_next :: nat
  b_data :: "byte list"

record logheader =
  lh_n :: int
  lh_block :: "nat \<Rightarrow> u32"

record log =
  log_start :: u32
  log_outstanding :: int
  log_committing :: bool
  log_dev :: u32
  log_lh :: logheader

record superblock =
  sb_magic :: u32
  sb_size :: u32
  sb_nblocks :: u32
  sb_ninodes :: u32
  sb_nlog :: u32
  sb_logstart :: u32
  sb_inodestart :: u32
  sb_bmapstart :: u32

record inode =
  i_dev :: u32
  i_inum :: u32
  i_ref :: int
  i_lock :: sleeplock
  i_valid :: bool
  i_type :: u16
  i_major :: u16
  i_minor :: u16
  i_nlink :: u16
  i_size :: u32
  i_addrs :: "nat \<Rightarrow> u32"

datatype ftype = FD_NONE | FD_PIPE | FD_INODE | FD_DEVICE

record kfile =
  f_type :: ftype
  f_ref :: int
  f_readable :: bool
  f_writable :: bool
  f_pipe :: addr
  f_ip :: nat
  f_off :: u32
  f_major :: u16

record pipe =
  pi_data :: "nat \<Rightarrow> byte"
  pi_nread :: u32
  pi_nwrite :: u32
  pi_readopen :: bool
  pi_writeopen :: bool

datatype procstate = UNUSED | USED | SLEEPING | RUNNABLE | RUNNING | ZOMBIE

text \<open>Of the saved context the kernel's C code sets only the return address, to \<open>forkret\<close>,
  and the stack pointer; the rest belongs to \<open>swtch\<close>.\<close>

datatype text_addr = NoText | Forkret

record proc =
  p_state :: procstate
  p_chan :: "chan option"
  p_killed :: bool
  p_xstate :: int
  p_pid :: int
  p_parent :: "nat option"
  p_kstack :: addr
  p_sz :: u64
  p_pagetable :: addr
  p_trapframe :: addr
  p_context_ra :: text_addr
  p_context_sp :: addr
  p_ofile :: "nat \<Rightarrow> nat option"
  p_cwd :: "nat option"
  p_name :: "byte list"

record console =
  cons_buf :: "nat \<Rightarrow> byte"
  cons_r :: u32
  cons_w :: u32
  cons_e :: u32

text \<open>Addresses the linker fixes, and the control registers of the hart with the interrupts
  pending at the interrupt controller (\<open>plic\<close>, the one to be claimed first at the head).\<close>

record ksyms =
  y_etext :: addr
  y_trampoline :: addr
  y_uservec :: addr
  y_userret :: addr
  y_usertrap :: addr
  y_kernelvec :: addr

record csrs =
  c_sepc :: u64
  c_scause :: u64
  c_stval :: u64
  c_sstatus :: u64
  c_stvec :: u64
  c_satp :: u64
  c_tp :: u64
  c_stimecmp :: u64
  c_time :: u64
  c_plic :: "int list"
  c_serving :: "int list"

record kstate =
  held :: "lock_id list"
  cur :: "nat option"
  procs :: "nat \<Rightarrow> proc"
  nextpid :: int
  initproc :: "nat option"
  ticks :: u32
  first :: bool
  kend :: addr
  syms :: ksyms
  csr :: csrs
  kernel_pagetable :: addr
  mem :: memory
  freelist :: addr
  bufs :: "nat \<Rightarrow> buf"
  disk :: "u32 \<Rightarrow> byte list"
  wtrace :: "(u32 \<times> byte list) list"
  the_log :: log
  sb :: superblock
  inodes :: "nat \<Rightarrow> inode"
  files :: "nat \<Rightarrow> kfile"
  pipes :: "addr \<Rightarrow> pipe"
  cons :: console
  tx_busy :: bool
  uart_idle :: bool
  uart_out :: "byte list"
  uart_in :: "byte list"
  msgs :: "string list"

text \<open>The state the kernel starts in: every global variable zero, the disk as given.\<close>

definition zero_sleeplock :: sleeplock where
  "zero_sleeplock = \<lparr>sl_locked = False, sl_pid = 0\<rparr>"

definition zero_buf :: buf where
  "zero_buf = \<lparr>b_valid = False, b_dev = 0, b_blockno = 0, b_lock = zero_sleeplock, b_refcnt = 0,
     b_prev = 0, b_next = 0, b_data = replicate BSIZE 0\<rparr>"

definition zero_log :: log where
  "zero_log = \<lparr>log_start = 0, log_outstanding = 0, log_committing = False, log_dev = 0,
     log_lh = \<lparr>lh_n = 0, lh_block = (\<lambda>_. 0)\<rparr>\<rparr>"

definition zero_sb :: superblock where
  "zero_sb = \<lparr>sb_magic = 0, sb_size = 0, sb_nblocks = 0, sb_ninodes = 0, sb_nlog = 0,
     sb_logstart = 0, sb_inodestart = 0, sb_bmapstart = 0\<rparr>"

definition zero_inode :: inode where
  "zero_inode = \<lparr>i_dev = 0, i_inum = 0, i_ref = 0, i_lock = zero_sleeplock, i_valid = False,
     i_type = 0, i_major = 0, i_minor = 0, i_nlink = 0, i_size = 0, i_addrs = (\<lambda>_. 0)\<rparr>"

definition zero_file :: kfile where
  "zero_file = \<lparr>f_type = FD_NONE, f_ref = 0, f_readable = False, f_writable = False, f_pipe = 0,
     f_ip = 0, f_off = 0, f_major = 0\<rparr>"

definition zero_pipe :: pipe where
  "zero_pipe = \<lparr>pi_data = (\<lambda>_. 0), pi_nread = 0, pi_nwrite = 0, pi_readopen = False,
     pi_writeopen = False\<rparr>"

definition zero_proc :: proc where
  "zero_proc = \<lparr>p_state = UNUSED, p_chan = None, p_killed = False, p_xstate = 0, p_pid = 0,
     p_parent = None, p_kstack = 0, p_sz = 0, p_pagetable = 0, p_trapframe = 0,
     p_context_ra = NoText, p_context_sp = 0, p_ofile = (\<lambda>_. None), p_cwd = None,
     p_name = replicate 16 0\<rparr>"

definition zero_syms :: ksyms where
  "zero_syms = \<lparr>y_etext = 0x80008000, y_trampoline = 0x80007000, y_uservec = 0x80007000,
     y_userret = 0x8000709C, y_usertrap = 0x80002000, y_kernelvec = 0x80005000\<rparr>"

definition zero_csr :: csrs where
  "zero_csr = \<lparr>c_sepc = 0, c_scause = 0, c_stval = 0, c_sstatus = 0, c_stvec = 0, c_satp = 0,
     c_tp = 0, c_stimecmp = 0, c_time = 0, c_plic = [], c_serving = []\<rparr>"

definition zero_state :: "addr \<Rightarrow> (u32 \<Rightarrow> byte list) \<Rightarrow> kstate" where
  "zero_state e d = \<lparr>held = [], cur = None, procs = (\<lambda>_. zero_proc), nextpid = 1,
     initproc = None, ticks = 0, first = True, kend = e, syms = zero_syms, csr = zero_csr,
     kernel_pagetable = 0, mem = (\<lambda>_. 0), freelist = 0, bufs = (\<lambda>_. zero_buf),
     disk = d, wtrace = [], the_log = zero_log, sb = zero_sb, inodes = (\<lambda>_. zero_inode),
     files = (\<lambda>_. zero_file), pipes = (\<lambda>_. zero_pipe),
     cons = \<lparr>cons_buf = (\<lambda>_. 0), cons_r = 0, cons_w = 0, cons_e = 0\<rparr>, tx_busy = False,
     uart_idle = True, uart_out = [], uart_in = [], msgs = []\<rparr>"

lemmas zero_defs = zero_state_def zero_syms_def zero_csr_def zero_proc_def zero_pipe_def zero_file_def zero_inode_def
  zero_sb_def zero_log_def zero_buf_def zero_sleeplock_def

type_synonym 'a kres = "(kstate, 'a) res"

section \<open>Spin locks\<close>

definition acquire :: "lock_id \<Rightarrow> kstate \<Rightarrow> unit kres" where
  "acquire l s = (if l \<in> set (held s) then Panic ''acquire'' else Ok () (s\<lparr>held := l # held s\<rparr>))"

definition release :: "lock_id \<Rightarrow> kstate \<Rightarrow> unit kres" where
  "release l s = (if l \<in> set (held s) then Ok () (s\<lparr>held := remove1 l (held s)\<rparr>)
                  else Panic ''release'')"

definition kprintf :: "string \<Rightarrow> kstate \<Rightarrow> kstate" where
  "kprintf m s = s\<lparr>msgs := msgs s @ [m]\<rparr>"

section \<open>sleep and wakeup\<close>

abbreviation upd_proc :: "nat \<Rightarrow> (proc \<Rightarrow> proc) \<Rightarrow> kstate \<Rightarrow> kstate" where
  "upd_proc p f s \<equiv> s\<lparr>procs := (procs s)(p := f (procs s p))\<rparr>"

text \<open>\<open>sched\<close> up to the context switch: the thread is off its hart.\<close>

definition sched :: "kstate \<Rightarrow> 'a kres" where
  "sched s =
     (case cur s of
        None \<Rightarrow> Panic ''kerneltrap''
      | Some p \<Rightarrow>
          if L_proc p \<notin> set (held s) then Panic ''sched p->lock''
          else if length (held s) \<noteq> 1 then Panic ''sched locks''
          else if p_state (procs s p) = RUNNING then Panic ''sched RUNNING''
          else Block s)"

definition sleep :: "chan \<Rightarrow> lock_id \<Rightarrow> kstate \<Rightarrow> 'a kres" where
  "sleep ch lk s =
     (case cur s of
        None \<Rightarrow> Panic ''kerneltrap''
      | Some p \<Rightarrow>
          bind (acquire (L_proc p) s) (\<lambda>_ s.
          bind (release lk s) (\<lambda>_ s.
          sched (upd_proc p (\<lambda>q. q\<lparr>p_chan := Some ch, p_state := SLEEPING\<rparr>) s))))"

text \<open>The rest of \<open>sleep\<close>, once the scheduler has picked the process again (it then holds
  \<open>p->lock\<close>).\<close>

definition sleep_resume :: "lock_id \<Rightarrow> kstate \<Rightarrow> unit kres" where
  "sleep_resume lk s =
     (case cur s of
        None \<Rightarrow> Panic ''kerneltrap''
      | Some p \<Rightarrow>
          bind (release (L_proc p) (upd_proc p (\<lambda>q. q\<lparr>p_chan := None\<rparr>) s)) (\<lambda>_ s.
          acquire lk s))"

definition wakeup_one :: "chan \<Rightarrow> nat \<Rightarrow> kstate \<Rightarrow> unit kres" where
  "wakeup_one ch p s =
     (if Some p = cur s then Ok () s
      else bind (acquire (L_proc p) s) (\<lambda>_ s.
           release (L_proc p)
             (if p_state (procs s p) = SLEEPING \<and> p_chan (procs s p) = Some ch
              then upd_proc p (\<lambda>q. q\<lparr>p_state := RUNNABLE\<rparr>) s else s)))"

definition wakeup :: "chan \<Rightarrow> kstate \<Rightarrow> unit kres" where
  "wakeup ch s = for_each [0..<NPROC] (wakeup_one ch) s"

section \<open>Sleep locks\<close>

primrec get_sl :: "sleep_id \<Rightarrow> kstate \<Rightarrow> sleeplock" where
  "get_sl (SLbuf i) s = b_lock (bufs s i)"
| "get_sl (SLinode i) s = i_lock (inodes s i)"

primrec set_sl :: "sleep_id \<Rightarrow> sleeplock \<Rightarrow> kstate \<Rightarrow> kstate" where
  "set_sl (SLbuf i) v s = s\<lparr>bufs := (bufs s)(i := (bufs s i)\<lparr>b_lock := v\<rparr>)\<rparr>"
| "set_sl (SLinode i) v s = s\<lparr>inodes := (inodes s)(i := (inodes s i)\<lparr>i_lock := v\<rparr>)\<rparr>"

definition initsleeplock :: "sleep_id \<Rightarrow> kstate \<Rightarrow> kstate" where
  "initsleeplock l s = set_sl l \<lparr>sl_locked = False, sl_pid = 0\<rparr> s"

text \<open>The loop of \<open>acquiresleep\<close> and what follows it; a sleeper that is woken runs it again.\<close>

definition acquiresleep_loop :: "sleep_id \<Rightarrow> kstate \<Rightarrow> unit kres" where
  "acquiresleep_loop l s =
     (if sl_locked (get_sl l s) then sleep (Ch_sl l) (L_sl l) s
      else case cur s of
        None \<Rightarrow> Panic ''kerneltrap''
      | Some p \<Rightarrow>
          release (L_sl l) (set_sl l \<lparr>sl_locked = True, sl_pid = p_pid (procs s p)\<rparr> s))"

definition acquiresleep :: "sleep_id \<Rightarrow> kstate \<Rightarrow> unit kres" where
  "acquiresleep l s = bind (acquire (L_sl l) s) (\<lambda>_ s. acquiresleep_loop l s)"

definition releasesleep :: "sleep_id \<Rightarrow> kstate \<Rightarrow> unit kres" where
  "releasesleep l s =
     bind (acquire (L_sl l) s) (\<lambda>_ s.
     bind (wakeup (Ch_sl l) (set_sl l \<lparr>sl_locked = False, sl_pid = 0\<rparr> s)) (\<lambda>_ s.
     release (L_sl l) s))"

definition holdingsleep :: "sleep_id \<Rightarrow> kstate \<Rightarrow> bool kres" where
  "holdingsleep l s =
     bind (acquire (L_sl l) s) (\<lambda>_ s.
     case cur s of
       None \<Rightarrow> if sl_locked (get_sl l s) then Panic ''kerneltrap''
               else bind (release (L_sl l) s) (\<lambda>_ s. Ok False s)
     | Some p \<Rightarrow>
         bind (release (L_sl l) s) (\<lambda>_ s.
         Ok (sl_locked (get_sl l s) \<and> sl_pid (get_sl l s) = p_pid (procs s p)) s))"

section \<open>Running these services\<close>

definition no_plocks :: "kstate \<Rightarrow> bool" where
  "no_plocks s \<longleftrightarrow> (\<forall>p. L_proc p \<notin> set (held s))"

definition woken :: "chan \<Rightarrow> nat \<Rightarrow> nat option \<Rightarrow> (nat \<Rightarrow> proc) \<Rightarrow> nat \<Rightarrow> proc" where
  "woken ch n c ps p =
     (if p < n \<and> Some p \<noteq> c \<and> p_state (ps p) = SLEEPING \<and> p_chan (ps p) = Some ch
      then (ps p)\<lparr>p_state := RUNNABLE\<rparr> else ps p)"

lemma held_idem [simp]: "held s = h \<Longrightarrow> s\<lparr>held := h\<rparr> = s"
  by auto

lemma acquire_Ok [simp]: "l \<notin> set (held s) \<Longrightarrow> acquire l s = Ok () (s\<lparr>held := l # held s\<rparr>)"
  by (simp add: acquire_def)

lemma release_Cons [simp]: "held s = l # h \<Longrightarrow> release l s = Ok () (s\<lparr>held := h\<rparr>)"
  by (simp add: release_def)

lemma wakeup_one_Ok:
  "L_proc p \<notin> set (held s) \<Longrightarrow>
   wakeup_one ch p s = Ok () (s\<lparr>procs := (procs s)(p := woken ch (Suc p) (cur s) (procs s) p)\<rparr>)"
  by (simp add: wakeup_one_def woken_def release_def)

lemma woken_Suc:
  "woken ch (Suc n) c ps = (woken ch n c ps)(n := woken ch (Suc n) c ps n)"
  by (auto simp: woken_def fun_eq_iff less_Suc_eq)

lemma wakeup_prefix_Ok:
  "no_plocks s \<Longrightarrow>
   for_each [0..<n] (wakeup_one ch) s = Ok () (s\<lparr>procs := woken ch n (cur s) (procs s)\<rparr>)"
proof (induction n)
  case 0
  then show ?case by (simp add: woken_def [abs_def])
next
  case (Suc n)
  have "woken ch (Suc n) (cur s) (woken ch n (cur s) (procs s)) n =
        woken ch (Suc n) (cur s) (procs s) n"
    by (simp add: woken_def)
  with Suc show ?case
    by (subst woken_Suc) (simp add: for_each_append wakeup_one_Ok no_plocks_def)
qed

lemma wakeup_Ok:
  "no_plocks s \<Longrightarrow> wakeup ch s = Ok () (s\<lparr>procs := woken ch NPROC (cur s) (procs s)\<rparr>)"
  unfolding wakeup_def by (rule wakeup_prefix_Ok)

lemma woken_pid [simp]: "p_pid (woken ch n c ps p) = p_pid (ps p)"
  by (simp add: woken_def)

lemma get_set_sl [simp]: "get_sl l (set_sl l v s) = v"
  by (cases l) simp_all

lemma acquiresleep_Ok:
  "L_sl l \<notin> set (held s) \<Longrightarrow> \<not> sl_locked (get_sl l s) \<Longrightarrow> cur s = Some p \<Longrightarrow>
   acquiresleep l s = Ok () (set_sl l \<lparr>sl_locked = True, sl_pid = p_pid (procs s p)\<rparr> s)"
  by (cases l) (simp_all add: acquiresleep_def acquiresleep_loop_def)

lemma releasesleep_Ok:
  "L_sl l \<notin> set (held s) \<Longrightarrow> no_plocks s \<Longrightarrow>
   releasesleep l s = Ok () (set_sl l \<lparr>sl_locked = False, sl_pid = 0\<rparr>
     (s\<lparr>procs := woken (Ch_sl l) NPROC (cur s) (procs s)\<rparr>))"
  by (cases l) (simp_all add: releasesleep_def wakeup_Ok no_plocks_def)

lemma holdingsleep_Ok:
  "L_sl l \<notin> set (held s) \<Longrightarrow> cur s = Some p \<Longrightarrow>
   holdingsleep l s =
     Ok (sl_locked (get_sl l s) \<and> sl_pid (get_sl l s) = p_pid (procs s p)) s"
  by (cases l) (simp_all add: holdingsleep_def)

end
