(* ===== verification/Spinlock.thy ===== *)
theory Spinlock
  imports State
begin

text \<open>
  The spin locks of \<^verbatim>\<open>kernel/spinlock.c\<close> on a machine with several harts. Each hart has its
  \<open>noff\<close>, \<open>intena\<close> and interrupt-enable bit; \<open>acquire\<close> and \<open>release\<close> are cut at their
  accesses to the shared lock word, so that the step relation interleaves the harts between the
  atomic swap, the assignment of \<open>lk->cpu\<close> and the releasing store. \<open>pcs\<close> says where in these
  functions a hart is. \<open>own\<close> is a ghost variable: the locks a hart has acquired and not begun
  to release. The last section relates one hart's view to the \<open>held\<close> list of theory \<open>State\<close>.
\<close>

section \<open>State of the harts\<close>

record cpu =
  noff :: int
  intena :: bool
  sie :: bool

record spinlock =
  locked :: bool
  lk_cpu :: "nat option"

datatype 'l pc = Run | Spin 'l | Got 'l | Rel 'l

record 'l harts =
  cpus :: "nat \<Rightarrow> cpu"
  lks :: "'l \<Rightarrow> spinlock"
  pcs :: "nat \<Rightarrow> 'l pc"
  own :: "nat \<Rightarrow> 'l list"

section \<open>kernel/spinlock.c\<close>

definition initlock :: "'l \<Rightarrow> 'l harts \<Rightarrow> 'l harts" where
  "initlock l s = s\<lparr>lks := (lks s)(l := \<lparr>locked = False, lk_cpu = None\<rparr>)\<rparr>"

definition push_off :: "nat \<Rightarrow> 'l harts \<Rightarrow> 'l harts" where
  "push_off h s =
     (let old = sie (cpus s h); c = (cpus s h)\<lparr>sie := False\<rparr>;
          c = (if noff c = 0 then c\<lparr>intena := old\<rparr> else c) in
      s\<lparr>cpus := (cpus s)(h := c\<lparr>noff := noff c + 1\<rparr>)\<rparr>)"

definition pop_off :: "nat \<Rightarrow> 'l harts \<Rightarrow> ('l harts, unit) res" where
  "pop_off h s =
     (let c = cpus s h in
      if sie c then Panic ''pop_off - interruptible''
      else if noff c < 1 then Panic ''pop_off''
      else
        let c = c\<lparr>noff := noff c - 1\<rparr>;
            c = (if noff c = 0 \<and> intena c then c\<lparr>sie := True\<rparr> else c) in
        Ok () (s\<lparr>cpus := (cpus s)(h := c)\<rparr>))"

definition holding :: "nat \<Rightarrow> 'l \<Rightarrow> 'l harts \<Rightarrow> bool" where
  "holding h l s \<longleftrightarrow> locked (lks s l) \<and> lk_cpu (lks s l) = Some h"

text \<open>\<open>acquire\<close>: up to the loop; one turn of \<^verbatim>\<open>__sync_lock_test_and_set\<close>; the rest.\<close>

definition acquire_begin :: "nat \<Rightarrow> 'l \<Rightarrow> 'l harts \<Rightarrow> ('l harts, unit) res" where
  "acquire_begin h l s =
     (let s = push_off h s in
      if holding h l s then Panic ''acquire'' else Ok () (s\<lparr>pcs := (pcs s)(h := Spin l)\<rparr>))"

definition acquire_swap :: "nat \<Rightarrow> 'l \<Rightarrow> 'l harts \<Rightarrow> 'l harts" where
  "acquire_swap h l s =
     (if locked (lks s l) then s
      else s\<lparr>lks := (lks s)(l := (lks s l)\<lparr>locked := True\<rparr>), pcs := (pcs s)(h := Got l)\<rparr>)"

definition acquire_end :: "nat \<Rightarrow> 'l \<Rightarrow> 'l harts \<Rightarrow> 'l harts" where
  "acquire_end h l s =
     s\<lparr>lks := (lks s)(l := (lks s l)\<lparr>lk_cpu := Some h\<rparr>), pcs := (pcs s)(h := Run),
       own := (own s)(h := l # own s h)\<rparr>"

text \<open>\<open>release\<close>: up to the store to \<open>lk->cpu\<close>; the store to \<open>lk->locked\<close> and \<open>pop_off\<close>.\<close>

definition release_begin :: "nat \<Rightarrow> 'l \<Rightarrow> 'l harts \<Rightarrow> ('l harts, unit) res" where
  "release_begin h l s =
     (if \<not> holding h l s then Panic ''release''
      else Ok () (s\<lparr>lks := (lks s)(l := (lks s l)\<lparr>lk_cpu := None\<rparr>), pcs := (pcs s)(h := Rel l),
             own := (own s)(h := remove1 l (own s h))\<rparr>))"

definition release_end :: "nat \<Rightarrow> 'l \<Rightarrow> 'l harts \<Rightarrow> ('l harts, unit) res" where
  "release_end h l s =
     pop_off h (s\<lparr>lks := (lks s)(l := (lks s l)\<lparr>locked := False\<rparr>), pcs := (pcs s)(h := Run)\<rparr>)"

text \<open>The functions as a hart runs them with no other hart in between.\<close>

definition hart_acquire :: "nat \<Rightarrow> 'l \<Rightarrow> 'l harts \<Rightarrow> ('l harts, unit) res" where
  "hart_acquire h l s =
     bind (acquire_begin h l s) (\<lambda>_ s.
     if locked (lks s l) then Block s else Ok () (acquire_end h l (acquire_swap h l s)))"

definition hart_release :: "nat \<Rightarrow> 'l \<Rightarrow> 'l harts \<Rightarrow> ('l harts, unit) res" where
  "hart_release h l s = bind (release_begin h l s) (\<lambda>_ s. release_end h l s)"

section \<open>Interleaved execution\<close>

text \<open>A hart that is not inside \<open>acquire\<close> or \<open>release\<close> may call either, and may switch
  interrupts when its \<open>noff\<close> is zero (\<open>intr_on\<close> and \<open>intr_off\<close> of the scheduler and the trap
  code).\<close>

inductive step :: "'l harts \<Rightarrow> 'l harts \<Rightarrow> bool" where
  acq: "pcs s h = Run \<Longrightarrow> acquire_begin h l s = Ok () t \<Longrightarrow> step s t"
| swap: "pcs s h = Spin l \<Longrightarrow> step s (acquire_swap h l s)"
| got: "pcs s h = Got l \<Longrightarrow> step s (acquire_end h l s)"
| rel: "pcs s h = Run \<Longrightarrow> release_begin h l s = Ok () t \<Longrightarrow> step s t"
| rel_end: "pcs s h = Rel l \<Longrightarrow> release_end h l s = Ok () t \<Longrightarrow> step s t"
| intr: "pcs s h = Run \<Longrightarrow> noff (cpus s h) = 0 \<Longrightarrow>
    step s (s\<lparr>cpus := (cpus s)(h := (cpus s h)\<lparr>sie := b\<rparr>)\<rparr>)"

definition init_harts :: "'l harts \<Rightarrow> bool" where
  "init_harts s \<longleftrightarrow>
     (\<forall>l. lks s l = \<lparr>locked = False, lk_cpu = None\<rparr>) \<and>
     (\<forall>h. pcs s h = Run \<and> own s h = [] \<and> noff (cpus s h) = 0)"

inductive reach :: "'l harts \<Rightarrow> bool" where
  init: "init_harts s \<Longrightarrow> reach s"
| step: "reach s \<Longrightarrow> step s t \<Longrightarrow> reach t"

text \<open>The locks a hart has the right to: those it owns and the one it is taking or releasing.\<close>

definition has :: "'l harts \<Rightarrow> nat \<Rightarrow> 'l \<Rightarrow> bool" where
  "has s h l \<longleftrightarrow> l \<in> set (own s h) \<or> pcs s h = Got l \<or> pcs s h = Rel l"

definition busy :: "'l pc \<Rightarrow> int" where
  "busy c = (if c = Run then 0 else 1)"

definition harts_inv :: "'l harts \<Rightarrow> bool" where
  "harts_inv s \<longleftrightarrow>
     (\<forall>l. locked (lks s l) \<longleftrightarrow> (\<exists>h. has s h l)) \<and>
     (\<forall>h h' l. has s h l \<longrightarrow> has s h' l \<longrightarrow> h = h') \<and>
     (\<forall>h l. l \<in> set (own s h) \<longleftrightarrow> lk_cpu (lks s l) = Some h) \<and>
     (\<forall>h l. pcs s h \<in> {Got l, Rel l} \<longrightarrow> l \<notin> set (own s h)) \<and>
     (\<forall>h. distinct (own s h)) \<and>
     (\<forall>h. noff (cpus s h) = int (length (own s h)) + busy (pcs s h)) \<and>
     (\<forall>h. 0 < noff (cpus s h) \<longrightarrow> \<not> sie (cpus s h))"

lemma harts_invD:
  assumes "harts_inv s"
  shows "has s h l \<Longrightarrow> locked (lks s l)"
    and "locked (lks s l) \<Longrightarrow> \<exists>h. has s h l"
    and "has s h l \<Longrightarrow> has s h' l \<Longrightarrow> h = h'"
    and "lk_cpu (lks s l) = Some h \<longleftrightarrow> l \<in> set (own s h)"
    and "pcs s h = Got l \<Longrightarrow> l \<notin> set (own s h)" and "pcs s h = Rel l \<Longrightarrow> l \<notin> set (own s h)"
    and "distinct (own s h)" and "noff (cpus s h) = int (length (own s h)) + busy (pcs s h)"
    and "0 < noff (cpus s h) \<Longrightarrow> \<not> sie (cpus s h)"
  using assms by (auto simp: harts_inv_def)

lemma push_off_simps [simp]:
  "lks (push_off h s) = lks s" "pcs (push_off h s) = pcs s" "own (push_off h s) = own s"
  "noff (cpus (push_off h s) h') = noff (cpus s h') + (if h' = h then 1 else 0)"
  "sie (cpus (push_off h s) h') = (if h' = h then False else sie (cpus s h'))"
  by (auto simp: push_off_def Let_def)

lemma inv_acquire_begin:
  assumes inv: "harts_inv s" and pc: "pcs s h = Run" and ok: "acquire_begin h l s = Ok () t"
  shows "harts_inv t"
proof -
  have t: "t = (push_off h s)\<lparr>pcs := (pcs s)(h := Spin l)\<rparr>"
    using ok by (auto simp: acquire_begin_def Let_def split: if_splits)
  have has: "has t k m \<longleftrightarrow> has s k m" for k m using pc by (auto simp: has_def t)
  note D = harts_invD [OF inv]
  show ?thesis
    unfolding harts_inv_def has
  proof (intro conjI allI impI)
    show "noff (cpus t k) = int (length (own t k)) + busy (pcs t k)" for k
      using D(8) [of k] pc by (simp add: t busy_def)
  qed (use D pc in \<open>auto simp: t split: if_splits\<close>)
qed

lemma inv_acquire_swap:
  assumes inv: "harts_inv s" and pc: "pcs s h = Spin l"
  shows "harts_inv (acquire_swap h l s)" (is "harts_inv ?t")
proof (cases "locked (lks s l)")
  case True
  then show ?thesis using inv by (simp add: acquire_swap_def)
next
  case False
  note D = harts_invD [OF inv]
  have none: "\<not> has s k l" for k using False D(1) by auto
  have has: "has ?t k m \<longleftrightarrow> has s k m \<or> k = h \<and> m = l" for k m
    using pc False by (auto simp: has_def acquire_swap_def)
  show ?thesis
    unfolding harts_inv_def has
  proof (intro conjI allI impI)
    show "locked (lks ?t m) \<longleftrightarrow> (\<exists>k. has s k m \<or> k = h \<and> m = l)" for m
      using D(1,2) False by (auto simp: acquire_swap_def)
    show "noff (cpus ?t k) = int (length (own ?t k)) + busy (pcs ?t k)" for k
      using D(8) [of k] pc False by (simp add: acquire_swap_def busy_def)
    show "k = k'" if "has s k m \<or> k = h \<and> m = l" "has s k' m \<or> k' = h \<and> m = l" for k k' m
      using that none D(3) by auto
    show "m \<notin> set (own ?t k)" if "pcs ?t k \<in> {Got m, Rel m}" for k m
      using that none [of k] D(5,6) False by (auto simp: acquire_swap_def has_def split: if_splits)
  qed (use D False in \<open>auto simp: acquire_swap_def\<close>)
qed

lemma inv_acquire_end:
  assumes inv: "harts_inv s" and pc: "pcs s h = Got l"
  shows "harts_inv (acquire_end h l s)" (is "harts_inv ?t")
proof -
  note D = harts_invD [OF inv]
  have l: "has s h l" "l \<notin> set (own s h)" using pc D(5) by (auto simp: has_def)
  have has: "has ?t k m \<longleftrightarrow> has s k m" for k m
    using pc l by (auto simp: has_def acquire_end_def)
  have other: "l \<notin> set (own s k)" for k using D(3) [of h l k] l by (auto simp: has_def)
  show ?thesis
    unfolding harts_inv_def has
  proof (intro conjI allI impI)
    show "noff (cpus ?t k) = int (length (own ?t k)) + busy (pcs ?t k)" for k
      using D(8) [of k] pc by (simp add: acquire_end_def busy_def)
    show "m \<in> set (own ?t k) \<longleftrightarrow> lk_cpu (lks ?t m) = Some k" for k m
      using D(4) other by (auto simp: acquire_end_def)
    show "m \<notin> set (own ?t k)" if "pcs ?t k \<in> {Got m, Rel m}" for k m
      using that D(5,6) by (auto simp: acquire_end_def split: if_splits)
  qed (use D l in \<open>auto simp: acquire_end_def\<close>)
qed

lemma inv_release_begin:
  assumes inv: "harts_inv s" and pc: "pcs s h = Run" and ok: "release_begin h l s = Ok () t"
  shows "harts_inv t"
proof -
  note D = harts_invD [OF inv]
  have t: "t = s\<lparr>lks := (lks s)(l := (lks s l)\<lparr>lk_cpu := None\<rparr>), pcs := (pcs s)(h := Rel l),
             own := (own s)(h := remove1 l (own s h))\<rparr>" and l: "l \<in> set (own s h)"
    using ok D(4) by (auto simp: release_begin_def holding_def split: if_splits)
  have rm: "set (remove1 l (own s h)) = set (own s h) - {l}" using D(7) by simp
  have has: "has t k m \<longleftrightarrow> has s k m" for k m
    using pc l rm by (auto simp: has_def t)
  have other: "l \<notin> set (own s k)" if "k \<noteq> h" for k
    using D(3) [of h l k] l that by (auto simp: has_def)
  have len: "length (own s h) = Suc (length (remove1 l (own s h)))"
    using l length_pos_if_in_set [OF l] by (simp add: length_remove1)
  show ?thesis
    unfolding harts_inv_def has
  proof (intro conjI allI impI)
    show "noff (cpus t k) = int (length (own t k)) + busy (pcs t k)" for k
      using D(8) [of k] pc len by (simp add: t busy_def)
    show "m \<in> set (own t k) \<longleftrightarrow> lk_cpu (lks t m) = Some k" for k m
      using D(4) other rm by (auto simp: t)
    show "m \<notin> set (own t k)" if "pcs t k \<in> {Got m, Rel m}" for k m
      using that D(5,6) rm by (auto simp: t split: if_splits)
  qed (use D l in \<open>auto simp: t\<close>)
qed

lemma inv_release_end:
  assumes inv: "harts_inv s" and pc: "pcs s h = Rel l" and ok: "release_end h l s = Ok () t"
  shows "harts_inv t"
proof -
  note D = harts_invD [OF inv]
  have l: "has s h l" "l \<notin> set (own s h)" using pc D(6) by (auto simp: has_def)
  have t: "lks t = (lks s)(l := (lks s l)\<lparr>locked := False\<rparr>)" "pcs t = (pcs s)(h := Run)"
      "own t = own s" "\<And>k. noff (cpus t k) = noff (cpus s k) - (if k = h then 1 else 0)"
      "\<And>k. sie (cpus t k) \<Longrightarrow> sie (cpus s k) \<or> k = h \<and> noff (cpus t h) = 0"
    using ok by (auto simp: release_end_def pop_off_def Let_def split: if_splits)
  have has: "has t k m \<longleftrightarrow> has s k m \<and> m \<noteq> l" for k m
    using pc l D(3) by (auto simp: has_def t)
  have other: "l \<notin> set (own s k)" for k using D(3) [of h l k] l by (auto simp: has_def)
  show ?thesis
    unfolding harts_inv_def has
  proof (intro conjI allI impI)
    show "noff (cpus t k) = int (length (own t k)) + busy (pcs t k)" for k
      using D(8) [of k] pc by (simp add: t busy_def)
    show "\<not> sie (cpus t k)" if "0 < noff (cpus t k)" for k
      using that t(4,5) [of k] D(9) [of k] by (auto split: if_splits)
  qed (use D l other in \<open>auto simp: t split: if_splits\<close>)
qed

lemma inv_step: "step s t \<Longrightarrow> harts_inv s \<Longrightarrow> harts_inv t"
proof (induction rule: step.induct)
  case (intr s h b)
  then show ?case by (auto simp: harts_inv_def has_def)
qed (blast intro: inv_acquire_begin inv_acquire_swap inv_acquire_end inv_release_begin inv_release_end)+

lemma inv_init: "init_harts s \<Longrightarrow> harts_inv s"
  by (auto simp: init_harts_def harts_inv_def has_def busy_def)

lemma inv_reach: "reach s \<Longrightarrow> harts_inv s"
  by (induction rule: reach.induct) (auto intro: inv_init inv_step)

section \<open>One hart's view\<close>

lemma holding_own: "harts_inv s \<Longrightarrow> holding h l s \<longleftrightarrow> l \<in> set (own s h)"
  by (auto simp: holding_def harts_inv_def has_def)

lemma holding_push_off [simp]: "holding h l (push_off k s) = holding h l s"
  by (simp add: holding_def)

lemma hart_acquire_own:
  assumes "harts_inv s" and "pcs s h = Run" and "l \<in> set (own s h)"
  shows "hart_acquire h l s = Panic ''acquire''"
  using assms by (simp add: hart_acquire_def acquire_begin_def holding_own)

lemma hart_acquire_free:
  assumes "harts_inv s" and "pcs s h = Run" and "\<And>k. \<not> has s k l"
  shows "\<exists>t. hart_acquire h l s = Ok () t \<and> own t h = l # own s h \<and> pcs t h = Run"
proof -
  have "\<not> locked (lks s l)" using harts_invD(2) [OF assms(1)] assms(3) by blast
  moreover have "\<not> holding h l s" using calculation by (simp add: holding_def)
  ultimately show ?thesis
    by (simp add: hart_acquire_def acquire_begin_def acquire_swap_def acquire_end_def)
qed

lemma hart_release_own:
  assumes inv: "harts_inv s" and pc: "pcs s h = Run" and l: "l \<in> set (own s h)"
  shows "\<exists>t. hart_release h l s = Ok () t \<and> own t h = remove1 l (own s h) \<and> pcs t h = Run"
proof -
  from inv l obtain t where t: "release_begin h l s = Ok () t"
      "own t h = remove1 l (own s h)" "cpus t = cpus s"
    by (simp add: release_begin_def holding_own)
  have "0 < noff (cpus s h)"
    using harts_invD(8) [OF inv, of h] pc l by (auto simp: busy_def length_pos_if_in_set)
  moreover have "\<not> sie (cpus s h)" using calculation harts_invD(9) [OF inv] by blast
  ultimately show ?thesis
    using t by (auto simp: hart_release_def release_end_def pop_off_def Let_def)
qed

section \<open>Properties\<close>

text \<open>A machine at boot, and the same machine after hart 0 has acquired lock 0.\<close>

definition two_harts :: "nat harts" where
  "two_harts = \<lparr>cpus = (\<lambda>_. \<lparr>noff = 0, intena = False, sie = True\<rparr>),
     lks = (\<lambda>_. \<lparr>locked = False, lk_cpu = None\<rparr>), pcs = (\<lambda>_. Run), own = (\<lambda>_. [])\<rparr>"

definition one_owner :: "nat harts" where
  "one_owner = acquire_end 0 0 (acquire_swap 0 0 ((push_off 0 two_harts)\<lparr>pcs := (\<lambda>_. Run)(0 := Spin 0)\<rparr>))"

lemma reach_two_harts: "reach two_harts"
  by (rule reach.init) (simp add: init_harts_def two_harts_def)

lemma reach_one_owner: "reach one_owner"
proof -
  let ?s1 = "(push_off 0 two_harts)\<lparr>pcs := (\<lambda>_. Run)(0 := Spin 0)\<rparr>"
  have "step two_harts ?s1"
    by (rule step.acq [of _ 0 0]) (simp_all add: two_harts_def acquire_begin_def holding_def)
  then have "reach ?s1" by (rule reach.step [OF reach_two_harts])
  moreover have "step ?s1 (acquire_swap 0 0 ?s1)" by (rule step.swap) simp
  ultimately have "reach (acquire_swap 0 0 ?s1)" by (rule reach.step)
  moreover have "step (acquire_swap 0 0 ?s1) one_owner"
    unfolding one_owner_def by (rule step.got) (simp add: acquire_swap_def two_harts_def)
  ultimately show ?thesis by (rule reach.step)
qed

lemma one_owner_simps [simp]:
  "own one_owner = (\<lambda>_. [])(0 := [0])" "pcs one_owner = (\<lambda>_. Run)"
  by (simp_all add: one_owner_def acquire_end_def acquire_swap_def two_harts_def)

text \<open>C34: in every state the harts can reach, however their steps interleave, at most one hart is
  between taking a lock's word and giving it back; \<open>holding\<close> answers exactly whether the calling
  hart owns the lock; and a hart that owns a lock has interrupts off and can release it without
  a panic.\<close>

theorem spinlock_mutual_exclusion:
  assumes "reach s"
  shows "(has s h l \<and> has s h' l \<longrightarrow> h = h')
    \<and> (holding h l s \<longleftrightarrow> l \<in> set (own s h))
    \<and> (l \<in> set (own s h) \<longrightarrow> \<not> sie (cpus s h) \<and>
         (pcs s h = Run \<longrightarrow> (\<exists>t. hart_release h l s = Ok () t)))"
proof -
  note inv = inv_reach [OF assms]
  have "0 < noff (cpus s h)" if "l \<in> set (own s h)"
    using harts_invD(8) [OF inv, of h] that length_pos_if_in_set [OF that]
    by (auto simp: busy_def)
  then show ?thesis
    using harts_invD(3) [OF inv, of h l h'] harts_invD(9) [OF inv, of h]
      holding_own [OF inv, of h l] hart_release_own [OF inv, of h l] by blast
qed

theorem spinlock_mutual_exclusion_witness:
  "holding 0 0 one_owner \<and> (\<exists>t. hart_release 0 0 one_owner = Ok () t)"
  using spinlock_mutual_exclusion [OF reach_one_owner, of 0 0 0] by simp

text \<open>C35: for a hart \<open>h\<close> whose locks are the list \<open>held\<close> of a kernel state, the functions of
  \<^verbatim>\<open>spinlock.c\<close> implement \<open>acquire\<close> and \<open>release\<close> of the one-thread model: they panic when those
  panic, and otherwise leave \<open>h\<close> owning the new \<open>held\<close>, as long as no other hart has the lock.\<close>

theorem spinlock_refines_held:
  assumes "reach s" and "pcs s h = Run" and "held k = own s h" and "\<forall>h'. h' \<noteq> h \<longrightarrow> \<not> has s h' l"
  shows "(case acquire l k of
            Panic e \<Rightarrow> hart_acquire h l s = Panic e
          | Ok _ k' \<Rightarrow> (\<exists>t. hart_acquire h l s = Ok () t \<and> own t h = held k' \<and> pcs t h = Run)
          | Block _ \<Rightarrow> False)
       \<and> (case release l k of
            Panic e \<Rightarrow> hart_release h l s = Panic e
          | Ok _ k' \<Rightarrow> (\<exists>t. hart_release h l s = Ok () t \<and> own t h = held k' \<and> pcs t h = Run)
          | Block _ \<Rightarrow> False)"
proof (cases "l \<in> set (own s h)")
  case True
  then show ?thesis
    using hart_acquire_own [OF inv_reach [OF assms(1)] assms(2)]
      hart_release_own [OF inv_reach [OF assms(1)] assms(2)] assms(3)
    by (simp add: acquire_def release_def)
next
  case False
  then have "\<not> has s k' l" for k'
    using assms(2,4) by (cases "k' = h") (auto simp: has_def)
  moreover have "hart_release h l s = Panic ''release''"
    using False holding_own [OF inv_reach [OF assms(1)]]
    by (simp add: hart_release_def release_begin_def)
  ultimately show ?thesis
    using False hart_acquire_free [OF inv_reach [OF assms(1)] assms(2), of l] assms(3)
    by (simp add: acquire_def release_def)
qed

theorem spinlock_refines_held_witness:
  "\<exists>t. hart_acquire 1 L_kmem ((\<lparr>cpus = (\<lambda>_. \<lparr>noff = 0, intena = False, sie = True\<rparr>),
     lks = (\<lambda>_. \<lparr>locked = False, lk_cpu = None\<rparr>), pcs = (\<lambda>_. Run), own = (\<lambda>_. [])\<rparr>)) = Ok () t
   \<and> own t 1 = [L_kmem]" (is "\<exists>t. hart_acquire 1 L_kmem ?s = _ \<and> _")
proof -
  have "reach ?s" by (rule reach.init) (simp add: init_harts_def)
  from spinlock_refines_held [OF this, of 1 "zero_state 1 (\<lambda>_. [])" L_kmem] show ?thesis
    by (auto simp: zero_state_def has_def)
qed

end
