(* ===== verification/Bio.thy ===== *)
theory Bio
  imports State
begin

text \<open>
  The buffer cache of \<^verbatim>\<open>kernel/bio.c\<close>. The buffers form a ring through \<open>prev\<close> and \<open>next\<close> with
  \<open>bcache.head\<close> (index \<open>NBUF\<close>) as its sentinel, and every operation updates these pointers in
  the order of the source. \<open>dll\<close> relates the ring to the list of its buffers, most recently used
  first. \<open>disk_rw\<close> is the transfer \<open>virtio_disk_rw\<close> performs: it copies one block between the
  buffer and the disk.

  \<open>cache H P s\<close> is the invariant of the cache for one thread: \<open>H\<close> are the buffers it has locked,
  \<open>P\<close> the blocks pinned for the log. \<open>blk s b\<close> is the content of block \<open>b\<close> as the file system
  sees it: the cached copy when there is one, the disk's otherwise.
\<close>

section \<open>Buffers and the disk\<close>

definition set_next :: "nat \<Rightarrow> nat \<Rightarrow> (nat \<Rightarrow> buf) \<Rightarrow> nat \<Rightarrow> buf" where
  "set_next i v bs = bs(i := (bs i)\<lparr>b_next := v\<rparr>)"

definition set_prev :: "nat \<Rightarrow> nat \<Rightarrow> (nat \<Rightarrow> buf) \<Rightarrow> nat \<Rightarrow> buf" where
  "set_prev i v bs = bs(i := (bs i)\<lparr>b_prev := v\<rparr>)"

abbreviation upd_buf :: "nat \<Rightarrow> (buf \<Rightarrow> buf) \<Rightarrow> kstate \<Rightarrow> kstate" where
  "upd_buf i f s \<equiv> s\<lparr>bufs := (bufs s)(i := f (bufs s i))\<rparr>"

text \<open>A caller changing the data of a buffer it has locked.\<close>

definition set_data :: "nat \<Rightarrow> byte list \<Rightarrow> kstate \<Rightarrow> kstate" where
  "set_data i d s = upd_buf i (\<lambda>x. x\<lparr>b_data := d\<rparr>) s"

definition disk_rw :: "nat \<Rightarrow> bool \<Rightarrow> kstate \<Rightarrow> kstate" where
  "disk_rw i wr s =
     (let b = bufs s i in
      if wr then s\<lparr>disk := (disk s)(b_blockno b := b_data b),
                   wtrace := wtrace s @ [(b_blockno b, b_data b)]\<rparr>
      else upd_buf i (\<lambda>b. b\<lparr>b_data := disk s (b_blockno b)\<rparr>) s)"

section \<open>kernel/bio.c\<close>

definition binit_one :: "nat \<Rightarrow> kstate \<Rightarrow> kstate" where
  "binit_one b s =
     (let s = s\<lparr>bufs := set_next b (b_next (bufs s NBUF)) (bufs s)\<rparr>;
          s = s\<lparr>bufs := set_prev b NBUF (bufs s)\<rparr>;
          s = initsleeplock (SLbuf b) s;
          s = s\<lparr>bufs := set_prev (b_next (bufs s NBUF)) b (bufs s)\<rparr> in
      s\<lparr>bufs := set_next NBUF b (bufs s)\<rparr>)"

definition binit :: "kstate \<Rightarrow> kstate" where
  "binit s =
     (let s = s\<lparr>bufs := set_prev NBUF NBUF (bufs s)\<rparr>;
          s = s\<lparr>bufs := set_next NBUF NBUF (bufs s)\<rparr> in
      fold binit_one [0..<NBUF] s)"

text \<open>The two loops of \<open>bget\<close>, with a bound on their turns; \<open>None\<close> when it is used up, which a
  ring of \<open>NBUF\<close> buffers never does.\<close>

primrec find_cached :: "nat \<Rightarrow> (nat \<Rightarrow> buf) \<Rightarrow> u32 \<Rightarrow> u32 \<Rightarrow> nat \<Rightarrow> nat option option" where
  "find_cached 0 bs dev blockno b = None"
| "find_cached (Suc k) bs dev blockno b =
     (if b = NBUF then Some None
      else if b_dev (bs b) = dev \<and> b_blockno (bs b) = blockno then Some (Some b)
      else find_cached k bs dev blockno (b_next (bs b)))"

primrec find_unused :: "nat \<Rightarrow> (nat \<Rightarrow> buf) \<Rightarrow> nat \<Rightarrow> nat option option" where
  "find_unused 0 bs b = None"
| "find_unused (Suc k) bs b =
     (if b = NBUF then Some None
      else if b_refcnt (bs b) = 0 then Some (Some b)
      else find_unused k bs (b_prev (bs b)))"

definition bget :: "u32 \<Rightarrow> u32 \<Rightarrow> kstate \<Rightarrow> nat kres" where
  "bget dev blockno s =
     bind (acquire L_bcache s) (\<lambda>_ s.
     case find_cached (Suc NBUF) (bufs s) dev blockno (b_next (bufs s NBUF)) of
       None \<Rightarrow> Block s
     | Some (Some b) \<Rightarrow>
         bind (release L_bcache (upd_buf b (\<lambda>x. x\<lparr>b_refcnt := b_refcnt x + 1\<rparr>) s)) (\<lambda>_ s.
         bind (acquiresleep (SLbuf b) s) (\<lambda>_ s.
         Ok b s))
     | Some None \<Rightarrow>
         (case find_unused (Suc NBUF) (bufs s) (b_prev (bufs s NBUF)) of
            None \<Rightarrow> Block s
          | Some (Some b) \<Rightarrow>
              bind (release L_bcache (upd_buf b (\<lambda>x. x\<lparr>b_dev := dev, b_blockno := blockno,
                      b_valid := False, b_refcnt := 1\<rparr>) s)) (\<lambda>_ s.
              bind (acquiresleep (SLbuf b) s) (\<lambda>_ s.
              Ok b s))
          | Some None \<Rightarrow> Panic ''bget: no buffers''))"

definition bread :: "u32 \<Rightarrow> u32 \<Rightarrow> kstate \<Rightarrow> nat kres" where
  "bread dev blockno s =
     bind (bget dev blockno s) (\<lambda>b s.
     Ok b (if \<not> b_valid (bufs s b)
           then upd_buf b (\<lambda>x. x\<lparr>b_valid := True\<rparr>) (disk_rw b False s) else s))"

definition bwrite :: "nat \<Rightarrow> kstate \<Rightarrow> unit kres" where
  "bwrite b s =
     bind (holdingsleep (SLbuf b) s) (\<lambda>h s.
     if \<not> h then Panic ''bwrite'' else Ok () (disk_rw b True s))"

definition brelse :: "nat \<Rightarrow> kstate \<Rightarrow> unit kres" where
  "brelse b s =
     bind (holdingsleep (SLbuf b) s) (\<lambda>h s.
     if \<not> h then Panic ''brelse'' else
     bind (releasesleep (SLbuf b) s) (\<lambda>_ s.
     bind (acquire L_bcache s) (\<lambda>_ s.
     let s = upd_buf b (\<lambda>x. x\<lparr>b_refcnt := b_refcnt x - 1\<rparr>) s;
         s = (if b_refcnt (bufs s b) = 0 then
                let s = s\<lparr>bufs := set_prev (b_next (bufs s b)) (b_prev (bufs s b)) (bufs s)\<rparr>;
                    s = s\<lparr>bufs := set_next (b_prev (bufs s b)) (b_next (bufs s b)) (bufs s)\<rparr>;
                    s = s\<lparr>bufs := set_next b (b_next (bufs s NBUF)) (bufs s)\<rparr>;
                    s = s\<lparr>bufs := set_prev b NBUF (bufs s)\<rparr>;
                    s = s\<lparr>bufs := set_prev (b_next (bufs s NBUF)) b (bufs s)\<rparr> in
                s\<lparr>bufs := set_next NBUF b (bufs s)\<rparr>
              else s) in
     release L_bcache s)))"

definition bpin :: "nat \<Rightarrow> kstate \<Rightarrow> unit kres" where
  "bpin b s =
     bind (acquire L_bcache s) (\<lambda>_ s.
     release L_bcache (upd_buf b (\<lambda>x. x\<lparr>b_refcnt := b_refcnt x + 1\<rparr>) s))"

definition bunpin :: "nat \<Rightarrow> kstate \<Rightarrow> unit kres" where
  "bunpin b s =
     bind (acquire L_bcache s) (\<lambda>_ s.
     release L_bcache (upd_buf b (\<lambda>x. x\<lparr>b_refcnt := b_refcnt x - 1\<rparr>) s))"

section \<open>The ring of buffers\<close>

text \<open>\<open>chain f a xs z\<close>: following \<open>f\<close> from \<open>a\<close> visits \<open>xs\<close> and then reaches \<open>z\<close>.\<close>

primrec chain :: "(nat \<Rightarrow> nat) \<Rightarrow> nat \<Rightarrow> nat list \<Rightarrow> nat \<Rightarrow> bool" where
  "chain f a [] z \<longleftrightarrow> f a = z"
| "chain f a (x # xs) z \<longleftrightarrow> f a = x \<and> chain f x xs z"

definition dll :: "(nat \<Rightarrow> buf) \<Rightarrow> nat list \<Rightarrow> bool" where
  "dll bs xs \<longleftrightarrow> chain (\<lambda>i. b_next (bs i)) NBUF xs NBUF
     \<and> chain (\<lambda>i. b_prev (bs i)) NBUF (rev xs) NBUF \<and> distinct (NBUF # xs)"

lemma set_next_simps [simp]:
  "b_next (set_next i v bs j) = (if j = i then v else b_next (bs j))"
  "b_prev (set_next i v bs j) = b_prev (bs j)" "b_valid (set_next i v bs j) = b_valid (bs j)"
  "b_dev (set_next i v bs j) = b_dev (bs j)" "b_blockno (set_next i v bs j) = b_blockno (bs j)"
  "b_lock (set_next i v bs j) = b_lock (bs j)" "b_refcnt (set_next i v bs j) = b_refcnt (bs j)"
  "b_data (set_next i v bs j) = b_data (bs j)"
  by (simp_all add: set_next_def)

lemma set_prev_simps [simp]:
  "b_prev (set_prev i v bs j) = (if j = i then v else b_prev (bs j))"
  "b_next (set_prev i v bs j) = b_next (bs j)" "b_valid (set_prev i v bs j) = b_valid (bs j)"
  "b_dev (set_prev i v bs j) = b_dev (bs j)" "b_blockno (set_prev i v bs j) = b_blockno (bs j)"
  "b_lock (set_prev i v bs j) = b_lock (bs j)" "b_refcnt (set_prev i v bs j) = b_refcnt (bs j)"
  "b_data (set_prev i v bs j) = b_data (bs j)"
  by (simp_all add: set_prev_def)

lemma path_append: "chain f a (xs @ y # ys) z \<longleftrightarrow> chain f a xs y \<and> chain f y ys z"
  by (induction xs arbitrary: a) auto

lemma path_cong: "(\<And>i. i \<in> set (a # xs) \<Longrightarrow> f i = g i) \<Longrightarrow> chain f a xs z = chain g a xs z"
  by (induction xs arbitrary: a) auto

lemma path_fun_upd [simp]: "c \<notin> set (a # xs) \<Longrightarrow> chain (f(c := v)) a xs z = chain f a xs z"
  by (rule path_cong) auto

lemma path_last: "chain f a xs z \<Longrightarrow> f (last (a # xs)) = z"
  by (induction xs arbitrary: a) auto

lemma path_hd: "chain f a xs z \<Longrightarrow> f a = hd (xs @ [z])"
  by (cases xs) auto

lemma path_unlink:
  "chain f a (ys @ b # zs) z \<Longrightarrow> distinct (a # ys @ b # zs) \<Longrightarrow>
   chain (f(last (a # ys) := f b)) a (ys @ zs) z"
proof (induction ys arbitrary: a)
  case Nil
  then show ?case by (cases zs) auto
next
  case (Cons y ys)
  have "last (y # ys) \<noteq> a" using Cons.prems(2) last_in_set [of "y # ys"] by auto
  with Cons show ?case by auto
qed

lemma path_snoc:
  "chain f a ws z \<Longrightarrow> distinct (a # ws) \<Longrightarrow> b \<notin> set (a # ws) \<Longrightarrow>
   chain (f(b := z, last (a # ws) := b)) a (ws @ [b]) z"
proof (induction ws arbitrary: a)
  case (Cons w ws)
  have "last (w # ws) \<noteq> a" using Cons.prems(2) last_in_set [of "w # ws"] by auto
  with Cons show ?case by auto
qed auto

lemma link_funs:
  "(\<lambda>i. b_next (set_next p v bs i)) = (\<lambda>i. b_next (bs i))(p := v)"
  "(\<lambda>i. b_prev (set_next p v bs i)) = (\<lambda>i. b_prev (bs i))"
  "(\<lambda>i. b_prev (set_prev p v bs i)) = (\<lambda>i. b_prev (bs i))(p := v)"
  "(\<lambda>i. b_next (set_prev p v bs i)) = (\<lambda>i. b_next (bs i))"
  by (auto simp: fun_eq_iff)

text \<open>Taking a buffer out of the ring, and putting one at its front.\<close>

lemma dll_unlink:
  assumes "dll bs (ys @ b # zs)"
  defines "p \<equiv> b_prev (bs b)" and "n \<equiv> b_next (bs b)"
  shows "dll (set_next p n (set_prev n p bs)) (ys @ zs)" and "p \<noteq> b" and "n \<noteq> b"
proof -
  have nx: "chain (\<lambda>i. b_next (bs i)) NBUF (ys @ b # zs) NBUF"
    and pv: "chain (\<lambda>i. b_prev (bs i)) NBUF (rev zs @ b # rev ys) NBUF"
    and dist: "distinct (NBUF # ys @ b # zs)" "distinct (NBUF # rev zs @ b # rev ys)"
    using assms(1) by (auto simp: dll_def)
  have n: "n = last (NBUF # rev zs)"
    using nx path_hd [of _ b zs NBUF] by (cases zs) (auto simp: path_append n_def)
  have p: "p = last (NBUF # ys)"
    using pv path_hd [of _ b "rev ys" NBUF] by (cases ys rule: rev_cases) (auto simp: path_append p_def)
  show "p \<noteq> b" using dist(1) last_in_set [of "NBUF # ys"] by (auto simp: p)
  show "n \<noteq> b" using dist(2) last_in_set [of "NBUF # rev zs"] by (auto simp: n)
  show "dll (set_next p n (set_prev n p bs)) (ys @ zs)"
    unfolding dll_def link_funs
    using path_unlink [OF nx dist(1), folded p n_def] path_unlink [OF pv dist(2), folded n p_def] dist(1)
    by auto
qed

lemma dll_push:
  assumes "dll bs xs" and "b \<notin> set xs" and "b \<noteq> NBUF"
  defines "n \<equiv> b_next (bs NBUF)"
  shows "dll (set_next NBUF b (set_prev n b (set_prev b NBUF (set_next b n bs)))) (b # xs)"
proof -
  have nx: "chain (\<lambda>i. b_next (bs i)) NBUF xs NBUF"
    and pv: "chain (\<lambda>i. b_prev (bs i)) NBUF (rev xs) NBUF" and dist: "distinct (NBUF # xs)"
    using assms(1) by (auto simp: dll_def)
  have n: "n = last (NBUF # rev xs)"
    using path_hd [OF nx] by (cases xs) (auto simp: n_def)
  have "chain ((\<lambda>i. b_next (bs i))(b := n, NBUF := b)) NBUF (b # xs) NBUF"
    using nx assms(2,3) dist by (cases xs) (auto simp: n_def)
  moreover have "chain ((\<lambda>i. b_prev (bs i))(b := NBUF, n := b)) NBUF (rev (b # xs)) NBUF"
    using path_snoc [OF pv, of b, folded n] dist assms(2,3) by simp
  ultimately show ?thesis
    unfolding dll_def link_funs using dist assms(2,3) by simp
qed

lemma find_cached_path:
  "chain (\<lambda>i. b_next (bs i)) a xs NBUF \<Longrightarrow> NBUF \<notin> set xs \<Longrightarrow> length xs < k \<Longrightarrow>
   find_cached k bs dev bno (b_next (bs a)) =
     Some (List.find (\<lambda>i. b_dev (bs i) = dev \<and> b_blockno (bs i) = bno) xs)"
proof (induction xs arbitrary: a k)
  case Nil
  then show ?case by (cases k) auto
next
  case (Cons x xs)
  then show ?case by (cases k) auto
qed

lemma find_unused_path:
  "chain (\<lambda>i. b_prev (bs i)) a xs NBUF \<Longrightarrow> NBUF \<notin> set xs \<Longrightarrow> length xs < k \<Longrightarrow>
   find_unused k bs (b_prev (bs a)) = Some (List.find (\<lambda>i. b_refcnt (bs i) = 0) xs)"
proof (induction xs arbitrary: a k)
  case Nil
  then show ?case by (cases k) auto
next
  case (Cons x xs)
  then show ?case by (cases k) auto
qed

definition ring :: "(nat \<Rightarrow> buf) \<Rightarrow> nat list \<Rightarrow> bool" where
  "ring bs xs \<longleftrightarrow> dll bs xs \<and> set xs = {..<NBUF}"

lemma ring_length: "ring bs xs \<Longrightarrow> length xs = NBUF"
  unfolding ring_def dll_def using distinct_card [of xs] by auto

lemma ring_finds:
  assumes "ring bs xs"
  shows "find_cached (Suc NBUF) bs dev bno (b_next (bs NBUF)) =
      Some (List.find (\<lambda>i. b_dev (bs i) = dev \<and> b_blockno (bs i) = bno) xs)"
    and "find_unused (Suc NBUF) bs (b_prev (bs NBUF)) =
      Some (List.find (\<lambda>i. b_refcnt (bs i) = 0) (rev xs))"
proof -
  show "find_cached (Suc NBUF) bs dev bno (b_next (bs NBUF)) =
      Some (List.find (\<lambda>i. b_dev (bs i) = dev \<and> b_blockno (bs i) = bno) xs)"
    by (rule find_cached_path) (use assms ring_length [OF assms] in \<open>auto simp: ring_def dll_def\<close>)
  show "find_unused (Suc NBUF) bs (b_prev (bs NBUF)) =
      Some (List.find (\<lambda>i. b_refcnt (bs i) = 0) (rev xs))"
    by (rule find_unused_path) (use assms ring_length [OF assms] in \<open>auto simp: ring_def dll_def\<close>)
qed

section \<open>The invariant of the cache\<close>

definition buf_ok :: "nat set \<Rightarrow> u32 set \<Rightarrow> int \<Rightarrow> (u32 \<Rightarrow> byte list) \<Rightarrow> nat \<Rightarrow> buf \<Rightarrow> bool" where
  "buf_ok H P pid d i b \<longleftrightarrow>
     length (b_data b) = BSIZE \<and> (sl_locked (b_lock b) \<longleftrightarrow> i \<in> H)
     \<and> (i \<in> H \<longrightarrow> sl_pid (b_lock b) = pid \<and> b_valid b)
     \<and> (b_valid b \<longleftrightarrow> b_dev b = ROOTDEV) \<and> (b_dev b = 0 \<or> b_dev b = ROOTDEV)
     \<and> b_refcnt b = of_bool (i \<in> H) + of_bool (b_valid b \<and> b_blockno b \<in> P)
     \<and> (b_valid b \<and> i \<notin> H \<and> b_blockno b \<notin> P \<longrightarrow> b_data b = d (b_blockno b))"

definition cur_pid :: "kstate \<Rightarrow> int" where
  "cur_pid s = (case cur s of None \<Rightarrow> 0 | Some p \<Rightarrow> p_pid (procs s p))"

lemma cur_pid_cong: "cur t = cur s \<Longrightarrow> procs t = procs s \<Longrightarrow> cur_pid t = cur_pid s"
  by (simp add: cur_pid_def split: option.split)

lemma cur_pid_simps [simp]:
  "cur_pid (s\<lparr>bufs := bs\<rparr>) = cur_pid s" "cur_pid (s\<lparr>held := h\<rparr>) = cur_pid s"
  "cur_pid (s\<lparr>disk := d\<rparr>) = cur_pid s" "cur_pid (s\<lparr>wtrace := w\<rparr>) = cur_pid s"
  "cur_pid (s\<lparr>the_log := l\<rparr>) = cur_pid s" "cur_pid (s\<lparr>inodes := is\<rparr>) = cur_pid s"
  "cur_pid (s\<lparr>msgs := ms\<rparr>) = cur_pid s" "cur_pid (s\<lparr>sb := x\<rparr>) = cur_pid s"
  "cur_pid (s\<lparr>procs := woken ch n (cur s) (procs s)\<rparr>) = cur_pid s"
  by (auto simp: cur_pid_def split: option.split)

definition cache_locks_free :: "kstate \<Rightarrow> bool" where
  "cache_locks_free s \<longleftrightarrow>
     L_bcache \<notin> set (held s) \<and> (\<forall>i. L_sl (SLbuf i) \<notin> set (held s)) \<and> no_plocks s"

definition cache :: "nat set \<Rightarrow> u32 set \<Rightarrow> kstate \<Rightarrow> bool" where
  "cache H P s \<longleftrightarrow>
     (\<exists>xs. ring (bufs s) xs) \<and> H \<subseteq> {..<NBUF} \<and> finite P \<and> cur s \<noteq> None \<and> cache_locks_free s
     \<and> (\<forall>b. length (disk s b) = BSIZE)
     \<and> (\<forall>i < NBUF. buf_ok H P (cur_pid s) (disk s) i (bufs s i))
     \<and> (\<forall>i < NBUF. \<forall>j < NBUF. b_valid (bufs s i) \<and> b_valid (bufs s j)
          \<and> b_blockno (bufs s i) = b_blockno (bufs s j) \<longrightarrow> i = j)
     \<and> (\<forall>b \<in> P. \<exists>i < NBUF. b_valid (bufs s i) \<and> b_blockno (bufs s i) = b)"

definition blk :: "kstate \<Rightarrow> u32 \<Rightarrow> byte list" where
  "blk s b =
     (case List.find (\<lambda>i. b_valid (bufs s i) \<and> b_blockno (bufs s i) = b) [0..<NBUF] of
        Some i \<Rightarrow> b_data (bufs s i) | None \<Rightarrow> disk s b)"

lemma blk_cong:
  "bufs t = bufs s \<Longrightarrow> disk t = disk s \<Longrightarrow> blk t = blk s"
  by (auto simp: blk_def fun_eq_iff split: option.split)

lemma blk_frame [simp, frame_simps]:
  "blk (s\<lparr>procs := ps\<rparr>) = blk s" "blk (s\<lparr>held := h\<rparr>) = blk s" "blk (s\<lparr>the_log := l\<rparr>) = blk s"
  "blk (s\<lparr>inodes := is\<rparr>) = blk s" "blk (s\<lparr>msgs := ms\<rparr>) = blk s" "blk (s\<lparr>sb := x\<rparr>) = blk s"
  by (rule blk_cong; simp)+

lemma cache_cong_state:
  "bufs t = bufs s \<Longrightarrow> disk t = disk s \<Longrightarrow> cur t = cur s \<Longrightarrow> cur_pid t = cur_pid s \<Longrightarrow>
   cache_locks_free t = cache_locks_free s \<Longrightarrow> cache H P t = cache H P s"
  by (simp add: cache_def)

lemma cache_frame [simp, frame_simps]:
  "cache H P (s\<lparr>the_log := l\<rparr>) = cache H P s" "cache H P (s\<lparr>inodes := is\<rparr>) = cache H P s"
  "cache H P (s\<lparr>msgs := ms\<rparr>) = cache H P s" "cache H P (s\<lparr>sb := x\<rparr>) = cache H P s"
  "cache H P (s\<lparr>procs := woken ch n (cur s) (procs s)\<rparr>) = cache H P s"
  by (rule cache_cong_state; simp add: cache_locks_free_def no_plocks_def)+

lemma cacheD:
  assumes "cache H P s"
  shows "\<exists>xs. ring (bufs s) xs" and "i \<in> H \<Longrightarrow> i < NBUF" and "finite H" and "finite P"
    and "\<exists>p. cur s = Some p" and "cache_locks_free s" and "length (disk s b) = BSIZE"
    and "i < NBUF \<Longrightarrow> buf_ok H P (cur_pid s) (disk s) i (bufs s i)"
    and "i < NBUF \<Longrightarrow> j < NBUF \<Longrightarrow> b_valid (bufs s i) \<Longrightarrow> b_valid (bufs s j) \<Longrightarrow>
      b_blockno (bufs s i) = b_blockno (bufs s j) \<Longrightarrow> i = j"
    and "b \<in> P \<Longrightarrow> \<exists>i < NBUF. b_valid (bufs s i) \<and> b_blockno (bufs s i) = b"
  using assms by (auto simp: cache_def intro: finite_subset)

lemma cache_heldD:
  assumes "cache H P s" and "i \<in> H"
  shows "i < NBUF" "b_valid (bufs s i)" "sl_locked (b_lock (bufs s i))"
    "sl_pid (b_lock (bufs s i)) = cur_pid s" "b_dev (bufs s i) = ROOTDEV"
    "length (b_data (bufs s i)) = BSIZE"
  using cacheD(2) [OF assms] cacheD(8) [OF assms(1), of i] assms(2) by (auto simp: buf_ok_def)

lemma blk_valid:
  assumes "cache H P s" and "i < NBUF" and "b_valid (bufs s i)"
  shows "blk s (b_blockno (bufs s i)) = b_data (bufs s i)"
proof -
  let ?P = "\<lambda>j. b_valid (bufs s j) \<and> b_blockno (bufs s j) = b_blockno (bufs s i)"
  obtain j where j: "List.find ?P [0..<NBUF] = Some j"
    using assms(2,3) by (cases "List.find ?P [0..<NBUF]") (auto simp: find_None_iff)
  then have "j < NBUF" "?P j" by (auto simp: find_Some_iff)
  with cacheD(9) [OF assms(1), of j i] assms have "j = i" by auto
  with j show ?thesis by (simp add: blk_def)
qed

lemma blk_not_cached:
  "(\<And>i. i < NBUF \<Longrightarrow> b_valid (bufs s i) \<Longrightarrow> b_blockno (bufs s i) \<noteq> b) \<Longrightarrow> blk s b = disk s b"
  by (fastforce simp: blk_def split: option.split dest!: find_Some_iff [THEN iffD1])

lemma ring_upd:
  assumes "b_next nb = b_next (bs i)" and "b_prev nb = b_prev (bs i)"
  shows "ring (bs(i := nb)) xs = ring bs xs"
proof -
  have "(\<lambda>j. b_next ((bs(i := nb)) j)) = (\<lambda>j. b_next (bs j))"
    and "(\<lambda>j. b_prev ((bs(i := nb)) j)) = (\<lambda>j. b_prev (bs j))"
    using assms by (auto simp: fun_eq_iff)
  then show ?thesis by (simp only: ring_def dll_def)
qed

text \<open>Replacing one buffer of a cache.\<close>

lemma cache_upd:
  assumes c: "cache H P s" and i: "i < NBUF"
    and links: "b_next nb = b_next (bufs s i)" "b_prev nb = b_prev (bufs s i)"
    and ok: "buf_ok H' P' (cur_pid s) (disk s) i nb"
    and H': "H' \<subseteq> {..<NBUF}" "\<And>j. j \<noteq> i \<Longrightarrow> j \<in> H' \<longleftrightarrow> j \<in> H"
    and P': "finite P'" "\<And>b. b \<noteq> b_blockno nb \<Longrightarrow> b \<in> P' \<longleftrightarrow> b \<in> P"
    and uniq: "\<And>j. j < NBUF \<Longrightarrow> j \<noteq> i \<Longrightarrow> b_valid (bufs s j) \<Longrightarrow> b_blockno (bufs s j) \<noteq> b_blockno nb"
    and nb: "b_valid nb"
    and pin: "b_valid (bufs s i) \<Longrightarrow> b_blockno (bufs s i) \<in> P \<Longrightarrow> b_blockno (bufs s i) = b_blockno nb"
  shows "cache H' P' (s\<lparr>bufs := (bufs s)(i := nb)\<rparr>)" (is "cache H' P' ?t")
proof -
  have "\<exists>xs. ring (bufs ?t) xs"
    using cacheD(1) [OF c] links by (simp add: ring_upd)
  moreover have "buf_ok H' P' (cur_pid ?t) (disk ?t) j (bufs ?t j)" if j: "j < NBUF" for j
  proof (cases "j = i")
    case True
    with ok show ?thesis by simp
  next
    case False
    have "b_valid (bufs s j) \<Longrightarrow> (b_blockno (bufs s j) \<in> P' \<longleftrightarrow> b_blockno (bufs s j) \<in> P)"
      using uniq [OF j False] P'(2) by blast
    with False cacheD(8) [OF c j] H'(2) [OF False] show ?thesis
      by (auto simp: buf_ok_def)
  qed
  moreover have "\<exists>k < NBUF. b_valid (bufs ?t k) \<and> b_blockno (bufs ?t k) = b" if "b \<in> P'" for b
  proof (cases "b = b_blockno nb")
    case True
    with i nb show ?thesis by auto
  next
    case False
    then have "b \<in> P" using P'(2) that by blast
    then obtain k where k: "k < NBUF" "b_valid (bufs s k)" "b_blockno (bufs s k) = b"
      using cacheD(10) [OF c, of b] by blast
    moreover have "k \<noteq> i" using k False pin \<open>b \<in> P\<close> by blast
    ultimately show ?thesis by auto
  qed
  moreover have "j = k" if "j < NBUF" "k < NBUF" "b_valid (bufs ?t j)" "b_valid (bufs ?t k)"
      "b_blockno (bufs ?t j) = b_blockno (bufs ?t k)" for j k
  proof (cases "j = i \<or> k = i")
    case True
    with that uniq [of j] uniq [of k] show ?thesis by (auto split: if_splits)
  next
    case False
    with that cacheD(9) [OF c, of j k] show ?thesis by auto
  qed
  moreover have "cache_locks_free ?t"
    using cacheD(6) [OF c] by (simp add: cache_locks_free_def no_plocks_def)
  ultimately show ?thesis
    using cacheD(5,7) [OF c] H'(1) P'(1) unfolding cache_def by simp
qed

text \<open>A buffer is free to be recycled as long as fewer than \<open>NBUF\<close> are locked or pinned.\<close>

lemma unused_exists:
  assumes c: "cache H P s" and "card H + card P < NBUF"
  shows "\<exists>i < NBUF. b_refcnt (bufs s i) = 0"
proof (rule ccontr)
  assume "\<not> ?thesis"
  then have all: "b_refcnt (bufs s i) \<noteq> 0" if "i < NBUF" for i using that by blast
  let ?V = "{i. i < NBUF \<and> b_valid (bufs s i) \<and> b_blockno (bufs s i) \<in> P}"
  have "inj_on (\<lambda>i. b_blockno (bufs s i)) ?V"
    using cacheD(9) [OF c] by (auto simp: inj_on_def)
  then have "card ?V \<le> card P"
    using card_inj_on_le [of _ ?V P] cacheD(4) [OF c] by auto
  moreover have "{..<NBUF} \<subseteq> H \<union> ?V"
  proof
    fix i assume "i \<in> {..<NBUF}"
    then have "i < NBUF" by simp
    with all [of i] cacheD(8) [OF c, of i] show "i \<in> H \<union> ?V" by (auto simp: buf_ok_def)
  qed
  then have "NBUF \<le> card (H \<union> ?V)"
    using card_mono [of "H \<union> ?V" "{..<NBUF}"] cacheD(3) [OF c] by simp
  moreover have "card (H \<union> ?V) \<le> card H + card ?V" by (rule card_Un_le)
  ultimately show False using assms(2) by simp
qed

lemma bread_hit:
  assumes c: "cache H P s" and i: "i < NBUF" "b_valid (bufs s i)" "i \<notin> H"
    and ring: "ring (bufs s) xs" and b: "b = b_blockno (bufs s i)"
  shows "bread ROOTDEV b s = Ok i (upd_buf i (\<lambda>x. x\<lparr>b_refcnt := b_refcnt x + 1,
      b_lock := \<lparr>sl_locked = True, sl_pid = cur_pid s\<rparr>\<rparr>) s)"
proof -
  have dev: "b_dev (bufs s i) = ROOTDEV" and free: "\<not> sl_locked (b_lock (bufs s i))"
    using cacheD(8) [OF c i(1)] i by (auto simp: buf_ok_def)
  have "List.find (\<lambda>j. b_dev (bufs s j) = ROOTDEV \<and> b_blockno (bufs s j) = b) xs = Some i"
  proof -
    obtain j where j: "List.find (\<lambda>j. b_dev (bufs s j) = ROOTDEV \<and> b_blockno (bufs s j) = b) xs = Some j"
      using i dev ring b by (cases "List.find (\<lambda>j. b_dev (bufs s j) = ROOTDEV \<and> b_blockno (bufs s j) = b) xs")
        (auto simp: find_None_iff ring_def)
    then have "j < NBUF" "b_dev (bufs s j) = ROOTDEV" "b_blockno (bufs s j) = b"
      using ring find_SomeD [OF j] by (auto simp: ring_def)
    moreover have "b_valid (bufs s j)"
      using calculation cacheD(8) [OF c, of j] by (auto simp: buf_ok_def)
    ultimately have "j = i" using cacheD(9) [OF c, of j i] i b by auto
    with j show ?thesis by simp
  qed
  moreover obtain p where "cur s = Some p" using cacheD(5) [OF c] by auto
  ultimately show ?thesis
    using cacheD(6) [OF c] ring_finds(1) [OF ring, of ROOTDEV b] free i(2)
    by (simp add: bread_def bget_def cache_locks_free_def acquiresleep_Ok cur_pid_def fun_upd_twist)
qed

lemma blk_upd:
  assumes c: "cache H P s" and t: "cache H' P' (s\<lparr>bufs := (bufs s)(i := nb)\<rparr>)" (is "cache _ _ ?t")
    and i: "i < NBUF" "b_valid nb"
    and clean: "b_valid (bufs s i) \<Longrightarrow> b_blockno (bufs s i) \<noteq> b_blockno nb \<Longrightarrow>
      b_data (bufs s i) = disk s (b_blockno (bufs s i))"
  shows "blk ?t = (blk s)(b_blockno nb := b_data nb)"
proof
  fix b
  show "blk ?t b = ((blk s)(b_blockno nb := b_data nb)) b"
  proof (cases "b = b_blockno nb")
    case True
    then show ?thesis using blk_valid [OF t i(1)] i by simp
  next
    case False
    show ?thesis
    proof (cases "\<exists>j < NBUF. j \<noteq> i \<and> b_valid (bufs s j) \<and> b_blockno (bufs s j) = b")
      case True
      then show ?thesis using False blk_valid [OF c] blk_valid [OF t] by fastforce
    next
      case none: False
      then have "blk ?t b = disk s b" using False by (subst blk_not_cached) auto
      moreover have "blk s b = disk s b"
      proof (cases "b_valid (bufs s i) \<and> b_blockno (bufs s i) = b")
        case True
        then show ?thesis using blk_valid [OF c i(1)] clean False by auto
      next
        case False
        then show ?thesis using none by (intro blk_not_cached) auto
      qed
      ultimately show ?thesis using False by simp
    qed
  qed
qed

lemma bread_miss:
  assumes c: "cache H P s" and ring: "ring (bufs s) xs"
    and miss: "\<And>j. j < NBUF \<Longrightarrow> b_valid (bufs s j) \<Longrightarrow> b_blockno (bufs s j) \<noteq> b"
    and i: "List.find (\<lambda>i. b_refcnt (bufs s i) = 0) (rev xs) = Some i"
  shows "bread ROOTDEV b s = Ok i (upd_buf i (\<lambda>x. x\<lparr>b_dev := ROOTDEV, b_blockno := b, b_refcnt := 1,
      b_lock := \<lparr>sl_locked = True, sl_pid = cur_pid s\<rparr>, b_data := disk s b, b_valid := True\<rparr>) s)"
proof -
  have "i \<in> set xs" and ref: "b_refcnt (bufs s i) = 0"
    using find_SomeD [OF i] by auto
  then have "i < NBUF" using ring by (auto simp: ring_def)
  then have free: "\<not> sl_locked (b_lock (bufs s i))"
    using cacheD(8) [OF c] ref by (auto simp: buf_ok_def)
  have "List.find (\<lambda>j. b_dev (bufs s j) = ROOTDEV \<and> b_blockno (bufs s j) = b) xs = None"
  proof (rule find_None_iff [THEN iffD2], rule notI)
    assume "\<exists>j. j \<in> set xs \<and> b_dev (bufs s j) = ROOTDEV \<and> b_blockno (bufs s j) = b"
    then obtain j where j: "j < NBUF" "b_dev (bufs s j) = ROOTDEV" "b_blockno (bufs s j) = b"
      using ring by (auto simp: ring_def)
    with cacheD(8) [OF c j(1)] have "b_valid (bufs s j)" by (auto simp: buf_ok_def)
    with miss j show False by blast
  qed
  moreover obtain p where "cur s = Some p" using cacheD(5) [OF c] by auto
  ultimately show ?thesis
    using cacheD(6) [OF c] ring_finds [OF ring] free i
    by (simp add: bread_def bget_def disk_rw_def cache_locks_free_def acquiresleep_Ok cur_pid_def)
qed

lemma cache_hit:
  assumes c: "cache H P s" and i: "i < NBUF" "b_valid (bufs s i)" "i \<notin> H"
  shows "cache (insert i H) P (upd_buf i (\<lambda>x. x\<lparr>b_refcnt := b_refcnt x + 1,
      b_lock := \<lparr>sl_locked = True, sl_pid = cur_pid s\<rparr>\<rparr>) s)"
proof (rule cache_upd [OF c i(1)])
  show "b_blockno (bufs s j) \<noteq> b_blockno ((bufs s i)\<lparr>b_refcnt := b_refcnt (bufs s i) + 1,
      b_lock := \<lparr>sl_locked = True, sl_pid = cur_pid s\<rparr>\<rparr>)"
    if "j < NBUF" "j \<noteq> i" "b_valid (bufs s j)" for j
    using that cacheD(9) [OF c, of j i] i by auto
qed (use i cacheD(2,4) [OF c] cacheD(8) [OF c i(1)] in \<open>auto simp: buf_ok_def\<close>)

lemma cache_miss:
  assumes c: "cache H P s" and i: "i < NBUF" "b_refcnt (bufs s i) = 0"
    and miss: "\<And>j. j < NBUF \<Longrightarrow> b_valid (bufs s j) \<Longrightarrow> b_blockno (bufs s j) \<noteq> b"
  shows "cache (insert i H) P (upd_buf i (\<lambda>x. x\<lparr>b_dev := ROOTDEV, b_blockno := b, b_refcnt := 1,
      b_lock := \<lparr>sl_locked = True, sl_pid = cur_pid s\<rparr>, b_data := disk s b, b_valid := True\<rparr>) s)"
proof -
  have "b \<notin> P" using cacheD(10) [OF c, of b] miss by blast
  moreover have "i \<notin> H" "b_valid (bufs s i) \<Longrightarrow> b_blockno (bufs s i) \<notin> P"
    using cacheD(8) [OF c i(1)] i(2) by (auto simp: buf_ok_def)
  ultimately show ?thesis
    by (intro cache_upd [OF c i(1)])
      (use cacheD(2,4,7) [OF c] i miss in \<open>auto simp: buf_ok_def\<close>)
qed

section \<open>Behaviour of the operations\<close>

lemma bread_spec:
  assumes c: "cache H P s" and new: "\<And>j. j \<in> H \<Longrightarrow> b_blockno (bufs s j) \<noteq> b"
    and room: "b \<in> P \<or> card H + card P < NBUF"
  obtains i bs where "bread ROOTDEV b s = Ok i (s\<lparr>bufs := bs\<rparr>)" and "i \<notin> H"
    and "cache (insert i H) P (s\<lparr>bufs := bs\<rparr>)" and "b_blockno (bs i) = b"
    and "b_data (bs i) = blk s b" and "blk (s\<lparr>bufs := bs\<rparr>) = blk s"
    and "\<And>j. j \<noteq> i \<Longrightarrow> bs j = bufs s j"
proof -
  obtain xs where ring: "ring (bufs s) xs" using cacheD(1) [OF c] by auto
  show thesis
  proof (cases "\<exists>i < NBUF. b_valid (bufs s i) \<and> b_blockno (bufs s i) = b")
    case True
    then obtain i where i: "i < NBUF" "b_valid (bufs s i)" "b_blockno (bufs s i) = b" by auto
    have "i \<notin> H" using new i(3) by auto
    note hit = bread_hit [OF c i(1,2) \<open>i \<notin> H\<close> ring i(3) [symmetric]]
    note c' = cache_hit [OF c i(1,2) \<open>i \<notin> H\<close>]
    show thesis
      by (rule that [OF hit \<open>i \<notin> H\<close> c'])
        (use i blk_valid [OF c i(1,2)] blk_upd [OF c c' i(1)] in auto)
  next
    case False
    then have miss: "\<And>j. j < NBUF \<Longrightarrow> b_valid (bufs s j) \<Longrightarrow> b_blockno (bufs s j) \<noteq> b" by auto
    have "b \<notin> P" using cacheD(10) [OF c, of b] miss by blast
    with room unused_exists [OF c] obtain k where k: "k < NBUF" "b_refcnt (bufs s k) = 0" by auto
    then obtain i where find: "List.find (\<lambda>i. b_refcnt (bufs s i) = 0) (rev xs) = Some i"
      using ring by (cases "List.find (\<lambda>i. b_refcnt (bufs s i) = 0) (rev xs)")
        (auto simp: find_None_iff ring_def)
    from find_SomeD [OF this] have i: "i < NBUF" "b_refcnt (bufs s i) = 0"
      using ring by (auto simp: ring_def)
    have free: "i \<notin> H" "b_valid (bufs s i) \<Longrightarrow> b_data (bufs s i) = disk s (b_blockno (bufs s i))"
      using cacheD(8) [OF c i(1)] i(2) by (auto simp: buf_ok_def)
    note c' = cache_miss [OF c i miss]
    have "blk s b = disk s b" by (rule blk_not_cached) (rule miss)
    then show thesis
      by (intro that [OF bread_miss [OF c ring miss find] free(1) c'])
        (use free(2) blk_upd [OF c c' i(1)] in auto)
  qed
qed

text \<open>The caller may change the data of a buffer it has locked.\<close>

lemma cache_set_data:
  assumes c: "cache H P s" and i: "i \<in> H" and len: "length d = BSIZE"
  shows "cache H P (upd_buf i (\<lambda>x. x\<lparr>b_data := d\<rparr>) s)" (is ?cache)
    and "blk (upd_buf i (\<lambda>x. x\<lparr>b_data := d\<rparr>) s) = (blk s)(b_blockno (bufs s i) := d)"
proof -
  note h = cache_heldD [OF c i]
  show ?cache
    by (intro cache_upd [OF c h(1)])
      (use cacheD(2,4) [OF c] cacheD(8) [OF c h(1)] cacheD(9) [OF c _ h(1)] h i len in
        \<open>auto simp: buf_ok_def\<close>)
  from blk_upd [OF c this h(1)] h
  show "blk (upd_buf i (\<lambda>x. x\<lparr>b_data := d\<rparr>) s) = (blk s)(b_blockno (bufs s i) := d)" by auto
qed

lemma bwrite_spec:
  assumes c: "cache H P s" and i: "i \<in> H"
  defines "b \<equiv> b_blockno (bufs s i)" and "d \<equiv> b_data (bufs s i)"
  defines "s' \<equiv> s\<lparr>disk := (disk s)(b := d), wtrace := wtrace s @ [(b, d)]\<rparr>"
  shows "bwrite i s = Ok () s'" and "cache H P s'" and "blk s' = blk s"
proof -
  note h = cache_heldD [OF c i]
  obtain p where p: "cur s = Some p" using cacheD(5) [OF c] by auto
  show "bwrite i s = Ok () s'"
    using cacheD(6) [OF c] h p
    by (simp add: bwrite_def holdingsleep_Ok cache_locks_free_def disk_rw_def s'_def b_def d_def cur_pid_def
      Let_def)
  have keep: "b_valid (bufs s j) \<Longrightarrow> b_blockno (bufs s j) = b \<Longrightarrow> j = i" if "j < NBUF" for j
    using cacheD(9) [OF c that h(1)] h by (simp add: b_def)
  have "buf_ok H P (cur_pid s') (disk s') j (bufs s' j)" if "j < NBUF" for j
    using cacheD(8) [OF c that] keep [OF that] i by (auto simp: buf_ok_def s'_def)
  then show c': "cache H P s'"
    using c h(6) by (auto simp: cache_def s'_def d_def cache_locks_free_def no_plocks_def)
  show "blk s' = blk s"
  proof
    fix c0
    show "blk s' c0 = blk s c0"
    proof (cases "\<exists>j < NBUF. b_valid (bufs s j) \<and> b_blockno (bufs s j) = c0")
      case True
      then show ?thesis using blk_valid [OF c] blk_valid [OF c'] by (auto simp: s'_def)
    next
      case False
      then have "blk s c0 = disk s c0" and "c0 \<noteq> b"
        using h by (auto intro!: blk_not_cached simp: b_def)
      moreover have "blk s' c0 = disk s' c0"
        by (rule blk_not_cached) (use False in \<open>auto simp: s'_def\<close>)
      ultimately show ?thesis by (simp add: s'_def)
    qed
  qed
qed

text \<open>Two buffer tables with the same contents, linked differently.\<close>

definition same_contents :: "(nat \<Rightarrow> buf) \<Rightarrow> (nat \<Rightarrow> buf) \<Rightarrow> bool" where
  "same_contents bs bs' \<longleftrightarrow>
     (\<forall>j. b_valid (bs j) = b_valid (bs' j) \<and> b_dev (bs j) = b_dev (bs' j)
        \<and> b_blockno (bs j) = b_blockno (bs' j) \<and> b_lock (bs j) = b_lock (bs' j)
        \<and> b_refcnt (bs j) = b_refcnt (bs' j) \<and> b_data (bs j) = b_data (bs' j))"

lemma same_contentsD:
  assumes "same_contents bs bs'"
  shows "b_valid (bs j) = b_valid (bs' j)" "b_dev (bs j) = b_dev (bs' j)"
    "b_blockno (bs j) = b_blockno (bs' j)" "b_lock (bs j) = b_lock (bs' j)"
    "b_refcnt (bs j) = b_refcnt (bs' j)" "b_data (bs j) = b_data (bs' j)"
  using assms by (simp_all add: same_contents_def)

lemma same_contents_links [simp]:
  "same_contents (set_next i v bs) bs' = same_contents bs bs'"
  "same_contents (set_prev i v bs) bs' = same_contents bs bs'"
  by (simp_all add: same_contents_def)

lemma same_contents_refl [simp]: "same_contents bs bs"
  by (simp add: same_contents_def)

definition move_front :: "nat \<Rightarrow> (nat \<Rightarrow> buf) \<Rightarrow> nat \<Rightarrow> buf" where
  "move_front b bs =
     (let bs = set_prev (b_next (bs b)) (b_prev (bs b)) bs;
          bs = set_next (b_prev (bs b)) (b_next (bs b)) bs;
          bs = set_next b (b_next (bs NBUF)) bs;
          bs = set_prev b NBUF bs;
          bs = set_prev (b_next (bs NBUF)) b bs in
      set_next NBUF b bs)"

lemma move_front_ring:
  assumes "ring bs xs" and "b < NBUF"
  shows "ring (move_front b bs) (b # remove1 b xs)" and "same_contents (move_front b bs) bs"
proof -
  obtain ys zs where xs: "xs = ys @ b # zs" and dist: "b \<notin> set ys" "b \<notin> set zs" "NBUF \<notin> set xs"
    using assms split_list [of b xs] by (fastforce simp: ring_def dll_def)
  have "dll bs (ys @ b # zs)" using assms(1) xs by (simp add: ring_def)
  note un = dll_unlink [OF this]
  let ?bs = "set_next (b_prev (bs b)) (b_next (bs b)) (set_prev (b_next (bs b)) (b_prev (bs b)) bs)"
  have mf: "move_front b bs = set_next NBUF b (set_prev (b_next (?bs NBUF)) b
      (set_prev b NBUF (set_next b (b_next (?bs NBUF)) ?bs)))"
    using un(2,3) assms(2) by (simp add: move_front_def Let_def)
  have "dll (move_front b bs) (b # ys @ zs)"
    unfolding mf by (rule dll_push [OF un(1)]) (use dist assms(2) in auto)
  then show "ring (move_front b bs) (b # remove1 b xs)"
    using assms dist xs by (auto simp: ring_def remove1_append)
  show "same_contents (move_front b bs) bs" by (simp add: move_front_def Let_def)
qed

lemma brelse_Ok:
  assumes c: "cache H P s" and i: "i \<in> H" and ring: "ring (bufs s) xs"
  obtains bs where
    "brelse i s = Ok () (s\<lparr>bufs := bs, procs := woken (Ch_sl (SLbuf i)) NPROC (cur s) (procs s)\<rparr>)"
    and "ring bs (if b_refcnt (bufs s i) = 1 then i # remove1 i xs else xs)"
    and "same_contents bs ((bufs s)(i := (bufs s i)\<lparr>b_lock := \<lparr>sl_locked = False, sl_pid = 0\<rparr>,
           b_refcnt := b_refcnt (bufs s i) - 1\<rparr>))"
proof -
  note h = cache_heldD [OF c i]
  obtain p where p: "cur s = Some p" using cacheD(5) [OF c] by auto
  let ?b = "(bufs s i)\<lparr>b_lock := \<lparr>sl_locked = False, sl_pid = 0\<rparr>, b_refcnt := b_refcnt (bufs s i) - 1\<rparr>"
  let ?bs = "(bufs s)(i := ?b)"
  have ring': "ring ?bs xs" using ring by (simp add: ring_upd)
  have run: "brelse i s = Ok () (s\<lparr>bufs := (if b_refcnt (bufs s i) = 1 then move_front i ?bs else ?bs),
      procs := woken (Ch_sl (SLbuf i)) NPROC (cur s) (procs s)\<rparr>)"
    using cacheD(6) [OF c] h p
    by (simp add: brelse_def holdingsleep_Ok releasesleep_Ok cache_locks_free_def no_plocks_def
        cur_pid_def Let_def move_front_def)
  show thesis
    by (rule that [OF run]) (use move_front_ring [OF ring' h(1)] ring' in auto)
qed

text \<open>The order of the ring does not matter to the contents of the cache.\<close>

lemma cache_cong:
  assumes c: "cache H P s" and "ring bs xs" and same: "same_contents bs (bufs s)"
  shows "cache H P (s\<lparr>bufs := bs\<rparr>)"
    and "blk (s\<lparr>bufs := bs\<rparr>) = blk s"
proof -
  note eq = same_contentsD [OF same]
  show "cache H P (s\<lparr>bufs := bs\<rparr>)"
    using c assms(2) by (auto simp: cache_def buf_ok_def eq cache_locks_free_def no_plocks_def)
  show "blk (s\<lparr>bufs := bs\<rparr>) = blk s"
    by (simp add: blk_def fun_eq_iff eq split: option.split)
qed

lemma cache_unlock:
  assumes c: "cache H P s" and i: "i \<in> H"
    and clean: "b_blockno (bufs s i) \<in> P \<or> b_data (bufs s i) = disk s (b_blockno (bufs s i))"
  defines "s' \<equiv> upd_buf i (\<lambda>x. x\<lparr>b_lock := \<lparr>sl_locked = False, sl_pid = 0\<rparr>,
           b_refcnt := b_refcnt x - 1\<rparr>) s"
  shows "cache (H - {i}) P s'" and "blk s' = blk s"
proof -
  note h = cache_heldD [OF c i]
  show c': "cache (H - {i}) P s'"
    unfolding s'_def
    by (intro cache_upd [OF c h(1)])
      (use cacheD(2,4) [OF c] cacheD(8) [OF c h(1)] cacheD(9) [OF c _ h(1)] h i clean in
        \<open>auto simp: buf_ok_def\<close>)
  show "blk s' = blk s"
    using blk_upd [OF c c' [unfolded s'_def] h(1)] h blk_valid [OF c h(1,2)] by (auto simp: s'_def)
qed

lemma brelse_spec:
  assumes c: "cache H P s" and i: "i \<in> H"
    and clean: "b_blockno (bufs s i) \<in> P \<or> b_data (bufs s i) = disk s (b_blockno (bufs s i))"
  obtains bs ps where "brelse i s = Ok () (s\<lparr>bufs := bs, procs := ps\<rparr>)"
    and "cache (H - {i}) P (s\<lparr>bufs := bs, procs := ps\<rparr>)"
    and "blk (s\<lparr>bufs := bs, procs := ps\<rparr>) = blk s"
    and "\<And>j. b_blockno (bs j) = b_blockno (bufs s j)" and "\<And>j. b_data (bs j) = b_data (bufs s j)"
    and "ps = woken (Ch_sl (SLbuf i)) NPROC (cur s) (procs s)"
proof -
  obtain xs where ring: "ring (bufs s) xs" using cacheD(1) [OF c] by auto
  obtain bs where run: "brelse i s = Ok () (s\<lparr>bufs := bs, procs := woken (Ch_sl (SLbuf i)) NPROC (cur s) (procs s)\<rparr>)"
    and ring': "ring bs (if b_refcnt (bufs s i) = 1 then i # remove1 i xs else xs)"
    and same: "same_contents bs (bufs (upd_buf i (\<lambda>x. x\<lparr>b_lock := \<lparr>sl_locked = False, sl_pid = 0\<rparr>,
           b_refcnt := b_refcnt x - 1\<rparr>) s))"
    using brelse_Ok [OF c i ring] by auto
  note un = cache_unlock [OF c i clean]
  note c1 = cache_cong [OF un(1) ring' same]
  have c2: "cache (H - {i}) P (s\<lparr>bufs := bs, procs := woken (Ch_sl (SLbuf i)) NPROC (cur s) (procs s)\<rparr>)"
    using c1(1) cache_frame(5) [where s = "s\<lparr>bufs := bs\<rparr>"] by simp
  show thesis
    by (rule that [OF run])
      (use c1(2) c2 un(2) same_contentsD(3,6) [OF same] in auto)
qed

lemma bpin_spec:
  assumes c: "cache H P s" and i: "i \<in> H" and new: "b_blockno (bufs s i) \<notin> P"
  defines "s' \<equiv> upd_buf i (\<lambda>x. x\<lparr>b_refcnt := b_refcnt x + 1\<rparr>) s"
  shows "bpin i s = Ok () s'" and "cache H (insert (b_blockno (bufs s i)) P) s'" and "blk s' = blk s"
proof -
  note h = cache_heldD [OF c i]
  show "bpin i s = Ok () s'"
    using cacheD(6) [OF c] by (simp add: bpin_def cache_locks_free_def s'_def)
  show c': "cache H (insert (b_blockno (bufs s i)) P) s'"
    unfolding s'_def
    by (intro cache_upd [OF c h(1)])
      (use cacheD(2,4) [OF c] cacheD(8) [OF c h(1)] cacheD(9) [OF c _ h(1)] h i new in
        \<open>auto simp: buf_ok_def\<close>)
  show "blk s' = blk s"
    using blk_upd [OF c c' [unfolded s'_def] h(1)] h blk_valid [OF c h(1,2)] by (auto simp: s'_def)
qed

lemma bunpin_spec:
  assumes c: "cache H P s" and i: "i \<in> H" and old: "b_blockno (bufs s i) \<in> P"
  defines "s' \<equiv> upd_buf i (\<lambda>x. x\<lparr>b_refcnt := b_refcnt x - 1\<rparr>) s"
  shows "bunpin i s = Ok () s'" and "cache H (P - {b_blockno (bufs s i)}) s'" and "blk s' = blk s"
proof -
  note h = cache_heldD [OF c i]
  show "bunpin i s = Ok () s'"
    using cacheD(6) [OF c] by (simp add: bunpin_def cache_locks_free_def s'_def)
  show c': "cache H (P - {b_blockno (bufs s i)}) s'"
    unfolding s'_def
    by (intro cache_upd [OF c h(1)])
      (use cacheD(2,4) [OF c] cacheD(8) [OF c h(1)] cacheD(9) [OF c _ h(1)] h i old in
        \<open>auto simp: buf_ok_def\<close>)
  show "blk s' = blk s"
    using blk_upd [OF c c' [unfolded s'_def] h(1)] h blk_valid [OF c h(1,2)] by (auto simp: s'_def)
qed

section \<open>The operations as the file system uses them\<close>

text \<open>What the operations on blocks may change.\<close>

definition bframe :: "kstate \<Rightarrow> kstate \<Rightarrow> bool" where
  "bframe s t \<longleftrightarrow>
     t\<lparr>bufs := bufs s, procs := procs s, disk := disk s, wtrace := wtrace s, msgs := msgs s\<rparr> = s
     \<and> (\<forall>p. p_pid (procs t p) = p_pid (procs s p))"

lemma bframe_refl [simp]: "bframe s s"
  by (simp add: bframe_def)

lemma bframe_trans [trans]:
  assumes "bframe s t" and "bframe t u"
  shows "bframe s u"
proof -
  have "u\<lparr>bufs := bufs s, procs := procs s, disk := disk s, wtrace := wtrace s, msgs := msgs s\<rparr> =
    (u\<lparr>bufs := bufs t, procs := procs t, disk := disk t, wtrace := wtrace t, msgs := msgs t\<rparr>)
     \<lparr>bufs := bufs s, procs := procs s, disk := disk s, wtrace := wtrace s, msgs := msgs s\<rparr>"
    by simp
  also have "\<dots> = s" using assms by (simp only: bframe_def)
  finally show ?thesis using assms by (simp add: bframe_def)
qed

lemma bframeD:
  assumes "bframe s t"
  shows "the_log t = the_log s" "sb t = sb s" "held t = held s" "cur t = cur s"
    "inodes t = inodes s" "files t = files s" "mem t = mem s" "freelist t = freelist s"
    "pipes t = pipes s" "kend t = kend s"
proof -
  have *: "t\<lparr>bufs := bufs s, procs := procs s, disk := disk s, wtrace := wtrace s, msgs := msgs s\<rparr> = s"
    using assms by (simp add: bframe_def)
  show "the_log t = the_log s" using arg_cong [OF *, of the_log] by simp
  show "sb t = sb s" using arg_cong [OF *, of sb] by simp
  show "held t = held s" using arg_cong [OF *, of held] by simp
  show "cur t = cur s" using arg_cong [OF *, of cur] by simp
  show "inodes t = inodes s" using arg_cong [OF *, of inodes] by simp
  show "files t = files s" using arg_cong [OF *, of files] by simp
  show "mem t = mem s" using arg_cong [OF *, of mem] by simp
  show "freelist t = freelist s" using arg_cong [OF *, of freelist] by simp
  show "pipes t = pipes s" using arg_cong [OF *, of pipes] by simp
  show "kend t = kend s" using arg_cong [OF *, of kend] by simp
qed

text \<open>A block that is neither locked nor pinned is on the disk as the file system sees it.\<close>

lemma blk_clean:
  assumes c: "cache H P s" and "b \<notin> P" and "\<And>i. i \<in> H \<Longrightarrow> b_blockno (bufs s i) \<noteq> b"
  shows "blk s b = disk s b"
proof (cases "\<exists>i < NBUF. b_valid (bufs s i) \<and> b_blockno (bufs s i) = b")
  case True
  then obtain i where i: "i < NBUF" "b_valid (bufs s i)" "b_blockno (bufs s i) = b" by auto
  moreover have "i \<notin> H" using assms(3) i by auto
  ultimately show ?thesis
    using blk_valid [OF c i(1,2)] cacheD(8) [OF c i(1)] assms(2) by (auto simp: buf_ok_def)
next
  case False
  then show ?thesis by (intro blk_not_cached) auto
qed

text \<open>The specifications again, with the states kept opaque.\<close>

lemma bread_run:
  assumes "cache H P s" and "\<And>j. j \<in> H \<Longrightarrow> b_blockno (bufs s j) \<noteq> b"
    and "b \<in> P \<or> card H + card P < NBUF"
  obtains i t where "bread ROOTDEV b s = Ok i t" and "i \<notin> H" and "cache (insert i H) P t"
    and "b_blockno (bufs t i) = b" and "b_data (bufs t i) = blk s b" and "blk t = blk s"
    and "disk t = disk s" and "wtrace t = wtrace s" and "bframe s t"
    and "\<And>j. j \<noteq> i \<Longrightarrow> bufs t j = bufs s j"
proof (rule bread_spec [OF assms])
  fix i bs
  assume *: "bread ROOTDEV b s = Ok i (s\<lparr>bufs := bs\<rparr>)" "i \<notin> H"
    "cache (insert i H) P (s\<lparr>bufs := bs\<rparr>)" "b_blockno (bs i) = b"
    "b_data (bs i) = blk s b" "blk (s\<lparr>bufs := bs\<rparr>) = blk s" "\<And>j. j \<noteq> i \<Longrightarrow> bs j = bufs s j"
  show thesis by (rule that [OF *(1-3)]) (use *(4-7) in \<open>simp_all add: bframe_def\<close>)
qed

lemma set_data_simps [simp]:
  "disk (set_data i d s) = disk s" "wtrace (set_data i d s) = wtrace s" "bframe s (set_data i d s)"
  "b_blockno (bufs (set_data i d s) j) = b_blockno (bufs s j)"
  "b_data (bufs (set_data i d s) j) = (if j = i then d else b_data (bufs s j))"
  "the_log (set_data i d s) = the_log s" "sb (set_data i d s) = sb s"
  "inodes (set_data i d s) = inodes s" "held (set_data i d s) = held s" "cur (set_data i d s) = cur s"
  by (simp_all add: set_data_def bframe_def)

lemma set_data_run:
  assumes "cache H P s" and "i \<in> H" and "length d = BSIZE"
  shows "cache H P (set_data i d s)" and "blk (set_data i d s) = (blk s)(b_blockno (bufs s i) := d)"
  using cache_set_data [OF assms] by (simp_all add: set_data_def)

lemma bwrite_run:
  assumes "cache H P s" and "i \<in> H"
  obtains t where "bwrite i s = Ok () t" and "cache H P t" and "blk t = blk s"
    and "disk t = (disk s)(b_blockno (bufs s i) := b_data (bufs s i))"
    and "wtrace t = wtrace s @ [(b_blockno (bufs s i), b_data (bufs s i))]"
    and "bufs t = bufs s" and "bframe s t"
  by (rule that [OF bwrite_spec [OF assms]]) (simp_all add: bframe_def)

lemma brelse_run:
  assumes "cache H P s" and "i \<in> H"
    and "b_blockno (bufs s i) \<in> P \<or> b_data (bufs s i) = disk s (b_blockno (bufs s i))"
  obtains t where "brelse i s = Ok () t" and "cache (H - {i}) P t" and "blk t = blk s"
    and "disk t = disk s" and "wtrace t = wtrace s" and "bframe s t"
    and "\<And>j. b_blockno (bufs t j) = b_blockno (bufs s j)"
    and "\<And>j. b_data (bufs t j) = b_data (bufs s j)"
proof (rule brelse_spec [OF assms])
  fix bs ps
  assume *: "brelse i s = Ok () (s\<lparr>bufs := bs, procs := ps\<rparr>)"
    "cache (H - {i}) P (s\<lparr>bufs := bs, procs := ps\<rparr>)" "blk (s\<lparr>bufs := bs, procs := ps\<rparr>) = blk s"
    "\<And>j. b_blockno (bs j) = b_blockno (bufs s j)" "\<And>j. b_data (bs j) = b_data (bufs s j)"
    "ps = woken (Ch_sl (SLbuf i)) NPROC (cur s) (procs s)"
  show thesis by (rule that [OF *(1-3)]) (use *(4-6) in \<open>simp_all add: bframe_def\<close>)
qed

lemma bpin_run:
  assumes "cache H P s" and "i \<in> H" and "b_blockno (bufs s i) \<notin> P"
  obtains t where "bpin i s = Ok () t" and "cache H (insert (b_blockno (bufs s i)) P) t"
    and "blk t = blk s" and "disk t = disk s" and "wtrace t = wtrace s" and "bframe s t"
    and "\<And>j. b_blockno (bufs t j) = b_blockno (bufs s j)"
    and "\<And>j. b_data (bufs t j) = b_data (bufs s j)"
  by (rule that [OF bpin_spec [OF assms]]) (simp_all add: bframe_def)

lemma bunpin_run:
  assumes "cache H P s" and "i \<in> H" and "b_blockno (bufs s i) \<in> P"
  obtains t where "bunpin i s = Ok () t" and "cache H (P - {b_blockno (bufs s i)}) t"
    and "blk t = blk s" and "disk t = disk s" and "wtrace t = wtrace s" and "bframe s t"
    and "\<And>j. b_blockno (bufs t j) = b_blockno (bufs s j)"
    and "\<And>j. b_data (bufs t j) = b_data (bufs s j)"
  by (rule that [OF bunpin_spec [OF assms]]) (simp_all add: bframe_def)

section \<open>Initialisation\<close>

definition unlock_buf :: "nat \<Rightarrow> (nat \<Rightarrow> buf) \<Rightarrow> nat \<Rightarrow> buf" where
  "unlock_buf b bs = bs(b := (bs b)\<lparr>b_lock := zero_sleeplock\<rparr>)"

lemma unlock_buf_simps [simp]:
  "b_next (unlock_buf b bs i) = b_next (bs i)" "b_prev (unlock_buf b bs i) = b_prev (bs i)"
  "b_valid (unlock_buf b bs i) = b_valid (bs i)" "b_dev (unlock_buf b bs i) = b_dev (bs i)"
  "b_blockno (unlock_buf b bs i) = b_blockno (bs i)" "b_refcnt (unlock_buf b bs i) = b_refcnt (bs i)"
  "b_data (unlock_buf b bs i) = b_data (bs i)"
  "b_lock (unlock_buf b bs i) = (if i = b then zero_sleeplock else b_lock (bs i))"
  by (simp_all add: unlock_buf_def)

lemma unlock_buf_commute:
  "set_next i v (unlock_buf b bs) = unlock_buf b (set_next i v bs)"
  "set_prev i v (unlock_buf b bs) = unlock_buf b (set_prev i v bs)"
  by (auto simp: unlock_buf_def set_next_def set_prev_def fun_eq_iff)

lemma binit_one_dll:
  assumes "dll bs xs" and "b \<notin> set xs" and "b < NBUF"
  obtains bs' where "binit_one b (s\<lparr>bufs := bs\<rparr>) = s\<lparr>bufs := bs'\<rparr>" and "dll bs' (b # xs)"
    and "same_contents bs' (unlock_buf b bs)"
proof -
  let ?n = "b_next (bs NBUF)"
  let ?bs = "set_next NBUF b (set_prev ?n b (set_prev b NBUF (set_next b ?n bs)))"
  have "binit_one b (s\<lparr>bufs := bs\<rparr>) = s\<lparr>bufs := unlock_buf b ?bs\<rparr>"
    using assms(3) unfolding binit_one_def initsleeplock_def Let_def
    by (simp add: zero_sleeplock_def [symmetric] unlock_buf_def [symmetric] unlock_buf_commute)
  moreover have "dll ?bs (b # xs)" by (rule dll_push) (use assms in auto)
  then have "dll (unlock_buf b ?bs) (b # xs)" by (simp add: dll_def)
  moreover have "same_contents (unlock_buf b ?bs) (unlock_buf b bs)" by (simp add: same_contents_def)
  ultimately show thesis by (rule that)
qed

lemma binit_prefix:
  assumes "dll bs []" and "n \<le> NBUF"
  obtains bs' where "fold binit_one [0..<n] (s\<lparr>bufs := bs\<rparr>) = s\<lparr>bufs := bs'\<rparr>"
    and "dll bs' (rev [0..<n])"
    and "same_contents bs' (\<lambda>i. if i < n then (bs i)\<lparr>b_lock := zero_sleeplock\<rparr> else bs i)"
  using assms(2)
proof (induction n arbitrary: thesis)
  case 0
  with assms(1) show ?case by simp
next
  case (Suc n)
  obtain bs1 where 1: "fold binit_one [0..<n] (s\<lparr>bufs := bs\<rparr>) = s\<lparr>bufs := bs1\<rparr>"
      "dll bs1 (rev [0..<n])"
      "same_contents bs1 (\<lambda>i. if i < n then (bs i)\<lparr>b_lock := zero_sleeplock\<rparr> else bs i)"
    using Suc.IH Suc.prems(2) by auto
  obtain bs2 where 2: "binit_one n (s\<lparr>bufs := bs1\<rparr>) = s\<lparr>bufs := bs2\<rparr>"
      "dll bs2 (n # rev [0..<n])" "same_contents bs2 (unlock_buf n bs1)"
    using binit_one_dll [OF 1(2), of n s] Suc.prems(2) by auto
  show ?case
    by (rule Suc.prems(1) [of bs2])
      (use 1 2 in \<open>auto simp: same_contents_def\<close>)
qed

text \<open>The cache after boot: \<open>binit\<close> on zeroed buffers, then a process runs.\<close>

lemma binit_ring:
  obtains bs where "binit s = s\<lparr>bufs := bs\<rparr>" and "ring bs (rev [0..<NBUF])"
    and "same_contents bs (\<lambda>i. if i < NBUF then (bufs s i)\<lparr>b_lock := zero_sleeplock\<rparr> else bufs s i)"
proof -
  let ?bs = "set_next NBUF NBUF (set_prev NBUF NBUF (bufs s))"
  have "dll ?bs []" by (simp add: dll_def)
  then obtain bs where 1: "fold binit_one [0..<NBUF] (s\<lparr>bufs := ?bs\<rparr>) = s\<lparr>bufs := bs\<rparr>"
      "dll bs (rev [0..<NBUF])"
      "same_contents bs (\<lambda>i. if i < NBUF then (?bs i)\<lparr>b_lock := zero_sleeplock\<rparr> else ?bs i)"
    using binit_prefix [of ?bs NBUF s] by blast
  have "binit s = s\<lparr>bufs := bs\<rparr>" using 1(1) by (simp add: binit_def)
  moreover have "ring bs (rev [0..<NBUF])" using 1(2) by (auto simp: ring_def)
  moreover have "same_contents bs (\<lambda>i. if i < NBUF then (bufs s i)\<lparr>b_lock := zero_sleeplock\<rparr> else bufs s i)"
    using 1(3) by (simp add: same_contents_def)
  ultimately show thesis by (rule that)
qed

definition boot :: "(u32 \<Rightarrow> byte list) \<Rightarrow> kstate" where
  "boot d = binit ((zero_state 0x80000000 d)\<lparr>cur := Some 0\<rparr>)"

lemma boot_bufs:
  obtains bs where "boot d = (zero_state 0x80000000 d)\<lparr>cur := Some 0, bufs := bs\<rparr>"
    and "ring bs (rev [0..<NBUF])" and "same_contents bs (\<lambda>_. zero_buf)"
proof -
  obtain bs where bs: "boot d = (zero_state 0x80000000 d)\<lparr>cur := Some 0, bufs := bs\<rparr>"
      "ring bs (rev [0..<NBUF])"
      "same_contents bs (\<lambda>i. if i < NBUF then (bufs ((zero_state 0x80000000 d)\<lparr>cur := Some 0\<rparr>) i)
         \<lparr>b_lock := zero_sleeplock\<rparr> else bufs ((zero_state 0x80000000 d)\<lparr>cur := Some 0\<rparr>) i)"
    unfolding boot_def by (rule binit_ring)
  then show thesis
    by (intro that [of bs]) (auto simp: same_contents_def zero_state_def zero_buf_def)
qed

lemma boot_cache:
  assumes "\<And>b. length (d b) = BSIZE"
  shows "cache {} {} (boot d)" and "blk (boot d) = d" and "disk (boot d) = d" and "wtrace (boot d) = []"
proof -
  obtain bs where bs: "boot d = (zero_state 0x80000000 d)\<lparr>cur := Some 0, bufs := bs\<rparr>"
      "ring bs (rev [0..<NBUF])" "same_contents bs (\<lambda>_. zero_buf)"
    by (rule boot_bufs)
  note eq = same_contentsD [OF bs(3)]
  show "cache {} {} (boot d)"
    using bs(2) assms unfolding bs(1)
    by (auto simp: cache_def buf_ok_def eq zero_buf_def zero_state_def zero_sleeplock_def
        cache_locks_free_def no_plocks_def)
  show "blk (boot d) = d"
    by (rule ext, subst blk_not_cached) (simp_all add: bs(1) eq zero_buf_def zero_state_def)
  show "disk (boot d) = d" and "wtrace (boot d) = []" by (simp_all add: bs(1) zero_state_def)
qed

lemma bread_no_buffers:
  assumes "ring (bufs s) xs" and "L_bcache \<notin> set (held s)"
    and "\<And>j. j < NBUF \<Longrightarrow> \<not> (b_dev (bufs s j) = dev \<and> b_blockno (bufs s j) = b)"
    and "\<And>j. j < NBUF \<Longrightarrow> b_refcnt (bufs s j) \<noteq> 0"
  shows "bread dev b s = Panic ''bget: no buffers''"
proof -
  have "List.find (\<lambda>j. b_dev (bufs s j) = dev \<and> b_blockno (bufs s j) = b) xs = None"
    and "List.find (\<lambda>j. b_refcnt (bufs s j) = 0) (rev xs) = None"
    using assms by (auto simp: find_None_iff ring_def)
  then show ?thesis
    using ring_finds [OF assms(1)] assms(2) by (simp add: bread_def bget_def)
qed

section \<open>Properties\<close>

text \<open>C39: \<open>bread\<close> of a block this thread has not locked returns a buffer, locked by the caller and
  holding the block's current content, whether it was cached or not; the content of no block
  changes and the invariant of the cache is kept, as long as a buffer is unused.\<close>

theorem bread_returns_block:
  assumes "cache H P s" and "\<forall>j \<in> H. b_blockno (bufs s j) \<noteq> b"
    and "b \<in> P \<or> card H + card P < NBUF"
  shows "\<exists>i s'. bread ROOTDEV b s = Ok i s' \<and> i \<notin> H \<and> cache (insert i H) P s'
     \<and> b_blockno (bufs s' i) = b \<and> b_data (bufs s' i) = blk s b \<and> blk s' = blk s \<and> disk s' = disk s"
  by (rule bread_spec [OF assms(1) _ assms(3)]) (use assms(2) in auto)

theorem bread_returns_block_witness:
  "\<exists>i s'. bread ROOTDEV 7 (boot (\<lambda>_. replicate BSIZE 9)) = Ok i s'
     \<and> b_data (bufs s' i) = replicate BSIZE 9"
  using bread_returns_block [of "{}" "{}" "boot (\<lambda>_. replicate BSIZE 9)" 7]
    boot_cache [of "\<lambda>_. replicate BSIZE 9"] by auto

text \<open>C40: \<open>binit\<close> links all buffers into one ring, last buffer first and all unlocked; a block that
  is not cached is read into the least recently used buffer that nobody refers to, and
  \<open>brelse\<close> of the last reference moves the buffer to the front of the ring.\<close>

theorem buffer_cache_is_lru:
  "(\<exists>bs. binit s = s\<lparr>bufs := bs\<rparr> \<and> ring bs (rev [0..<NBUF])
        \<and> (\<forall>i < NBUF. \<not> sl_locked (b_lock (bs i))))
   \<and> (cache H P s \<and> ring (bufs s) xs \<longrightarrow>
       ((\<forall>j < NBUF. b_valid (bufs s j) \<longrightarrow> b_blockno (bufs s j) \<noteq> b)
          \<and> List.find (\<lambda>i. b_refcnt (bufs s i) = 0) (rev xs) = Some i \<longrightarrow>
          (\<exists>s'. bread ROOTDEV b s = Ok i s' \<and> ring (bufs s') xs))
       \<and> (k \<in> H \<and> b_refcnt (bufs s k) = 1 \<longrightarrow>
          (\<exists>s'. brelse k s = Ok () s' \<and> ring (bufs s') (k # remove1 k xs))))"
proof (intro conjI impI)
  obtain bs where bs: "binit s = s\<lparr>bufs := bs\<rparr>" "ring bs (rev [0..<NBUF])"
      "same_contents bs (\<lambda>i. if i < NBUF then (bufs s i)\<lparr>b_lock := zero_sleeplock\<rparr> else bufs s i)"
    by (rule binit_ring)
  then show "\<exists>bs. binit s = s\<lparr>bufs := bs\<rparr> \<and> ring bs (rev [0..<NBUF])
      \<and> (\<forall>i < NBUF. \<not> sl_locked (b_lock (bs i)))"
    using same_contentsD(4) [OF bs(3)] by (auto simp: zero_sleeplock_def)
next
  assume c: "cache H P s \<and> ring (bufs s) xs"
    and "(\<forall>j < NBUF. b_valid (bufs s j) \<longrightarrow> b_blockno (bufs s j) \<noteq> b)
      \<and> List.find (\<lambda>i. b_refcnt (bufs s i) = 0) (rev xs) = Some i"
  with bread_miss [of H P s xs b i]
  show "\<exists>s'. bread ROOTDEV b s = Ok i s' \<and> ring (bufs s') xs"
    by (auto simp: ring_upd)
next
  assume c: "cache H P s \<and> ring (bufs s) xs" and k: "k \<in> H \<and> b_refcnt (bufs s k) = 1"
  then obtain bs where
    "brelse k s = Ok () (s\<lparr>bufs := bs, procs := woken (Ch_sl (SLbuf k)) NPROC (cur s) (procs s)\<rparr>)"
    "ring bs (k # remove1 k xs)"
    using brelse_Ok [of H P s k xs] by auto
  then show "\<exists>s'. brelse k s = Ok () s' \<and> ring (bufs s') (k # remove1 k xs)" by auto
qed

theorem buffer_cache_is_lru_witness:
  "\<exists>s'. bread ROOTDEV 7 (boot (\<lambda>_. replicate BSIZE 9)) = Ok 0 s' \<and> ring (bufs s') (rev [0..<NBUF])"
proof -
  obtain bs where bs: "boot (\<lambda>_. replicate BSIZE 9) =
        (zero_state 0x80000000 (\<lambda>_. replicate BSIZE 9))\<lparr>cur := Some 0, bufs := bs\<rparr>"
      "ring bs (rev [0..<NBUF])" "same_contents bs (\<lambda>_. zero_buf)"
    by (rule boot_bufs)
  note eq = same_contentsD [OF bs(3)]
  have "List.find (\<lambda>i. b_refcnt (bs i) = 0) (rev (rev [0..<NBUF])) = Some 0"
    by (simp add: eq zero_buf_def upt_rec)
  with buffer_cache_is_lru [of "boot (\<lambda>_. replicate BSIZE 9)" "{}" "{}" "rev [0..<NBUF]" 7 0 0]
    boot_cache(1) [of "\<lambda>_. replicate BSIZE 9"] bs
  show ?thesis by (simp add: eq zero_buf_def)
qed

end
