(* ===== verification/Log.thy ===== *)
theory Log
  imports Bio
begin

text \<open>
  The write-ahead log of \<^verbatim>\<open>kernel/log.c\<close>. The header block of the on-disk log is a C structure
  in the data of a buffer: the count at offset 0, the block numbers from offset 4 on.
  The loops over the log's blocks run to \<open>log.lh.n\<close>, which none of them changes.

  \<open>commit_trace\<close> lists the disk writes of a commit in their order; a crash leaves the disk with
  some prefix of them, and \<open>recover_from_log\<close> then runs on a freshly booted cache. The
  properties show that this yields the state before the transaction or the state after it.
\<close>

section \<open>The header block\<close>

definition write_hdr :: "logheader \<Rightarrow> byte list \<Rightarrow> byte list" where
  "write_hdr lh d =
     fold (\<lambda>i d. put32 d (4 + 4 * i) (lh_block lh i)) [0..<nat (lh_n lh)]
       (put32 d 0 (of_int (lh_n lh)))"

definition read_hdr :: "byte list \<Rightarrow> logheader \<Rightarrow> logheader" where
  "read_hdr d lh =
     (let n = sint (get32 d 0) in
      \<lparr>lh_n = n,
       lh_block = fold (\<lambda>i f. f(i := get32 d (4 + 4 * i))) [0..<nat n] (lh_block lh)\<rparr>)"

section \<open>kernel/log.c\<close>

abbreviation upd_lh :: "(logheader \<Rightarrow> logheader) \<Rightarrow> kstate \<Rightarrow> kstate" where
  "upd_lh f s \<equiv> s\<lparr>the_log := (the_log s)\<lparr>log_lh := f (log_lh (the_log s))\<rparr>\<rparr>"

definition install_one :: "bool \<Rightarrow> nat \<Rightarrow> kstate \<Rightarrow> unit kres" where
  "install_one recovering tail s =
     (let s = (if recovering then kprintf ''recovering tail %d dst %d'' s else s) in
      bind (bread (log_dev (the_log s)) (log_start (the_log s) + of_nat tail + 1) s) (\<lambda>lbuf s.
      bind (bread (log_dev (the_log s)) (lh_block (log_lh (the_log s)) tail) s) (\<lambda>dbuf s.
      let s = set_data dbuf (b_data (bufs s lbuf)) s in
      bind (bwrite dbuf s) (\<lambda>_ s.
      bind (if \<not> recovering then bunpin dbuf s else Ok () s) (\<lambda>_ s.
      bind (brelse lbuf s) (\<lambda>_ s.
      brelse dbuf s))))))"

definition install_trans :: "bool \<Rightarrow> kstate \<Rightarrow> unit kres" where
  "install_trans recovering s =
     for_each [0..<nat (lh_n (log_lh (the_log s)))] (install_one recovering) s"

definition read_head :: "kstate \<Rightarrow> unit kres" where
  "read_head s =
     bind (bread (log_dev (the_log s)) (log_start (the_log s)) s) (\<lambda>buf s.
     brelse buf (upd_lh (read_hdr (b_data (bufs s buf))) s))"

definition write_head :: "kstate \<Rightarrow> unit kres" where
  "write_head s =
     bind (bread (log_dev (the_log s)) (log_start (the_log s)) s) (\<lambda>buf s.
     let s = set_data buf (write_hdr (log_lh (the_log s)) (b_data (bufs s buf))) s in
     bind (bwrite buf s) (\<lambda>_ s.
     brelse buf s))"

definition recover_from_log :: "kstate \<Rightarrow> unit kres" where
  "recover_from_log s =
     bind (read_head s) (\<lambda>_ s.
     bind (install_trans True s) (\<lambda>_ s.
     write_head (upd_lh (\<lambda>lh. lh\<lparr>lh_n := 0\<rparr>) s)))"

text \<open>\<open>sizeof(struct logheader)\<close> is \<open>4 + 4 * LOGBLOCKS\<close>.\<close>

definition initlog :: "u32 \<Rightarrow> superblock \<Rightarrow> kstate \<Rightarrow> unit kres" where
  "initlog dev sbp s =
     (if 4 + 4 * LOGBLOCKS \<ge> BSIZE then Panic ''initlog: too big logheader''
      else recover_from_log
        (s\<lparr>the_log := (the_log s)\<lparr>log_start := sb_logstart sbp, log_dev := dev\<rparr>\<rparr>))"

text \<open>The loop of \<open>begin_op\<close>; a sleeper that is woken runs it again.\<close>

definition begin_op_loop :: "kstate \<Rightarrow> unit kres" where
  "begin_op_loop s =
     (let l = the_log s in
      if log_committing l then sleep Ch_log L_log s
      else if lh_n (log_lh l) + (log_outstanding l + 1) * int MAXOPBLOCKS > int LOGBLOCKS
      then sleep Ch_log L_log s
      else release L_log (s\<lparr>the_log := l\<lparr>log_outstanding := log_outstanding l + 1\<rparr>\<rparr>))"

definition begin_op :: "kstate \<Rightarrow> unit kres" where
  "begin_op s = bind (acquire L_log s) (\<lambda>_ s. begin_op_loop s)"

definition write_log_one :: "nat \<Rightarrow> kstate \<Rightarrow> unit kres" where
  "write_log_one tail s =
     bind (bread (log_dev (the_log s)) (log_start (the_log s) + of_nat tail + 1) s) (\<lambda>to s.
     bind (bread (log_dev (the_log s)) (lh_block (log_lh (the_log s)) tail) s) (\<lambda>from s.
     let s = set_data to (b_data (bufs s from)) s in
     bind (bwrite to s) (\<lambda>_ s.
     bind (brelse from s) (\<lambda>_ s.
     brelse to s))))"

definition write_log :: "kstate \<Rightarrow> unit kres" where
  "write_log s = for_each [0..<nat (lh_n (log_lh (the_log s)))] write_log_one s"

definition commit :: "kstate \<Rightarrow> unit kres" where
  "commit s =
     (if lh_n (log_lh (the_log s)) > 0 then
        bind (write_log s) (\<lambda>_ s.
        bind (write_head s) (\<lambda>_ s.
        bind (install_trans False s) (\<lambda>_ s.
        write_head (upd_lh (\<lambda>lh. lh\<lparr>lh_n := 0\<rparr>) s))))
      else Ok () s)"

text \<open>\<open>end_op\<close> takes the lock of the log twice; between the two critical sections, with no lock held, the last
  operation commits.\<close>

definition end_op_begin :: "kstate \<Rightarrow> bool kres" where
  "end_op_begin s =
     bind (acquire L_log s) (\<lambda>_ s.
     let l = (the_log s)\<lparr>log_outstanding := log_outstanding (the_log s) - 1\<rparr>;
         s = s\<lparr>the_log := l\<rparr> in
     if log_committing l then Panic ''log.committing''
     else if log_outstanding l = 0 then
       bind (release L_log (s\<lparr>the_log := l\<lparr>log_committing := True\<rparr>\<rparr>)) (\<lambda>_ s.
       Ok True s)
     else
       bind (wakeup Ch_log s) (\<lambda>_ s.
       bind (release L_log s) (\<lambda>_ s.
       Ok False s)))"

definition end_op_finish :: "kstate \<Rightarrow> unit kres" where
  "end_op_finish s =
     bind (acquire L_log s) (\<lambda>_ s.
     bind (wakeup Ch_log (s\<lparr>the_log := (the_log s)\<lparr>log_committing := False\<rparr>\<rparr>)) (\<lambda>_ s.
     release L_log s))"

definition end_op :: "kstate \<Rightarrow> unit kres" where
  "end_op s =
     bind (end_op_begin s) (\<lambda>do_commit s.
     if do_commit then
       bind (commit s) (\<lambda>_ s.
       end_op_finish s)
     else Ok () s)"

lemmas end_op_defs = end_op_def end_op_begin_def end_op_finish_def

text \<open>The search of \<open>log_write\<close>: the first index below \<open>n\<close> with that block, or \<open>n\<close>.\<close>

primrec log_find :: "nat \<Rightarrow> (nat \<Rightarrow> u32) \<Rightarrow> nat \<Rightarrow> u32 \<Rightarrow> nat" where
  "log_find 0 f i b = i"
| "log_find (Suc k) f i b = (if f i = b then i else log_find k f (Suc i) b)"

definition log_write :: "nat \<Rightarrow> kstate \<Rightarrow> unit kres" where
  "log_write b s =
     bind (acquire L_log s) (\<lambda>_ s.
     let lh = log_lh (the_log s) in
     if lh_n lh \<ge> int LOGBLOCKS then Panic ''too big a transaction''
     else if log_outstanding (the_log s) < 1 then Panic ''log_write outside of trans''
     else
       let i = log_find (nat (lh_n lh)) (lh_block lh) 0 (b_blockno (bufs s b));
           s = upd_lh (\<lambda>lh. lh\<lparr>lh_block := (lh_block lh)(i := b_blockno (bufs s b))\<rparr>) s in
       bind (if int i = lh_n lh
             then bind (bpin b s) (\<lambda>_ s. Ok () (upd_lh (\<lambda>lh. lh\<lparr>lh_n := lh_n lh + 1\<rparr>) s))
             else Ok () s) (\<lambda>_ s.
       release L_log s))"

section \<open>The steps of a commit\<close>

text \<open>The blocks of the log: \<open>lslot lg i\<close> is the place in the log of the \<open>i\<close>-th logged block.\<close>

definition lslot :: "log \<Rightarrow> nat \<Rightarrow> u32" where
  "lslot lg i = log_start lg + of_nat i + 1"

definition lblock :: "log \<Rightarrow> nat \<Rightarrow> u32" where
  "lblock lg i = lh_block (log_lh lg) i"

lemma write_log_one_run:
  assumes c: "cache {} P s" and dev: "log_dev (the_log s) = ROOTDEV"
    and l: "l = lslot (the_log s) tail" "l \<notin> P"
    and b: "b = lblock (the_log s) tail" "b \<in> P" and room: "card P < NBUF"
  obtains t where "write_log_one tail s = Ok () t" and "bframe s t" and "cache {} P t"
    and "disk t = (disk s)(l := blk s b)" and "wtrace t = wtrace s @ [(l, blk s b)]"
    and "blk t = (blk s)(l := blk s b)"
proof -
  have "l \<noteq> b" using l b by auto
  obtain i s1 where r1: "bread ROOTDEV l s = Ok i s1" "cache {i} P s1" "b_blockno (bufs s1 i) = l"
      "blk s1 = blk s" "disk s1 = disk s" "wtrace s1 = wtrace s" "bframe s s1"
    by (rule bread_run [OF c, of l]) (use room in simp_all)
  obtain j s2 where r2: "bread ROOTDEV b s1 = Ok j s2" "j \<noteq> i" "cache {j, i} P s2"
      "b_data (bufs s2 j) = blk s b" "b_blockno (bufs s2 j) = b" "blk s2 = blk s" "disk s2 = disk s"
      "wtrace s2 = wtrace s" "bframe s1 s2" "bufs s2 i = bufs s1 i"
    by (rule bread_run [OF r1(2), of b]) (use r1 b \<open>l \<noteq> b\<close> in simp_all)
  have len: "length (blk s b) = BSIZE" using cache_heldD(6) [OF r2(3), of j] r2(4) by simp
  let ?s3 = "set_data i (blk s b) s2"
  have 3: "cache {j, i} P ?s3" "blk ?s3 = (blk s)(l := blk s b)"
    using set_data_run [OF r2(3) _ len, of i] r2 r1(3) by simp_all
  obtain s4 where 4: "bwrite i ?s3 = Ok () s4" "cache {j, i} P s4" "blk s4 = (blk s)(l := blk s b)"
      "disk s4 = (disk s)(l := blk s b)" "wtrace s4 = wtrace s @ [(l, blk s b)]" "bufs s4 = bufs ?s3"
      "bframe ?s3 s4"
    by (rule bwrite_run [OF 3(1), of i]) (use 3(2) r2 r1(3) in simp_all)
  obtain s5 where 5: "brelse j s4 = Ok () s5" "cache {i} P s5" "blk s5 = blk s4" "disk s5 = disk s4"
      "wtrace s5 = wtrace s4" "bframe s4 s5" "b_blockno (bufs s5 i) = l" "b_data (bufs s5 i) = blk s b"
    by (rule brelse_run [OF 4(2), of j])
      (use 4(6) r2(2,5,10) r1(3) b in \<open>simp_all add: insert_Diff_if\<close>)
  obtain s6 where 6: "brelse i s5 = Ok () s6" "cache {} P s6" "blk s6 = blk s5" "disk s6 = disk s5"
      "wtrace s6 = wtrace s5" "bframe s5 s6"
    by (rule brelse_run [OF 5(2), of i]) (use 5 4(4) in simp_all)
  have fr: "bframe s s6"
    using r1(7) r2(9) 4(7) 5(6) 6(6) bframe_trans set_data_simps(3) by metis
  show thesis
  proof (rule that [OF _ fr 6(2)])
    show "write_log_one tail s = Ok () s6"
      using r1(1) r2(1,4) 4(1) 5(1) 6(1) dev bframeD(1) [OF r1(7)] l(1) b(1)
      by (simp add: write_log_one_def Let_def lslot_def lblock_def)
  qed (use 6 5 4 in simp_all)
qed

lemma install_one_run:
  assumes c: "cache {} P s" and dev: "log_dev (the_log s) = ROOTDEV"
    and l: "l = lslot (the_log s) tail" "l \<notin> P"
    and b: "b = lblock (the_log s) tail" "b \<noteq> l" and rec: "if r then P = {} else b \<in> P"
    and room: "card P < NBUF"
  obtains t where "install_one r tail s = Ok () t" and "bframe s t" and "cache {} (P - {b}) t"
    and "disk t = (disk s)(b := disk s l)" and "wtrace t = wtrace s @ [(b, disk s l)]"
    and "blk t = (blk s)(b := disk s l)"
proof -
  define s0 where "s0 = (if r then kprintf ''recovering tail %d dst %d'' s else s)"
  have s0: "bframe s s0" "cache {} P s0" "blk s0 = blk s" "disk s0 = disk s" "wtrace s0 = wtrace s"
    using c by (auto simp: s0_def kprintf_def bframe_def)
  have dl: "blk s l = disk s l" by (rule blk_clean [OF c l(2)]) simp
  obtain i s1 where r1: "bread ROOTDEV l s0 = Ok i s1" "cache {i} P s1" "b_blockno (bufs s1 i) = l"
      "b_data (bufs s1 i) = disk s l" "blk s1 = blk s" "disk s1 = disk s" "wtrace s1 = wtrace s"
      "bframe s0 s1"
    by (rule bread_run [OF s0(2), of l]) (use room s0 dl in simp_all)
  obtain j s2 where r2: "bread ROOTDEV b s1 = Ok j s2" "j \<noteq> i" "cache {j, i} P s2"
      "b_blockno (bufs s2 j) = b" "blk s2 = blk s" "disk s2 = disk s"
      "wtrace s2 = wtrace s" "bframe s1 s2" "bufs s2 i = bufs s1 i"
    by (rule bread_run [OF r1(2), of b]) (use r1 b rec in \<open>auto split: if_splits\<close>)
  have len: "length (disk s l) = BSIZE" by (rule cacheD(7) [OF c])
  let ?s3 = "set_data j (disk s l) s2"
  have 3: "cache {j, i} P ?s3" "blk ?s3 = (blk s)(b := disk s l)"
    using set_data_run [OF r2(3) _ len, of j] r2 by simp_all
  obtain s4 where 4: "bwrite j ?s3 = Ok () s4" "cache {j, i} P s4" "blk s4 = (blk s)(b := disk s l)"
      "disk s4 = (disk s)(b := disk s l)" "wtrace s4 = wtrace s @ [(b, disk s l)]"
      "bufs s4 = bufs ?s3" "bframe ?s3 s4"
    by (rule bwrite_run [OF 3(1), of j]) (use 3(2) r2 in simp_all)
  obtain s5 where 5: "(if \<not> r then bunpin j s4 else Ok () s4) = Ok () s5" "cache {j, i} (P - {b}) s5"
      "blk s5 = blk s4" "disk s5 = disk s4" "wtrace s5 = wtrace s4" "bframe s4 s5"
      "\<And>k. b_blockno (bufs s5 k) = b_blockno (bufs s4 k)" "\<And>k. b_data (bufs s5 k) = b_data (bufs s4 k)"
  proof (cases r)
    case True
    with that [of s4] rec 4(2) show ?thesis by simp
  next
    case False
    show ?thesis
      by (rule bunpin_run [OF 4(2), of j]) (use False that rec 4(6) r2(4) in simp_all)
  qed
  obtain s6 where 6: "brelse i s5 = Ok () s6" "cache {j} (P - {b}) s6" "blk s6 = blk s4"
      "disk s6 = disk s4" "wtrace s6 = wtrace s4" "bframe s5 s6" "b_blockno (bufs s6 j) = b"
      "b_data (bufs s6 j) = disk s l"
    by (rule brelse_run [OF 5(2), of i])
      (use 5 4(4,6) r2(2,4,9) r1(3,4) b in \<open>auto simp: insert_Diff_if\<close>)
  obtain s7 where 7: "brelse j s6 = Ok () s7" "cache {} (P - {b}) s7" "blk s7 = blk s4"
      "disk s7 = disk s4" "wtrace s7 = wtrace s4" "bframe s6 s7"
    by (rule brelse_run [OF 6(2), of j]) (use 6 4(4) in simp_all)
  have fr: "bframe s s7"
    using s0(1) r1(8) r2(8) 4(7) 5(6) 6(6) 7(6) bframe_trans set_data_simps(3) by metis
  have log: "the_log s0 = the_log s" "the_log s1 = the_log s"
    using bframeD(1) [OF s0(1)] bframeD(1) [OF r1(8)] by simp_all
  show thesis
  proof (rule that [OF _ fr 7(2)])
    have "b_data (bufs s2 i) = disk s l" using r2(9) r1(4) by simp
    then show "install_one r tail s = Ok () s7"
      using r1(1) r2(1) 4(1) 5(1) 6(1) 7(1) dev log l(1) b(1)
      by (simp add: install_one_def Let_def s0_def [symmetric] lslot_def lblock_def)
  qed (use 7 4 in simp_all)
qed

definition apply_writes :: "(u32 \<times> byte list) list \<Rightarrow> (u32 \<Rightarrow> byte list) \<Rightarrow> u32 \<Rightarrow> byte list" where
  "apply_writes ws d = fold (\<lambda>(b, x) d. d(b := x)) ws d"

lemma apply_writes_simps [simp]:
  "apply_writes [] d = d" "apply_writes (w # ws) d = apply_writes ws (d(fst w := snd w))"
  "apply_writes (ws @ vs) d = apply_writes vs (apply_writes ws d)"
  by (auto simp: apply_writes_def split: prod.split)

lemma apply_writes_other: "b \<notin> fst ` set ws \<Longrightarrow> apply_writes ws d b = d b"
  by (induction ws arbitrary: d) auto

lemma apply_writes_same:
  assumes "b \<in> fst ` set ws" and "\<And>w. w \<in> set ws \<Longrightarrow> fst w = b \<Longrightarrow> snd w = x"
  shows "apply_writes ws d b = x"
  using assms
proof (induction ws rule: rev_induct)
  case (snoc w ws)
  show ?case
  proof (cases "fst w = b")
    case True
    then show ?thesis using snoc.prems(2) [of w] by simp
  next
    case False
    then have "b \<in> fst ` set ws" using snoc.prems(1) by auto
    with snoc.IH snoc.prems(2) False show ?thesis by simp
  qed
qed simp

lemma write_log_prefix:
  assumes c: "cache {} P s" and dev: "log_dev (the_log s) = ROOTDEV" and room: "card P < NBUF"
    and ok: "\<And>i. i < k \<Longrightarrow> lslot (the_log s) i \<notin> P \<and> lblock (the_log s) i \<in> P"
  defines "ws \<equiv> map (\<lambda>i. (lslot (the_log s) i, blk s (lblock (the_log s) i))) [0..<k]"
  obtains t where "for_each [0..<k] write_log_one s = Ok () t" and "bframe s t" and "cache {} P t"
    and "disk t = apply_writes ws (disk s)" and "wtrace t = wtrace s @ ws"
    and "blk t = apply_writes ws (blk s)"
  using ok unfolding ws_def
proof (induction k arbitrary: thesis)
  case 0
  show ?case by (rule "0.prems"(1) [of s]) (use c in simp_all)
next
  case (Suc k)
  let ?ws = "map (\<lambda>i. (lslot (the_log s) i, blk s (lblock (the_log s) i))) [0..<k]"
  obtain u where u: "for_each [0..<k] write_log_one s = Ok () u" "bframe s u" "cache {} P u"
      "disk u = apply_writes ?ws (disk s)" "wtrace u = wtrace s @ ?ws" "blk u = apply_writes ?ws (blk s)"
    using Suc.IH Suc.prems(2) by auto
  note log = bframeD(1) [OF u(2)]
  have "lslot (the_log s) i \<noteq> lblock (the_log s) k" if "i < k" for i
    using Suc.prems(2) [of i] Suc.prems(2) [of k] that by auto
  then have "lblock (the_log s) k \<notin> fst ` set ?ws" by fastforce
  then have cont: "blk u (lblock (the_log s) k) = blk s (lblock (the_log s) k)"
    by (simp add: u(6) apply_writes_other)
  obtain t where t: "write_log_one k u = Ok () t" "bframe u t" "cache {} P t"
      "disk t = (disk u)(lslot (the_log s) k := blk s (lblock (the_log s) k))"
      "wtrace t = wtrace u @ [(lslot (the_log s) k, blk s (lblock (the_log s) k))]"
      "blk t = (blk u)(lslot (the_log s) k := blk s (lblock (the_log s) k))"
    by (rule write_log_one_run [OF u(3), of "lslot (the_log s) k" k "lblock (the_log s) k"])
      (use log dev room Suc.prems(2) cont in simp_all)
  show ?case
    by (rule Suc.prems(1) [of t])
      (use u t in \<open>simp_all add: for_each_append bframe_trans [OF u(2) t(2)]\<close>)
qed

lemma install_prefix:
  assumes c: "cache {} P s" and dev: "log_dev (the_log s) = ROOTDEV" and room: "card P < NBUF"
    and ok: "\<And>i. i < k \<Longrightarrow> lslot (the_log s) i \<notin> P"
      "\<And>i j. i < k \<Longrightarrow> j < k \<Longrightarrow> lblock (the_log s) i \<noteq> lslot (the_log s) j"
    and rec: "if r then P = {} else (\<forall>i < k. lblock (the_log s) i \<in> P) \<and> inj_on (lblock (the_log s)) {..<k}"
  defines "ws \<equiv> map (\<lambda>i. (lblock (the_log s) i, disk s (lslot (the_log s) i))) [0..<k]"
  obtains t where "for_each [0..<k] (install_one r) s = Ok () t" and "bframe s t"
    and "cache {} (P - lblock (the_log s) ` {..<k}) t"
    and "disk t = apply_writes ws (disk s)" and "wtrace t = wtrace s @ ws"
    and "blk t = apply_writes ws (blk s)"
  using ok rec unfolding ws_def
proof (induction k arbitrary: thesis)
  case 0
  show ?case by (rule "0.prems"(1) [of s]) (use c in simp_all)
next
  case (Suc k)
  let ?ws = "map (\<lambda>i. (lblock (the_log s) i, disk s (lslot (the_log s) i))) [0..<k]"
  let ?P = "P - lblock (the_log s) ` {..<k}"
  have rec': "if r then P = {} else (\<forall>i < k. lblock (the_log s) i \<in> P) \<and> inj_on (lblock (the_log s)) {..<k}"
    using Suc.prems(4) by (auto split: if_splits elim: inj_on_subset)
  obtain u where u: "for_each [0..<k] (install_one r) s = Ok () u" "bframe s u" "cache {} ?P u"
      "disk u = apply_writes ?ws (disk s)" "wtrace u = wtrace s @ ?ws" "blk u = apply_writes ?ws (blk s)"
    by (rule Suc.IH [OF _ _ _ rec']) (use Suc.prems(2,3) in \<open>simp_all add: less_SucI\<close>)
  note log = bframeD(1) [OF u(2)]
  have "lblock (the_log s) i \<noteq> lslot (the_log s) k" if "i < k" for i
    using Suc.prems(3) [of i k] that by auto
  then have "lslot (the_log s) k \<notin> fst ` set ?ws" by fastforce
  then have cont: "disk u (lslot (the_log s) k) = disk s (lslot (the_log s) k)"
    by (simp add: u(4) apply_writes_other)
  have "card ?P \<le> card P" using cacheD(4) [OF c] by (intro card_mono) auto
  then have room': "card ?P < NBUF" using room by simp
  have in_P: "if r then ?P = {} else lblock (the_log s) k \<in> ?P"
  proof (cases r)
    case False
    then have "inj_on (lblock (the_log s)) {..<Suc k}" "lblock (the_log s) k \<in> P"
      using Suc.prems(4) by auto
    then have "lblock (the_log s) k \<notin> lblock (the_log s) ` {..<k}"
      by (auto simp: lessThan_Suc)
    with False \<open>lblock (the_log s) k \<in> P\<close> show ?thesis by simp
  qed (use Suc.prems(4) in simp)
  obtain t where t: "install_one r k u = Ok () t" "bframe u t" "cache {} (?P - {lblock (the_log s) k}) t"
      "disk t = (disk u)(lblock (the_log s) k := disk s (lslot (the_log s) k))"
      "wtrace t = wtrace u @ [(lblock (the_log s) k, disk s (lslot (the_log s) k))]"
      "blk t = (blk u)(lblock (the_log s) k := disk s (lslot (the_log s) k))"
    by (rule install_one_run [OF u(3), of "lslot (the_log s) k" k "lblock (the_log s) k" r])
      (use log dev room' in_P Suc.prems(2,3) cont in simp_all)
  have "?P - {lblock (the_log s) k} = P - lblock (the_log s) ` {..<Suc k}"
    unfolding lessThan_Suc image_insert by blast
  with t(3) have "cache {} (P - lblock (the_log s) ` {..<Suc k}) t" by simp
  then show ?case
    by (intro Suc.prems(1) [of t])
      (use u t in \<open>simp_all add: for_each_append bframe_trans [OF u(2) t(2)]\<close>)
qed

lemma bframe_upd_log:
  assumes "bframe s t"
  shows "bframe (s\<lparr>the_log := l\<rparr>) (t\<lparr>the_log := l\<rparr>)"
proof -
  have "t\<lparr>the_log := l\<rparr>\<lparr>bufs := bufs s, procs := procs s, disk := disk s, wtrace := wtrace s, msgs := msgs s\<rparr> =
    (t\<lparr>bufs := bufs s, procs := procs s, disk := disk s, wtrace := wtrace s, msgs := msgs s\<rparr>)\<lparr>the_log := l\<rparr>"
    by simp
  with assms show ?thesis by (simp add: bframe_def)
qed

lemma bframe_upd_held:
  assumes "bframe s t"
  shows "bframe (s\<lparr>held := h\<rparr>) (t\<lparr>held := h\<rparr>)"
proof -
  have "t\<lparr>held := h\<rparr>\<lparr>bufs := bufs s, procs := procs s, disk := disk s, wtrace := wtrace s, msgs := msgs s\<rparr> =
    (t\<lparr>bufs := bufs s, procs := procs s, disk := disk s, wtrace := wtrace s, msgs := msgs s\<rparr>)\<lparr>held := h\<rparr>"
    by simp
  with assms show ?thesis by (simp add: bframe_def)
qed

section \<open>The header\<close>

lemma put_blocks:
  fixes f :: "nat \<Rightarrow> u32"
  assumes "length d = BSIZE" and "k \<le> 255"
  defines "D \<equiv> fold (\<lambda>i d. put32 d (4 + 4 * i) (f i)) [0..<k] d"
  shows "length D = BSIZE" and "get32 D 0 = get32 d 0" and "i < k \<Longrightarrow> get32 D (4 + 4 * i) = f i"
proof -
  have "length D = BSIZE \<and> get32 D 0 = get32 d 0 \<and> (\<forall>i < k. get32 D (4 + 4 * i) = f i)"
    using assms(1,2) unfolding D_def
  proof (induction k)
    case 0
    then show ?case by simp
  next
    case (Suc k)
    let ?D = "fold (\<lambda>i d. put32 d (4 + 4 * i) (f i)) [0..<k] d"
    have IH: "length ?D = BSIZE" "get32 ?D 0 = get32 d 0" "\<And>i. i < k \<Longrightarrow> get32 ?D (4 + 4 * i) = f i"
      using Suc by auto
    have "get32 (put32 ?D (4 + 4 * k) (f k)) (4 + 4 * i) = f i" if "i < Suc k" for i
    proof (cases "i = k")
      case True
      then show ?thesis using IH(1) Suc.prems by simp
    next
      case False
      then show ?thesis using IH that Suc.prems by (subst get32_put32_other) auto
    qed
    moreover have "get32 (put32 ?D (4 + 4 * k) (f k)) 0 = get32 d 0"
      using IH Suc.prems by (subst get32_put32_other) auto
    ultimately show ?case using IH(1) Suc.prems by simp
  qed
  then show "length D = BSIZE" and "get32 D 0 = get32 d 0" and "i < k \<Longrightarrow> get32 D (4 + 4 * i) = f i"
    by auto
qed

lemma sint_of_small: "0 \<le> n \<Longrightarrow> n \<le> 30 \<Longrightarrow> sint (of_int n :: u32) = n"
  by (simp add: signed_of_int signed_take_bit_int_eq_self)

lemma write_hdr_props:
  assumes "length d = BSIZE" and "0 \<le> lh_n lh" and "lh_n lh \<le> 30"
  shows "length (write_hdr lh d) = BSIZE" and "sint (get32 (write_hdr lh d) 0) = lh_n lh"
    and "i < nat (lh_n lh) \<Longrightarrow> get32 (write_hdr lh d) (4 + 4 * i) = lh_block lh i"
proof -
  let ?d = "put32 d 0 (of_int (lh_n lh))"
  have d: "length ?d = BSIZE" using assms(1) by simp
  have k: "nat (lh_n lh) \<le> 255" using assms(3) by simp
  show "length (write_hdr lh d) = BSIZE" using put_blocks(1) [OF d k] by (simp add: write_hdr_def)
  show "sint (get32 (write_hdr lh d) 0) = lh_n lh"
    using put_blocks(2) [OF d k] assms by (simp add: write_hdr_def sint_of_small)
  show "get32 (write_hdr lh d) (4 + 4 * i) = lh_block lh i" if "i < nat (lh_n lh)"
    using put_blocks(3) [OF d k that] by (simp add: write_hdr_def)
qed

lemma read_hdr_props:
  "lh_n (read_hdr d lh) = sint (get32 d 0)"
  "i < nat (sint (get32 d 0)) \<Longrightarrow> lh_block (read_hdr d lh) i = get32 d (4 + 4 * i)"
proof -
  have "(fold (\<lambda>i f. f(i := g i)) [0..<k] f0) i = (if i < k then g i else f0 i)" for k f0 and g :: "nat \<Rightarrow> u32" and i :: nat
    by (induction k) (auto simp: less_Suc_eq)
  then show "lh_n (read_hdr d lh) = sint (get32 d 0)"
    "i < nat (sint (get32 d 0)) \<Longrightarrow> lh_block (read_hdr d lh) i = get32 d (4 + 4 * i)"
    by (simp_all add: read_hdr_def Let_def)
qed

lemma write_head_run:
  assumes c: "cache {} P s" and lg: "the_log s = lg" and dev: "log_dev lg = ROOTDEV"
    and st: "log_start lg \<notin> P" and room: "card P < NBUF"
    and n: "0 \<le> lh_n (log_lh lg)" "lh_n (log_lh lg) \<le> 30"
  defines "h \<equiv> write_hdr (log_lh lg) (disk s (log_start lg))"
  obtains t where "write_head s = Ok () t" and "bframe s t" and "cache {} P t"
    and "disk t = (disk s)(log_start lg := h)" and "wtrace t = wtrace s @ [(log_start lg, h)]"
    and "blk t = (blk s)(log_start lg := h)"
proof -
  have clean: "blk s (log_start lg) = disk s (log_start lg)" by (rule blk_clean [OF c st]) simp
  have len: "length h = BSIZE" unfolding h_def by (rule write_hdr_props(1)) (use cacheD(7) [OF c] n in simp_all)
  obtain i s1 where 1: "bread ROOTDEV (log_start lg) s = Ok i s1" "cache {i} P s1"
      "b_blockno (bufs s1 i) = log_start lg" "b_data (bufs s1 i) = disk s (log_start lg)"
      "blk s1 = blk s" "disk s1 = disk s" "wtrace s1 = wtrace s" "bframe s s1"
    by (rule bread_run [OF c, of "log_start lg"]) (use room clean in simp_all)
  note 2 = set_data_run [OF 1(2) _ len, of i]
  obtain s3 where 3: "bwrite i (set_data i h s1) = Ok () s3" "cache {i} P s3"
      "blk s3 = (blk s)(log_start lg := h)" "disk s3 = (disk s)(log_start lg := h)"
      "wtrace s3 = wtrace s @ [(log_start lg, h)]" "bufs s3 = bufs (set_data i h s1)"
      "bframe (set_data i h s1) s3"
    by (rule bwrite_run [OF 2(1), of i]) (use 1 2 in simp_all)
  obtain s4 where 4: "brelse i s3 = Ok () s4" "cache {} P s4" "blk s4 = blk s3" "disk s4 = disk s3"
      "wtrace s4 = wtrace s3" "bframe s3 s4"
    by (rule brelse_run [OF 3(2), of i]) (use 1(3) 3(4,6) in simp_all)
  have "bframe s s4" using 1(8) 3(7) 4(6) bframe_trans set_data_simps(3) by metis
  moreover have "write_head s = Ok () s4"
    using 1(1,4) 3(1) 4(1) dev lg bframeD(1) [OF 1(8)] by (simp add: write_head_def Let_def h_def)
  ultimately show thesis by (intro that [of s4]) (use 3 4 in simp_all)
qed

lemma read_head_run:
  assumes c: "cache {} P s" and lg: "the_log s = lg" and dev: "log_dev lg = ROOTDEV"
    and st: "log_start lg \<notin> P" and room: "card P < NBUF"
  defines "lg' \<equiv> lg\<lparr>log_lh := read_hdr (disk s (log_start lg)) (log_lh lg)\<rparr>"
  obtains t where "read_head s = Ok () t" and "bframe (s\<lparr>the_log := lg'\<rparr>) t" and "cache {} P t"
    and "disk t = disk s" and "wtrace t = wtrace s" and "blk t = blk s"
proof -
  have clean: "blk s (log_start lg) = disk s (log_start lg)" by (rule blk_clean [OF c st]) simp
  obtain i s1 where 1: "bread ROOTDEV (log_start lg) s = Ok i s1" "cache {i} P s1"
      "b_blockno (bufs s1 i) = log_start lg" "b_data (bufs s1 i) = disk s (log_start lg)"
      "blk s1 = blk s" "disk s1 = disk s" "wtrace s1 = wtrace s" "bframe s s1"
    by (rule bread_run [OF c, of "log_start lg"]) (use room clean in simp_all)
  have 2: "cache {i} P (s1\<lparr>the_log := lg'\<rparr>)" using 1(2) by simp
  obtain s3 where 3: "brelse i (s1\<lparr>the_log := lg'\<rparr>) = Ok () s3" "cache {} P s3" "blk s3 = blk s"
      "disk s3 = disk s" "wtrace s3 = wtrace s" "bframe (s1\<lparr>the_log := lg'\<rparr>) s3"
    by (rule brelse_run [OF 2, of i]) (use 1 in simp_all)
  have "bframe (s\<lparr>the_log := lg'\<rparr>) (s1\<lparr>the_log := lg'\<rparr>)"
    by (rule bframe_upd_log [OF 1(8)])
  then have "bframe (s\<lparr>the_log := lg'\<rparr>) s3" using 3(6) bframe_trans by blast
  moreover have "read_head s = Ok () s3"
    using 1(1,4) 3(1) dev lg bframeD(1) [OF 1(8)] by (simp add: read_head_def lg'_def)
  ultimately show thesis by (intro that [of s3]) (use 3 in simp_all)
qed

section \<open>Commit and recovery\<close>

text \<open>The disk area of the log, and a log in memory that is ready to commit: its blocks are the
  pinned ones, outside that area.\<close>

definition log_area :: "u32 \<Rightarrow> u32 set" where
  "log_area st = {b. \<exists>i \<le> LOGBLOCKS. b = st + of_nat i}"

definition log_ok :: "u32 set \<Rightarrow> log \<Rightarrow> bool" where
  "log_ok P lg \<longleftrightarrow>
     log_dev lg = ROOTDEV \<and> unat (log_start lg) + LOGBLOCKS < 2 ^ 32
     \<and> 0 \<le> lh_n (log_lh lg) \<and> lh_n (log_lh lg) \<le> int LOGBLOCKS
     \<and> P = lblock lg ` {..<nat (lh_n (log_lh lg))} \<and> inj_on (lblock lg) {..<nat (lh_n (log_lh lg))}
     \<and> P \<inter> log_area (log_start lg) = {}"

abbreviation nlog :: "log \<Rightarrow> nat" where
  "nlog lg \<equiv> nat (lh_n (log_lh lg))"

definition cleared :: "log \<Rightarrow> log" where
  "cleared lg = lg\<lparr>log_lh := (log_lh lg)\<lparr>lh_n := 0\<rparr>\<rparr>"

text \<open>The writes of a commit: the logged blocks, the header, the home blocks, the cleared
  header.\<close>

definition commit_trace :: "log \<Rightarrow> (u32 \<Rightarrow> byte list) \<Rightarrow> byte list \<Rightarrow> (u32 \<times> byte list) list" where
  "commit_trace lg f h =
     map (\<lambda>i. (lslot lg i, f (lblock lg i))) [0..<nlog lg]
     @ [(log_start lg, write_hdr (log_lh lg) h)]
     @ map (\<lambda>i. (lblock lg i, f (lblock lg i))) [0..<nlog lg]
     @ [(log_start lg, write_hdr (log_lh (cleared lg)) (write_hdr (log_lh lg) h))]"

lemma log_okD:
  assumes "log_ok P lg"
  shows "log_dev lg = ROOTDEV" "0 \<le> lh_n (log_lh lg)" "lh_n (log_lh lg) \<le> 30"
    "P = lblock lg ` {..<nlog lg}" "inj_on (lblock lg) {..<nlog lg}"
    "log_start lg \<notin> P" "i < 30 \<Longrightarrow> lslot lg i \<notin> P" "i < 30 \<Longrightarrow> lslot lg i \<noteq> log_start lg"
    "i < 30 \<Longrightarrow> j < 30 \<Longrightarrow> lslot lg i = lslot lg j \<longleftrightarrow> i = j" "card P = nlog lg"
    "i < 30 \<Longrightarrow> lslot lg i \<in> log_area (log_start lg)"
proof -
  show area: "i < 30 \<Longrightarrow> lslot lg i \<in> log_area (log_start lg)" for i
    by (auto simp: log_area_def lslot_def intro!: exI [of _ "Suc i"])
  show "log_dev lg = ROOTDEV" "0 \<le> lh_n (log_lh lg)" "lh_n (log_lh lg) \<le> 30"
    and P: "P = lblock lg ` {..<nlog lg}" and inj: "inj_on (lblock lg) {..<nlog lg}"
    using assms by (auto simp: log_ok_def)
  have "log_start lg \<in> log_area (log_start lg)" by (auto simp: log_area_def intro!: exI [of _ 0])
  with assms show "log_start lg \<notin> P" by (auto simp: log_ok_def)
  show "i < 30 \<Longrightarrow> lslot lg i \<notin> P" using assms area by (auto simp: log_ok_def)
  have slot: "lslot lg i = log_start lg + of_nat (Suc i)" for i by (simp add: lslot_def)
  show "i < 30 \<Longrightarrow> lslot lg i \<noteq> log_start lg"
    using word_offset_eq_iff [of "Suc i" 0 "log_start lg"] by (simp add: slot del: of_nat_Suc)
  show "i < 30 \<Longrightarrow> j < 30 \<Longrightarrow> lslot lg i = lslot lg j \<longleftrightarrow> i = j"
    using word_offset_eq_iff [of "Suc i" "Suc j" "log_start lg"] by (simp add: slot del: of_nat_Suc)
  show "card P = nlog lg" using P inj by (simp add: card_image)
qed

lemma commit_run:
  assumes c: "cache {} P s" and lg: "the_log s = lg" and ok: "log_ok P lg"
    and n: "0 < lh_n (log_lh lg)" "lh_n (log_lh lg) < 30"
  defines "tr \<equiv> commit_trace lg (blk s) (disk s (log_start lg))"
  obtains t where "commit s = Ok () t" and "bframe (s\<lparr>the_log := cleared lg\<rparr>) t" and "cache {} {} t"
    and "disk t = apply_writes tr (disk s)" and "wtrace t = wtrace s @ tr"
    and "blk t = apply_writes tr (blk s)"
proof -
  note D = log_okD [OF ok]
  let ?ws1 = "map (\<lambda>i. (lslot lg i, blk s (lblock lg i))) [0..<nlog lg]"
  let ?ws3 = "map (\<lambda>i. (lblock lg i, blk s (lblock lg i))) [0..<nlog lg]"
  let ?st = "log_start lg" and ?h = "write_hdr (log_lh lg) (disk s (log_start lg))"
  have room: "card P < NBUF" using D(2,10) n by simp
  have small: "i < 30" if "i < nlog lg" for i using that n by simp
  have mem: "lblock lg i \<in> P" if "i < nlog lg" for i unfolding D(4) using that by blast
  obtain s1 where 1: "write_log s = Ok () s1" "bframe s s1" "cache {} P s1"
      "disk s1 = apply_writes ?ws1 (disk s)" "wtrace s1 = wtrace s @ ?ws1" "blk s1 = apply_writes ?ws1 (blk s)"
    by (rule write_log_prefix [OF c, of "nlog lg"])
      (use D lg room small in \<open>auto simp: write_log_def\<close>)
  have st1: "disk s1 ?st = disk s ?st"
    unfolding 1(4) by (rule apply_writes_other) (use D(8) small in force)
  obtain s2 where 2: "write_head s1 = Ok () s2" "bframe s1 s2" "cache {} P s2"
      "disk s2 = (disk s1)(?st := ?h)" "wtrace s2 = wtrace s1 @ [(?st, ?h)]" "blk s2 = (blk s1)(?st := ?h)"
    by (rule write_head_run [OF 1(3), of lg]) (use D room st1 bframeD(1) [OF 1(2)] lg in simp_all)
  have lg2: "the_log s2 = lg" using bframeD(1) [OF 1(2)] bframeD(1) [OF 2(2)] lg by simp
  have slots: "disk s2 (lslot lg i) = blk s (lblock lg i)" if "i < nlog lg" for i
  proof -
    have "apply_writes ?ws1 (disk s) (lslot lg i) = blk s (lblock lg i)"
      by (rule apply_writes_same) (use that D(9) small in \<open>auto simp: image_image\<close>)
    then show ?thesis using D(8) small [OF that] by (simp add: 2(4) 1(4))
  qed
  then have ws3: "map (\<lambda>i. (lblock lg i, disk s2 (lslot lg i))) [0..<nlog lg] = ?ws3" by simp
  obtain s3 where 3: "install_trans False s2 = Ok () s3" "bframe s2 s3" "cache {} {} s3"
      "disk s3 = apply_writes ?ws3 (disk s2)" "wtrace s3 = wtrace s2 @ ?ws3" "blk s3 = apply_writes ?ws3 (blk s2)"
  proof (rule install_prefix [OF 2(3), of "nlog lg" False])
    show "lblock (the_log s2) i \<noteq> lslot (the_log s2) j" if "i < nlog lg" "j < nlog lg" for i j
      using mem [OF that(1)] D(7) [OF small [OF that(2)]] lg2 by metis
  qed (use D lg2 room small ws3 that in \<open>auto simp: install_trans_def\<close>)
  have st3: "disk s3 ?st = ?h"
    unfolding 3(4) by (subst apply_writes_other) (use D(4,6) 2(4) in auto)
  let ?s4 = "s3\<lparr>the_log := cleared lg\<rparr>"
  have 4: "cache {} {} ?s4" using 3(3) by simp
  obtain t where t: "write_head ?s4 = Ok () t" "bframe ?s4 t" "cache {} {} t"
      "disk t = (disk s3)(?st := write_hdr (log_lh (cleared lg)) ?h)"
      "wtrace t = wtrace s3 @ [(?st, write_hdr (log_lh (cleared lg)) ?h)]"
      "blk t = (blk s3)(?st := write_hdr (log_lh (cleared lg)) ?h)"
    by (rule write_head_run [OF 4, of "cleared lg"]) (use D(1) st3 in \<open>simp_all add: cleared_def\<close>)
  have "bframe s s3" using 1(2) 2(2) 3(2) bframe_trans by blast
  then have "bframe (s\<lparr>the_log := cleared lg\<rparr>) t" using t(2) bframe_trans bframe_upd_log by blast
  moreover have "commit s = Ok () t"
    using 1(1) 2(1) 3(1) t(1) n lg bframeD(1) [OF 3(2)] lg2 by (simp add: commit_def cleared_def)
  ultimately show thesis
    by (intro that [of t]) (use t 3 2 1 in \<open>simp_all add: tr_def commit_trace_def\<close>)
qed

text \<open>A header on the disk that recovery can follow, and the writes of the recovery.\<close>

definition hdr_blocks :: "byte list \<Rightarrow> u32 list" where
  "hdr_blocks h = map (\<lambda>i. get32 h (4 + 4 * i)) [0..<nat (sint (get32 h 0))]"

definition hdr_ok :: "u32 \<Rightarrow> byte list \<Rightarrow> bool" where
  "hdr_ok st h \<longleftrightarrow> 0 \<le> sint (get32 h 0) \<and> sint (get32 h 0) \<le> int LOGBLOCKS
     \<and> set (hdr_blocks h) \<inter> log_area st = {}"

definition log_fresh :: "u32 \<Rightarrow> log \<Rightarrow> bool" where
  "log_fresh st lg \<longleftrightarrow> log_start lg = st \<and> log_dev lg = ROOTDEV \<and> unat st + LOGBLOCKS < 2 ^ 32"

text \<open>Recovery empties the log in memory and keeps the rest of it.\<close>

definition log_reset :: "kstate \<Rightarrow> kstate \<Rightarrow> bool" where
  "log_reset s t \<longleftrightarrow> held t = held s \<and> lh_n (log_lh (the_log t)) = 0
     \<and> log_start (the_log t) = log_start (the_log s) \<and> log_dev (the_log t) = log_dev (the_log s)
     \<and> log_outstanding (the_log t) = log_outstanding (the_log s)
     \<and> log_committing (the_log t) = log_committing (the_log s)"

lemma recover_run:
  assumes c: "cache {} {} s" and lg: "log_fresh st (the_log s)" and h: "hdr_ok st (disk s st)"
  defines "bs \<equiv> hdr_blocks (disk s st)"
  obtains t where "recover_from_log s = Ok () t" and "cache {} {} t"
    and "\<And>b. b \<notin> log_area st \<Longrightarrow>
          disk t b = apply_writes (map (\<lambda>i. (bs ! i, disk s (lslot (the_log s) i))) [0..<length bs]) (disk s) b"
    and "sint (get32 (disk t st) 0) = 0" and "blk t = disk t" and "log_reset s t"
proof -
  define n where "n = nat (sint (get32 (disk s st) 0))"
  have n: "n \<le> 30" "length bs = n" "sint (get32 (disk s st) 0) = int n"
    using h by (auto simp: n_def bs_def hdr_blocks_def hdr_ok_def)
  define lg' where "lg' = (the_log s)\<lparr>log_lh := read_hdr (disk s st) (log_lh (the_log s))\<rparr>"
  have st: "log_start (the_log s) = st" "log_dev (the_log s) = ROOTDEV" using lg by (auto simp: log_fresh_def)
  have slot: "lslot lg' i = lslot (the_log s) i" for i by (simp add: lg'_def lslot_def)
  have block: "lblock lg' i = bs ! i" if "i < n" for i
    using that n_def by (simp add: lg'_def lblock_def read_hdr_props(2) bs_def hdr_blocks_def)
  have dev': "log_dev lg' = ROOTDEV" using st by (simp add: lg'_def)
  have nl: "nlog lg' = n" by (simp add: lg'_def n_def read_hdr_props(1))
  have area: "lslot (the_log s) i \<in> log_area st" if "i < n" for i
    using that n(1) st(1) by (auto simp: log_area_def lslot_def intro!: exI [of _ "Suc i"])
  have out: "bs ! i \<notin> log_area st" if "i < n" for i
    using h that n(2) nth_mem [of i bs] by (simp add: hdr_ok_def bs_def disjoint_iff)
  obtain s1 where 1: "read_head s = Ok () s1" "bframe (s\<lparr>the_log := lg'\<rparr>) s1" "cache {} {} s1"
      "disk s1 = disk s"
    by (rule read_head_run [OF c refl]) (use st lg'_def in simp_all)
  have lg1: "the_log s1 = lg'" using bframeD(1) [OF 1(2)] by simp
  let ?ws = "map (\<lambda>i. (bs ! i, disk s (lslot (the_log s) i))) [0..<n]"
  have ws: "map (\<lambda>i. (lblock lg' i, disk s1 (lslot lg' i))) [0..<n] = ?ws"
    using block by (simp add: slot 1(4))
  obtain s2 where 2: "install_trans True s1 = Ok () s2" "bframe s1 s2" "cache {} {} s2"
      "disk s2 = apply_writes (map (\<lambda>i. (lblock lg' i, disk s1 (lslot lg' i))) [0..<n]) (disk s1)"
  proof (rule install_prefix [OF 1(3), of n True])
    show "lblock (the_log s1) i \<noteq> lslot (the_log s1) j" if "i < n" "j < n" for i j
      using out [OF that(1)] area [OF that(2)] block [OF that(1)] lg1 slot by metis
  qed (use dev' lg1 nl that in \<open>simp_all add: install_trans_def\<close>)
  have d2: "disk s2 = apply_writes ?ws (disk s)" unfolding 2(4) ws by (simp only: 1(4))
  have lg2: "the_log s2 = lg'" using bframeD(1) [OF 2(2)] lg1 by simp
  have 3: "cache {} {} (s2\<lparr>the_log := cleared lg'\<rparr>)" using 2(3) by simp
  obtain t where t: "write_head (s2\<lparr>the_log := cleared lg'\<rparr>) = Ok () t" "cache {} {} t"
      "disk t = (disk s2)(st := write_hdr (log_lh (cleared lg')) (disk s2 st))"
      "bframe (s2\<lparr>the_log := cleared lg'\<rparr>) t"
    by (rule write_head_run [OF 3, of "cleared lg'"]) (use st in \<open>simp_all add: cleared_def lg'_def\<close>)
  have "recover_from_log s = Ok () t"
    using 1(1) 2(1) t(1) lg2 by (simp add: recover_from_log_def cleared_def)
  moreover have "st \<in> log_area st" by (auto simp: log_area_def intro!: exI [of _ 0])
  moreover have "sint (get32 (disk t st) 0) = 0"
    using write_hdr_props(2) [of "disk s2 st" "log_lh (cleared lg')"] cacheD(7) [OF 2(3)]
    by (simp add: t(3) cleared_def)
  moreover have "blk t = disk t" using blk_clean [OF t(2)] by auto
  moreover have "log_reset s t"
    using bframeD(1,3) [OF 1(2)] bframeD(1,3) [OF 2(2)] bframeD(1,3) [OF t(4)]
    by (simp add: log_reset_def cleared_def lg'_def)
  ultimately show thesis by (intro that [of t]) (use t d2 n(2) in auto)
qed

text \<open>What a prefix of a commit's writes leaves for recovery, in the three phases of the commit.\<close>

lemma crash_before_header:
  fixes f d :: "u32 \<Rightarrow> byte list" and h :: "byte list"
  assumes "log_ok P lg" and "j \<le> nlog lg"
  defines "d' \<equiv> apply_writes (take j (commit_trace lg f h)) d"
  shows "d' (log_start lg) = d (log_start lg)" and "b \<notin> log_area (log_start lg) \<Longrightarrow> d' b = d b"
proof -
  note D = log_okD [OF assms(1)]
  have "fst ` set (take j (commit_trace lg f h)) \<subseteq> lslot lg ` {..<nlog lg}"
    using assms(2) set_take_subset [of j "map (\<lambda>i. (lslot lg i, f (lblock lg i))) [0..<nlog lg]"]
    by (force simp: commit_trace_def)
  moreover have "lslot lg ` {..<nlog lg} \<subseteq> log_area (log_start lg) - {log_start lg}"
    using D(3,8,11) by auto
  ultimately have sub: "fst ` set (take j (commit_trace lg f h)) \<subseteq> log_area (log_start lg) - {log_start lg}"
    by blast
  show "d' (log_start lg) = d (log_start lg)" unfolding d'_def
    by (rule apply_writes_other) (use sub in blast)
  show "d' b = d b" if "b \<notin> log_area (log_start lg)" unfolding d'_def
    by (rule apply_writes_other) (use sub that in blast)
qed

lemma crash_after_header:
  fixes f d :: "u32 \<Rightarrow> byte list" and H :: "byte list" and m :: nat
  assumes "log_ok P lg"
  defines "st \<equiv> log_start lg"
  defines "d' \<equiv> apply_writes (map (\<lambda>i. (lslot lg i, f (lblock lg i))) [0..<nlog lg]
      @ (st, H) # map (\<lambda>i. (lblock lg i, f (lblock lg i))) [0..<m]) d"
  assumes "m \<le> nlog lg"
  shows "d' st = H" and "i < nlog lg \<Longrightarrow> d' (lslot lg i) = f (lblock lg i)"
    and "b \<notin> log_area st \<Longrightarrow> b \<notin> P \<Longrightarrow> d' b = d b" and "b \<in> lblock lg ` {..<m} \<Longrightarrow> d' b = f b"
proof -
  note D = log_okD [OF assms(1)]
  let ?d = "apply_writes (map (\<lambda>i. (lslot lg i, f (lblock lg i))) [0..<nlog lg]) d"
  let ?ws = "map (\<lambda>i. (lblock lg i, f (lblock lg i))) [0..<m]"
  have d': "d' = apply_writes ?ws (?d(st := H))" by (simp add: d'_def)
  have sub: "fst ` set ?ws \<subseteq> P" using D(4) assms(4) by auto
  have small: "k < 30" if "k < nlog lg" for k using that D(3) by simp
  show "d' st = H" unfolding d' by (subst apply_writes_other) (use sub D(6) in \<open>auto simp: st_def\<close>)
  show "d' (lslot lg i) = f (lblock lg i)" if "i < nlog lg"
  proof -
    have "?d (lslot lg i) = f (lblock lg i)"
      by (rule apply_writes_same) (use that D(9) small in \<open>auto simp: image_image\<close>)
    moreover have "lslot lg i \<notin> fst ` set ?ws" using sub D(7) [OF small [OF that]] by blast
    ultimately show ?thesis unfolding d' using D(8) [OF small [OF that]] by (simp add: apply_writes_other st_def)
  qed
  show "d' b = d b" if "b \<notin> log_area st" "b \<notin> P"
  proof -
    have "b \<notin> fst ` set (map (\<lambda>i. (lslot lg i, f (lblock lg i))) [0..<nlog lg])"
      using that(1) D(11) small by (auto simp: st_def)
    moreover have "st \<in> log_area st" by (auto simp: log_area_def intro!: exI [of _ 0])
    then have "b \<noteq> st" using that(1) by auto
    moreover have "b \<notin> fst ` set ?ws" using sub that(2) by blast
    ultimately show ?thesis unfolding d' by (simp add: apply_writes_other)
  qed
  show "d' b = f b" if "b \<in> lblock lg ` {..<m}"
    unfolding d' by (rule apply_writes_same) (use that in \<open>auto simp: image_image\<close>)
qed

lemma recover_nothing:
  assumes c: "cache {} {} r" and lg: "log_fresh st (the_log r)" and h: "sint (get32 (disk r st) 0) = 0"
  obtains t where "recover_from_log r = Ok () t" and "cache {} {} t"
    and "\<And>b. b \<notin> log_area st \<Longrightarrow> disk t b = disk r b"
    and "sint (get32 (disk t st) 0) = 0" and "blk t = disk t" and "log_reset r t"
proof -
  have bs: "hdr_blocks (disk r st) = []" using h by (simp add: hdr_blocks_def)
  then have "hdr_ok st (disk r st)" using h by (simp add: hdr_ok_def)
  from recover_run [OF c lg this] that bs show thesis by auto
qed

lemma recover_commit:
  assumes c: "cache {} {} r" and lg: "log_fresh (log_start lg) (the_log r)" and ok: "log_ok P lg"
    and h: "disk r (log_start lg) = write_hdr (log_lh lg) h" "length h = BSIZE"
    and slots: "\<And>i. i < nlog lg \<Longrightarrow> disk r (lslot lg i) = f (lblock lg i)"
  obtains t where "recover_from_log r = Ok () t" and "cache {} {} t"
    and "\<And>b. b \<notin> log_area (log_start lg) \<Longrightarrow> disk t b = (if b \<in> P then f b else disk r b)"
    and "sint (get32 (disk t (log_start lg)) 0) = 0" and "blk t = disk t" and "log_reset r t"
proof -
  note D = log_okD [OF ok]
  let ?bs = "hdr_blocks (disk r (log_start lg))"
  have bs: "?bs = map (lblock lg) [0..<nlog lg]"
    using write_hdr_props [OF h(2) D(2,3)] by (simp add: hdr_blocks_def h(1) lblock_def)
  have "hdr_ok (log_start lg) (disk r (log_start lg))"
  proof -
    have "sint (get32 (disk r (log_start lg)) 0) = lh_n (log_lh lg)"
      using write_hdr_props(2) [OF h(2) D(2,3)] by (simp add: h(1))
    moreover have "set ?bs = P" using D(4) by (simp add: bs atLeast0LessThan)
    moreover have "P \<inter> log_area (log_start lg) = {}" using ok unfolding log_ok_def by blast
    ultimately show ?thesis using D(2,3) by (simp add: hdr_ok_def)
  qed
  from recover_run [OF c lg this] obtain t where t: "recover_from_log r = Ok () t" "cache {} {} t"
      "\<And>b. b \<notin> log_area (log_start lg) \<Longrightarrow> disk t b =
        apply_writes (map (\<lambda>i. (?bs ! i, disk r (lslot (the_log r) i))) [0..<length ?bs]) (disk r) b"
      "sint (get32 (disk t (log_start lg)) 0) = 0" "blk t = disk t" "log_reset r t"
    by blast
  have slot: "lslot (the_log r) i = lslot lg i" for i using lg by (simp add: lslot_def log_fresh_def)
  have ws: "map (\<lambda>i. (?bs ! i, disk r (lslot (the_log r) i))) [0..<length ?bs] =
      map (\<lambda>i. (lblock lg i, f (lblock lg i))) [0..<nlog lg]"
    by (simp add: bs slots slot)
  have "apply_writes (map (\<lambda>i. (lblock lg i, f (lblock lg i))) [0..<nlog lg]) (disk r) b =
      (if b \<in> P then f b else disk r b)" for b
  proof (cases "b \<in> P")
    case True
    then show ?thesis using D(4) by (simp, intro apply_writes_same) (auto simp: image_image)
  next
    case False
    then have "b \<notin> fst ` set (map (\<lambda>i. (lblock lg i, f (lblock lg i))) [0..<nlog lg])"
      using D(4) by auto
    from apply_writes_other [OF this] False show ?thesis by auto
  qed
  with t that show thesis unfolding ws by auto
qed

lemma recover_after_crash:
  assumes ok: "log_ok P lg" and len: "length (d (log_start lg)) = BSIZE"
    and clean: "\<And>b. b \<notin> P \<Longrightarrow> f b = d b" and h0: "sint (get32 (d (log_start lg)) 0) = 0"
    and c: "cache {} {} r" and lg: "log_fresh (log_start lg) (the_log r)"
    and dr: "disk r = apply_writes (take j (commit_trace lg f (d (log_start lg)))) d"
  obtains t where "recover_from_log r = Ok () t" and "cache {} {} t" and "blk t = disk t" and "log_reset r t"
    and "sint (get32 (disk t (log_start lg)) 0) = 0"
    and "\<And>b. b \<notin> log_area (log_start lg) \<Longrightarrow> disk t b = (if j \<le> nlog lg then d b else f b)"
proof (cases "j \<le> nlog lg")
  case True
  note cr = crash_before_header [OF ok True, where f = f and d = d and h = "d (log_start lg)"]
  have "sint (get32 (disk r (log_start lg)) 0) = 0" using cr(1) h0 dr by simp
  from recover_nothing [OF c lg this] that True cr(2) dr show thesis by (metis (no_types, lifting))
next
  case False
  let ?n = "nlog lg" and ?st = "log_start lg"
  let ?H = "write_hdr (log_lh lg) (d ?st)" and ?ws1 = "map (\<lambda>i. (lslot lg i, f (lblock lg i))) [0..<nlog lg]"
  let ?ws3 = "\<lambda>m. map (\<lambda>i. (lblock lg i, f (lblock lg i))) [0..<m]"
  have tr: "commit_trace lg f (d ?st) =
      (?ws1 @ (?st, ?H) # ?ws3 ?n) @ [(?st, write_hdr (log_lh (cleared lg)) ?H)]"
    by (simp add: commit_trace_def)
  note D = log_okD [OF ok]
  note cr = crash_after_header [OF ok, where f = f and d = d and H = ?H]
  have lenH: "length ?H = BSIZE" using write_hdr_props(1) [OF len D(2,3)] .
  show thesis
  proof (cases "j \<le> 2 * ?n + 1")
    case True
    define m where "m = j - ?n - 1"
    have m: "m \<le> ?n" using True by (simp add: m_def)
    have "take j (commit_trace lg f (d ?st)) = ?ws1 @ (?st, ?H) # ?ws3 m"
      using False True unfolding tr m_def by (simp add: take_Cons' take_map Suc_diff_Suc)
    then have dr': "disk r = apply_writes (?ws1 @ (?st, ?H) # ?ws3 m) d" using dr by simp
    have "disk r ?st = ?H" "\<And>i. i < ?n \<Longrightarrow> disk r (lslot lg i) = f (lblock lg i)"
      unfolding dr' using cr(1,2) [OF m] by simp_all
    from recover_commit [OF c lg ok this(1) len this(2)] obtain t where
      t: "recover_from_log r = Ok () t" "cache {} {} t"
        "\<And>b. b \<notin> log_area ?st \<Longrightarrow> disk t b = (if b \<in> P then f b else disk r b)"
        "sint (get32 (disk t ?st) 0) = 0" "blk t = disk t" "log_reset r t"
      by blast
    have "disk t b = f b" if "b \<notin> log_area ?st" for b
      using t(3) [OF that] clean cr(3) [OF m that] unfolding dr' by auto
    with t that False show thesis by auto
  next
    case tail: False
    have "take j (commit_trace lg f (d ?st)) = commit_trace lg f (d ?st)"
      using tail by (simp add: commit_trace_def)
    then have dr': "disk r = (apply_writes (?ws1 @ (?st, ?H) # ?ws3 ?n) d)
        (?st := write_hdr (log_lh (cleared lg)) ?H)"
      using dr tr by simp
    have "sint (get32 (disk r ?st) 0) = 0"
      using write_hdr_props(2) [OF lenH, of "log_lh (cleared lg)"] by (simp add: dr' cleared_def)
    from recover_nothing [OF c lg this] obtain t where t: "recover_from_log r = Ok () t" "cache {} {} t"
        "\<And>b. b \<notin> log_area ?st \<Longrightarrow> disk t b = disk r b" "sint (get32 (disk t ?st) 0) = 0" "blk t = disk t" "log_reset r t"
      by blast
    have "disk t b = f b" if "b \<notin> log_area ?st" for b
    proof -
      have "?st \<in> log_area ?st" by (auto simp: log_area_def intro!: exI [of _ 0])
      then have "disk t b = apply_writes (?ws1 @ (?st, ?H) # ?ws3 ?n) d b"
        using t(3) [OF that] that unfolding dr' by auto
      then show ?thesis using cr(3) [OF order_refl that] cr(4) [OF order_refl] clean D(4) by (cases "b \<in> P") auto
    qed
    with t that False show thesis by auto
  qed
qed

end
