(* ===== verification/Trans.thy ===== *)
theory Trans
  imports Log
begin

text \<open>
  Transactions as the file system uses them: the invariant between \<open>begin_op\<close> and \<open>end_op\<close>,
  what reading, changing and releasing blocks do to it, and the properties of
  \<^verbatim>\<open>kernel/log.c\<close> as a whole.
\<close>

section \<open>Operations inside a transaction\<close>

text \<open>\<open>fs_inv H s\<close>: between the operations of a transaction the cache and the log agree, no
  spin lock is held, and the thread has locked the buffers \<open>H\<close>.\<close>

definition lset :: "kstate \<Rightarrow> u32 set" where
  "lset s = lblock (the_log s) ` {..<nlog (the_log s)}"

definition fs_inv :: "nat set \<Rightarrow> kstate \<Rightarrow> bool" where
  "fs_inv H s \<longleftrightarrow> cache H (lset s) s \<and> log_ok (lset s) (the_log s) \<and> held s = []
     \<and> 0 < log_outstanding (the_log s)"

lemma log_find_spec:
  "i + k = n \<Longrightarrow> (\<forall>j < i. f j \<noteq> b) \<Longrightarrow>
   (let m = log_find k f i b in m \<le> n \<and> (m < n \<longrightarrow> f m = b) \<and> (m = n \<longrightarrow> (\<forall>j < n. f j \<noteq> b)))"
proof (induction k arbitrary: i)
  case (Suc k)
  show ?case
  proof (cases "f i = b")
    case True
    with Suc.prems show ?thesis by simp
  next
    case False
    with Suc.prems(2) have "\<forall>j < Suc i. f j \<noteq> b" by (simp add: less_Suc_eq)
    with Suc.IH [of "Suc i"] Suc.prems(1) False show ?thesis by (simp add: Let_def)
  qed
qed simp

lemma log_write_run:
  assumes inv: "fs_inv H s" and i: "i \<in> H" and n: "lh_n (log_lh (the_log s)) < 30"
    and b: "b = b_blockno (bufs s i)" "b \<notin> log_area (log_start (the_log s))"
  obtains t where "log_write i s = Ok () t" and "fs_inv H t" and "blk t = blk s" and "disk t = disk s"
    and "wtrace t = wtrace s" and "lset t = insert b (lset s)"
    and "bframe (s\<lparr>the_log := the_log t\<rparr>) t" and "log_start (the_log t) = log_start (the_log s)"
    and "log_outstanding (the_log t) = log_outstanding (the_log s)"
    and "log_committing (the_log t) = log_committing (the_log s)"
    and "lh_n (log_lh (the_log t)) = lh_n (log_lh (the_log s)) + (if b \<in> lset s then 0 else 1)"
    and "\<And>j. b_blockno (bufs t j) = b_blockno (bufs s j)" and "\<And>j. b_data (bufs t j) = b_data (bufs s j)"
proof -
  let ?lg = "the_log s" and ?n = "nlog (the_log s)"
  have c: "cache H (lset s) s" and ok: "log_ok (lset s) ?lg" and held: "held s = []"
    and out: "0 < log_outstanding ?lg"
    using inv by (auto simp: fs_inv_def)
  note D = log_okD [OF ok]
  let ?s1 = "s\<lparr>held := [L_log]\<rparr>"
  have c1: "cache H (lset s) ?s1"
    using c held by (simp add: cache_def cache_locks_free_def no_plocks_def)
  define m where "m = log_find ?n (lh_block (log_lh ?lg)) 0 b"
  have m: "m \<le> ?n" "m < ?n \<Longrightarrow> lblock ?lg m = b" "m = ?n \<Longrightarrow> j < ?n \<Longrightarrow> lblock ?lg j \<noteq> b" for j
    using log_find_spec [of 0 ?n ?n "lh_block (log_lh ?lg)" b]
    by (auto simp: m_def lblock_def Let_def)
  have find: "log_find ?n (lh_block (log_lh ?lg)) 0 (b_blockno (bufs s i)) = m"
    using b(1) by (simp add: m_def)
  have eqn: "int m = lh_n (log_lh ?lg) \<longleftrightarrow> m = ?n" using D(2) by auto
  show thesis
  proof (cases "m < ?n")
    case True
    then have "b \<in> lset s" using m(2) by (auto simp: lset_def)
    moreover have "(lh_block (log_lh ?lg))(m := b) = lh_block (log_lh ?lg)"
      using m(2) [OF True] by (auto simp: lblock_def)
    then have "log_write i s = Ok () s"
      using held n out True eqn b(1) find by (simp add: log_write_def Let_def)
    ultimately show thesis using inv by (intro that [of s]) (auto simp: insert_absorb)
  next
    case False
    then have mn: "m = ?n" using m(1) by simp
    then have new: "b \<notin> lset s" using m(3) by (auto simp: lset_def)
    define lg1 where "lg1 = ?lg\<lparr>log_lh := (log_lh ?lg)\<lparr>lh_block := (lh_block (log_lh ?lg))(m := b)\<rparr>\<rparr>"
    define lg2 where "lg2 = lg1\<lparr>log_lh := (log_lh lg1)\<lparr>lh_n := lh_n (log_lh lg1) + 1\<rparr>\<rparr>"
    have c2: "cache H (lset s) (?s1\<lparr>the_log := lg1\<rparr>)" using c1 by simp
    obtain s2 where 2: "bpin i (?s1\<lparr>the_log := lg1\<rparr>) = Ok () s2" "cache H (insert b (lset s)) s2"
        "blk s2 = blk s" "disk s2 = disk s" "wtrace s2 = wtrace s" "bframe (?s1\<lparr>the_log := lg1\<rparr>) s2"
        "\<And>j. b_blockno (bufs s2 j) = b_blockno (bufs s j)" "\<And>j. b_data (bufs s2 j) = b_data (bufs s j)"
      by (rule bpin_run [OF c2 i]) (use new b(1) in simp_all)
    let ?t = "s2\<lparr>the_log := lg2, held := []\<rparr>"
    have nl: "nlog lg2 = Suc ?n" using D(2) by (simp add: lg2_def lg1_def nat_add_distrib)
    have lb: "lblock lg2 j = (if j = ?n then b else lblock ?lg j)" for j
      by (simp add: lg2_def lg1_def lblock_def mn)
    have im: "lblock lg2 ` {..<nlog lg2} = insert b (lset s)"
      unfolding nl lessThan_Suc lset_def by (auto simp: lb)
    have "inj_on (lblock lg2) {..<nlog lg2}"
      using D(5) new unfolding nl lessThan_Suc lset_def by (auto simp: lb inj_on_def)
    moreover have "log_area (log_start lg2) = log_area (log_start ?lg)" "log_dev lg2 = ROOTDEV"
        "lh_n (log_lh lg2) = lh_n (log_lh ?lg) + 1" "log_start lg2 = log_start ?lg"
      using D(1) by (simp_all add: lg2_def lg1_def)
    ultimately have ok2: "log_ok (insert b (lset s)) lg2"
      using ok n b(2) im by (auto simp: log_ok_def)
    have "log_write i s = Ok () ?t"
      using held n out eqn mn b(1) 2(1) find bframeD(1,3) [OF 2(6)]
      by (simp add: log_write_def Let_def lg1_def lg2_def)
    moreover have lset: "lset ?t = insert b (lset s)" using im by (simp add: lset_def)
    have "cache H (insert b (lset s)) ?t"
      using 2(2) by (simp add: cache_def cache_locks_free_def no_plocks_def)
    then have "fs_inv H ?t" unfolding fs_inv_def lset
      using ok2 out by (simp add: lg2_def lg1_def)
    moreover have "bframe (s\<lparr>the_log := lg2\<rparr>) ?t"
      using bframe_upd_held [OF bframe_upd_log [OF 2(6), of lg2], of "[]"] held by simp
    ultimately show thesis
      by (intro that [of ?t]) (use 2 new lset in \<open>simp_all add: lg2_def lg1_def\<close>)
  qed
qed

text \<open>What an operation inside a transaction may change: besides the cache, the log's header; but
  nothing on the disk.\<close>

definition lframe :: "kstate \<Rightarrow> kstate \<Rightarrow> bool" where
  "lframe s t \<longleftrightarrow> bframe (s\<lparr>the_log := the_log t\<rparr>) t \<and> disk t = disk s \<and> wtrace t = wtrace s
     \<and> log_start (the_log t) = log_start (the_log s)
     \<and> log_outstanding (the_log t) = log_outstanding (the_log s)
     \<and> log_committing (the_log t) = log_committing (the_log s)"

lemma lframe_refl [simp]: "lframe s s"
  by (simp add: lframe_def)

lemma lframe_trans [trans]:
  assumes "lframe s t" and "lframe t u"
  shows "lframe s u"
proof -
  have "bframe (s\<lparr>the_log := the_log u\<rparr>) (t\<lparr>the_log := the_log u\<rparr>)"
    using bframe_upd_log [of _ _ "the_log u"] assms(1) unfolding lframe_def by force
  moreover have "bframe (t\<lparr>the_log := the_log u\<rparr>) u" using assms(2) by (simp add: lframe_def)
  ultimately have "bframe (s\<lparr>the_log := the_log u\<rparr>) u" by (rule bframe_trans)
  with assms show ?thesis by (simp add: lframe_def)
qed

lemma bframe_lframe: "bframe s t \<Longrightarrow> disk t = disk s \<Longrightarrow> wtrace t = wtrace s \<Longrightarrow> lframe s t"
  by (simp add: lframe_def bframeD(1))

lemma lframeD:
  assumes "lframe s t"
  shows "disk t = disk s" "wtrace t = wtrace s" "log_start (the_log t) = log_start (the_log s)"
    "log_outstanding (the_log t) = log_outstanding (the_log s)" "sb t = sb s" "cur t = cur s"
    "inodes t = inodes s" "files t = files s" "mem t = mem s" "freelist t = freelist s"
    "pipes t = pipes s" "held t = held s" "log_committing (the_log t) = log_committing (the_log s)"
  using assms bframeD [of "s\<lparr>the_log := the_log t\<rparr>" t] by (auto simp: lframe_def)

lemma cache_blk_length:
  assumes "cache H P s"
  shows "length (blk s b) = BSIZE"
proof (cases "\<exists>i < NBUF. b_valid (bufs s i) \<and> b_blockno (bufs s i) = b")
  case True
  then show ?thesis using blk_valid [OF assms] cacheD(8) [OF assms] by (auto simp: buf_ok_def)
next
  case False
  then have "blk s b = disk s b" by (intro blk_not_cached) auto
  then show ?thesis using cacheD(7) [OF assms] by simp
qed

lemma fs_invD:
  assumes "fs_inv H s"
  shows "cache H (lset s) s" "log_ok (lset s) (the_log s)" "held s = []"
    "0 < log_outstanding (the_log s)" "card (lset s) = nlog (the_log s)"
    "finite H" "i \<in> H \<Longrightarrow> i < NBUF" "i \<in> H \<Longrightarrow> length (b_data (bufs s i)) = BSIZE"
  using assms log_okD(10) cacheD(2,3) cache_heldD(6) by (auto simp: fs_inv_def)

text \<open>A locked buffer whose block is logged or unchanged may be released.\<close>

definition settled :: "kstate \<Rightarrow> nat \<Rightarrow> bool" where
  "settled s i \<longleftrightarrow> b_blockno (bufs s i) \<in> lset s \<or> b_data (bufs s i) = disk s (b_blockno (bufs s i))"

lemma lset_frame: "bframe s t \<Longrightarrow> lset t = lset s"
  by (simp add: lset_def bframeD(1))

lemma fs_inv_frame:
  "bframe s t \<Longrightarrow> fs_inv H s \<Longrightarrow> cache H' (lset s) t \<Longrightarrow> fs_inv H' t"
  by (simp add: fs_inv_def lset_frame bframeD)

lemma bread_fs:
  assumes inv: "fs_inv H s" and new: "\<And>j. j \<in> H \<Longrightarrow> b_blockno (bufs s j) \<noteq> b"
    and room: "card H + nlog (the_log s) < NBUF"
  obtains i t where "bread ROOTDEV b s = Ok i t" and "i \<notin> H" and "fs_inv (insert i H) t"
    and "b_blockno (bufs t i) = b" and "b_data (bufs t i) = blk s b" and "blk t = blk s"
    and "lframe s t" and "the_log t = the_log s" and "settled t i"
    and "\<And>j. j \<noteq> i \<Longrightarrow> bufs t j = bufs s j"
proof -
  note D = fs_invD [OF inv]
  have clean: "blk s b = disk s b" if "b \<notin> lset s" by (rule blk_clean [OF D(1) that new])
  obtain i t where t: "bread ROOTDEV b s = Ok i t" "i \<notin> H" "cache (insert i H) (lset s) t"
      "b_blockno (bufs t i) = b" "b_data (bufs t i) = blk s b" "blk t = blk s" "disk t = disk s"
      "wtrace t = wtrace s" "bframe s t" "\<And>j. j \<noteq> i \<Longrightarrow> bufs t j = bufs s j"
    by (rule bread_run [OF D(1) new]) (use room D(5) in auto)
  have "settled t i" using clean t(4,5,7) lset_frame [OF t(9)] by (auto simp: settled_def)
  with t show thesis
    by (intro that [of i t]) (simp_all add: bframe_lframe fs_inv_frame [OF t(9) inv] bframeD(1))
qed

lemma brelse_fs:
  assumes inv: "fs_inv H s" and i: "i \<in> H" and "settled s i"
  obtains t where "brelse i s = Ok () t" and "fs_inv (H - {i}) t" and "blk t = blk s"
    and "lframe s t" and "the_log t = the_log s"
    and "\<And>j. b_blockno (bufs t j) = b_blockno (bufs s j)"
    and "\<And>j. b_data (bufs t j) = b_data (bufs s j)"
proof (rule brelse_run [OF fs_invD(1) [OF inv] i])
  show "b_blockno (bufs s i) \<in> lset s \<or> b_data (bufs s i) = disk s (b_blockno (bufs s i))"
    using assms(3) by (simp add: settled_def)
  fix t
  assume t: "brelse i s = Ok () t" "cache (H - {i}) (lset s) t" "blk t = blk s" "disk t = disk s"
    "wtrace t = wtrace s" "bframe s t" "\<And>j. b_blockno (bufs t j) = b_blockno (bufs s j)"
    "\<And>j. b_data (bufs t j) = b_data (bufs s j)"
  show thesis
    by (rule that [OF t(1) _ t(3)])
      (use t in \<open>simp_all add: bframe_lframe fs_inv_frame [OF t(6) inv] bframeD(1)\<close>)
qed

text \<open>The idiom of the file system: read a block, change it, log it, release it.\<close>

lemma log_write_fs:
  assumes inv: "fs_inv H s" and i: "i \<in> H" and n: "nlog (the_log s) < 30"
    and b: "b = b_blockno (bufs s i)" "b \<notin> log_area (log_start (the_log s))"
  obtains t where "log_write i s = Ok () t" and "fs_inv H t" and "blk t = blk s" and "lframe s t"
    and "lset t = insert b (lset s)" and "settled t i"
    and "nlog (the_log t) = nlog (the_log s) + (if b \<in> lset s then 0 else 1)"
    and "\<And>j. b_blockno (bufs t j) = b_blockno (bufs s j)" and "\<And>j. b_data (bufs t j) = b_data (bufs s j)"
proof -
  have n': "lh_n (log_lh (the_log s)) < 30" "0 \<le> lh_n (log_lh (the_log s))"
    using n log_okD(2) [OF fs_invD(2) [OF inv]] by auto
  from log_write_run [OF inv i n'(1) b] obtain t where
    t: "log_write i s = Ok () t" "fs_inv H t" "blk t = blk s" "disk t = disk s" "wtrace t = wtrace s"
      "lset t = insert b (lset s)" "bframe (s\<lparr>the_log := the_log t\<rparr>) t"
      "log_start (the_log t) = log_start (the_log s)"
      "log_outstanding (the_log t) = log_outstanding (the_log s)"
      "log_committing (the_log t) = log_committing (the_log s)"
      "lh_n (log_lh (the_log t)) = lh_n (log_lh (the_log s)) + (if b \<in> lset s then 0 else 1)"
      "\<And>j. b_blockno (bufs t j) = b_blockno (bufs s j)" "\<And>j. b_data (bufs t j) = b_data (bufs s j)"
    by blast
  show thesis
    by (rule that [OF t(1-3)])
      (use t(4-) n'(2) b(1) in \<open>simp_all add: lframe_def settled_def nat_add_distrib\<close>)
qed

lemma fs_inv_set_data:
  assumes "fs_inv H s" and "i \<in> H" and "length d = BSIZE"
  shows "fs_inv H (set_data i d s)" and "blk (set_data i d s) = (blk s)(b_blockno (bufs s i) := d)"
    and "lframe s (set_data i d s)" and "lset (set_data i d s) = lset s"
  using set_data_run [OF fs_invD(1) [OF assms(1)] assms(2,3)] assms(1)
  by (auto simp: fs_inv_def lset_def bframe_lframe)

lemma update_run:
  assumes inv: "fs_inv H s" and new: "\<And>j. j \<in> H \<Longrightarrow> b_blockno (bufs s j) \<noteq> b"
    and room: "card H + nlog (the_log s) < NBUF" and area: "b \<notin> log_area (log_start (the_log s))"
    and len: "length d = BSIZE"
  obtains i s1 s2 s3 where "bread ROOTDEV b s = Ok i s1" and "b_data (bufs s1 i) = blk s b"
    and "b_blockno (bufs s1 i) = b" and "the_log s1 = the_log s"
    and "log_write i (set_data i d s1) = Ok () s2" and "brelse i s2 = Ok () s3"
    and "fs_inv H s3" and "blk s3 = (blk s)(b := d)" and "lframe s s3"
    and "lset s3 = insert b (lset s)"
    and "nlog (the_log s3) = nlog (the_log s) + (if b \<in> lset s then 0 else 1)"
    and "\<And>j. j \<in> H \<Longrightarrow> b_blockno (bufs s3 j) = b_blockno (bufs s j)"
    and "\<And>j. j \<in> H \<Longrightarrow> b_data (bufs s3 j) = b_data (bufs s j)"
proof -
  obtain i s1 where 1: "bread ROOTDEV b s = Ok i s1" "i \<notin> H" "fs_inv (insert i H) s1"
      "b_blockno (bufs s1 i) = b" "b_data (bufs s1 i) = blk s b" "blk s1 = blk s" "lframe s s1"
      "the_log s1 = the_log s" "\<And>j. j \<noteq> i \<Longrightarrow> bufs s1 j = bufs s j"
    by (rule bread_fs [OF inv new room]) simp_all
  let ?s1 = "set_data i d s1"
  note sd = fs_inv_set_data [OF 1(3) insertI1 len]
  have lset1: "lset s1 = lset s" using 1(8) by (simp add: lset_def)
  obtain s2 where 2: "log_write i ?s1 = Ok () s2" "fs_inv (insert i H) s2" "blk s2 = blk ?s1"
      "lframe ?s1 s2" "lset s2 = insert b (lset s)" "settled s2 i"
      "nlog (the_log s2) = nlog (the_log s) + (if b \<in> lset s then 0 else 1)"
      "\<And>j. b_blockno (bufs s2 j) = b_blockno (bufs ?s1 j)" "\<And>j. b_data (bufs s2 j) = b_data (bufs ?s1 j)"
    by (rule log_write_fs [OF sd(1) insertI1]) (use room area 1(4,8) sd(4) lset1 in simp_all)
  obtain s3 where 3: "brelse i s2 = Ok () s3" "fs_inv (insert i H - {i}) s3" "blk s3 = blk s2"
      "lframe s2 s3" "the_log s3 = the_log s2" "\<And>j. b_blockno (bufs s3 j) = b_blockno (bufs s2 j)"
      "\<And>j. b_data (bufs s3 j) = b_data (bufs s2 j)"
    by (rule brelse_fs [OF 2(2) insertI1 2(6)]) simp_all
  have fr: "lframe s s3" using 1(7) sd(3) 2(4) 3(4) lframe_trans by blast
  have keep: "b_blockno (bufs s3 j) = b_blockno (bufs s j)" "b_data (bufs s3 j) = b_data (bufs s j)"
    if "j \<in> H" for j
    using that 1(2,9) 2(8,9) 3(6,7) by (cases "j = i", auto)
  show thesis
    by (rule that [OF 1(1,5,4,8) 2(1) 3(1) _ _ fr])
      (use 1(2,4,6) 2(3,5,7) 3(2,3,5) sd(2) keep in \<open>auto simp: lset_def\<close>)
qed

section \<open>begin\_op and end\_op\<close>

lemma begin_op_run:
  assumes "held s = []" and "\<not> log_committing (the_log s)"
    and "lh_n (log_lh (the_log s)) + (log_outstanding (the_log s) + 1) * 10 \<le> 30"
  shows "begin_op s =
     Ok () (s\<lparr>the_log := (the_log s)\<lparr>log_outstanding := log_outstanding (the_log s) + 1\<rparr>\<rparr>)"
  using assms by (simp add: begin_op_def begin_op_loop_def Let_def)

lemma sleep_Block:
  assumes "cur s = Some p" and "held s = [lk]" and "lk \<noteq> L_proc p"
  shows "sleep ch lk s = Block (upd_proc p (\<lambda>q. q\<lparr>p_chan := Some ch, p_state := SLEEPING\<rparr>)
     (s\<lparr>held := [L_proc p]\<rparr>))"
  using assms by (simp add: sleep_def sched_def release_def)

lemma end_op_not_last:
  assumes "held s = []" and "\<not> log_committing (the_log s)" and "log_outstanding (the_log s) \<noteq> 1"
  shows "end_op s = Ok () (s\<lparr>the_log := (the_log s)\<lparr>log_outstanding := log_outstanding (the_log s) - 1\<rparr>,
     procs := woken Ch_log NPROC (cur s) (procs s)\<rparr>)"
  using assms by (simp add: end_op_defs Let_def wakeup_Ok no_plocks_def)

text \<open>The last operation of a transaction: the header on the disk is empty when it starts.\<close>

definition hdr_empty :: "kstate \<Rightarrow> bool" where
  "hdr_empty s \<longleftrightarrow> sint (get32 (disk s (log_start (the_log s))) 0) = 0"

lemma end_op_last:
  assumes inv: "fs_inv {} s" and one: "log_outstanding (the_log s) = 1"
    and com: "\<not> log_committing (the_log s)" and n: "nlog (the_log s) < 30"
  defines "tr \<equiv> (if nlog (the_log s) = 0 then []
      else commit_trace (the_log s) (blk s) (disk s (log_start (the_log s))))"
  obtains t where "end_op s = Ok () t" and "cache {} {} t" and "wtrace t = wtrace s @ tr"
    and "disk t = apply_writes tr (disk s)" and "blk t = apply_writes tr (blk s)"
    and "the_log t = (cleared (the_log s))\<lparr>log_outstanding := 0, log_committing := False\<rparr>"
    and "held t = []"
proof -
  note D = fs_invD [OF inv] and L = log_okD [OF fs_invD(2) [OF inv]]
  define lg where "lg = (the_log s)\<lparr>log_outstanding := 0, log_committing := True\<rparr>"
  let ?s1 = "s\<lparr>the_log := lg\<rparr>"
  have lgs: "log_lh lg = log_lh (the_log s)" "log_start lg = log_start (the_log s)"
    "lblock lg = lblock (the_log s)" "lslot lg = lslot (the_log s)" "log_dev lg = log_dev (the_log s)"
    by (simp_all add: lg_def lblock_def lslot_def fun_eq_iff)
  have c: "cache {} (lset s) ?s1" using D(1) by simp
  have ok: "log_ok (lset s) lg" using D(2) unfolding log_ok_def lgs .
  have trc: "commit_trace lg (blk s) (disk s (log_start lg)) =
      commit_trace (the_log s) (blk s) (disk s (log_start (the_log s)))"
    by (simp add: commit_trace_def lgs cleared_def)
  obtain u where u: "commit ?s1 = Ok () u" "bframe (s\<lparr>the_log := cleared lg\<rparr>) u" "cache {} {} u"
      "disk u = apply_writes tr (disk s)" "wtrace u = wtrace s @ tr" "blk u = apply_writes tr (blk s)"
  proof (cases "nlog (the_log s) = 0")
    case True
    then have z: "lh_n (log_lh (the_log s)) = 0" using L(2) by simp
    then have "lset s = {}" by (simp add: lset_def)
    moreover have "cleared lg = lg" using z by (simp add: cleared_def lgs lg_def)
    ultimately show thesis
      using that [of ?s1] c z True by (simp add: commit_def lgs tr_def)
  next
    case False
    with n L(2) have "0 < lh_n (log_lh lg)" "lh_n (log_lh lg) < 30" by (simp_all add: lgs)
    from commit_run [OF c _ ok this] obtain u where "commit ?s1 = Ok () u"
        "bframe (?s1\<lparr>the_log := cleared lg\<rparr>) u" "cache {} {} u"
        "disk u = apply_writes (commit_trace lg (blk ?s1) (disk ?s1 (log_start lg))) (disk ?s1)"
        "wtrace u = wtrace ?s1 @ commit_trace lg (blk ?s1) (disk ?s1 (log_start lg))"
        "blk u = apply_writes (commit_trace lg (blk ?s1) (disk ?s1 (log_start lg))) (blk ?s1)"
      by auto
    with trc False show thesis by (intro that [of u]) (simp_all add: tr_def)
  qed
  have hu: "held u = []" and lu: "the_log u = cleared lg"
    using bframeD(1,3) [OF u(2)] D(3) by simp_all
  define t where "t = u\<lparr>the_log := (cleared lg)\<lparr>log_committing := False\<rparr>,
      procs := woken Ch_log NPROC (cur u) (procs u)\<rparr>"
  have "end_op s = Ok () t"
    using D(3) one com u(1) hu lu
    by (simp add: end_op_defs Let_def lg_def [symmetric] t_def wakeup_Ok no_plocks_def)
  moreover have "cache {} {} t"
    using u(3) cache_frame(5) [where s = "u\<lparr>the_log := (cleared lg)\<lparr>log_committing := False\<rparr>\<rparr>"]
    by (simp add: t_def)
  moreover have "(cleared lg)\<lparr>log_committing := False\<rparr> =
      (cleared (the_log s))\<lparr>log_outstanding := 0, log_committing := False\<rparr>"
    by (simp add: cleared_def lg_def)
  ultimately show thesis
    by (intro that [of t]) (use u hu in \<open>simp_all add: t_def\<close>)
qed

end
