(* ===== verification/Crash.thy ===== *)
theory Crash
  imports Trans
begin

text \<open>
  Whole transactions: \<open>begin_op\<close>, any number of block updates, \<open>end_op\<close>, and a crash of the
  machine between any two of the disk writes they make, followed by \<open>binit\<close> and \<open>initlog\<close>
  of the next boot (\<^verbatim>\<open>kernel/log.c\<close>, \<^verbatim>\<open>kernel/bio.c\<close>).
\<close>

section \<open>A transaction\<close>

text \<open>The idiom every operation of \<^verbatim>\<open>kernel/fs.c\<close> uses on a block: read it, change its
  bytes, log it, release it.\<close>

definition update_block :: "u32 \<Rightarrow> byte list \<Rightarrow> kstate \<Rightarrow> unit kres" where
  "update_block b d s =
     bind (bread ROOTDEV b s) (\<lambda>i s.
     bind (log_write i (set_data i d s)) (\<lambda>_ s.
     brelse i s))"

definition transaction :: "(u32 \<times> byte list) list \<Rightarrow> kstate \<Rightarrow> unit kres" where
  "transaction us s =
     bind (begin_op s) (\<lambda>_ s.
     bind (for_each us (\<lambda>(b, d). update_block b d) s) (\<lambda>_ s.
     end_op s))"

text \<open>Between transactions: nothing is pinned, the log is empty in memory and on the disk.\<close>

definition log_idle :: "kstate \<Rightarrow> bool" where
  "log_idle s \<longleftrightarrow> cache {} {} s \<and> log_ok {} (the_log s) \<and> held s = []
     \<and> log_outstanding (the_log s) = 0 \<and> \<not> log_committing (the_log s) \<and> hdr_empty s"

text \<open>The machine after a crash that let the first \<open>k\<close> of the writes \<open>ws\<close> reach the disk: memory
  is lost, the next boot initialises the buffer cache and the log.\<close>

definition reboot :: "superblock \<Rightarrow> (u32 \<Rightarrow> byte list) \<Rightarrow> unit kres" where
  "reboot sbp d = initlog ROOTDEV sbp (boot d)"

section \<open>Lemmas\<close>

lemma log_ok_counters [simp]:
  "log_ok P (lg\<lparr>log_outstanding := n\<rparr>) = log_ok P lg" "log_ok P (lg\<lparr>log_committing := c\<rparr>) = log_ok P lg"
  by (simp_all add: log_ok_def lblock_def [abs_def])

lemma log_ok_empty: "log_ok {} lg \<Longrightarrow> lh_n (log_lh lg) = 0"
  using log_okD(2,10) [of "{}" lg] by simp

lemma update_block_run:
  assumes inv: "fs_inv {} s" and room: "nlog (the_log s) < NBUF"
    and area: "b \<notin> log_area (log_start (the_log s))" and len: "length d = BSIZE"
  obtains t where "update_block b d s = Ok () t" and "fs_inv {} t" and "blk t = (blk s)(b := d)"
    and "lframe s t" and "lset t = insert b (lset s)"
proof -
  obtain i s1 s2 s3 where
    "bread ROOTDEV b s = Ok i s1" "log_write i (set_data i d s1) = Ok () s2" "brelse i s2 = Ok () s3"
    "fs_inv {} s3" "blk s3 = (blk s)(b := d)" "lframe s s3" "lset s3 = insert b (lset s)"
    by (rule update_run [OF inv _ _ area len]) (use room in simp_all)
  then show thesis by (intro that [of s3]) (simp_all add: update_block_def)
qed

lemma updates_run:
  assumes "fs_inv {} s" and "card (lset s \<union> fst ` set us) < NBUF"
    and "fst ` set us \<inter> log_area (log_start (the_log s)) = {}" and "\<forall>u \<in> set us. length (snd u) = BSIZE"
  obtains t where "for_each us (\<lambda>(b, d). update_block b d) s = Ok () t" and "fs_inv {} t"
    and "blk t = apply_writes us (blk s)" and "lframe s t" and "lset t = lset s \<union> fst ` set us"
  using assms
proof (induction us arbitrary: s thesis)
  case (Cons u us)
  obtain b d where u: "u = (b, d)" by (cases u)
  have "card (lset s) \<le> card (lset s \<union> fst ` set (u # us))"
    by (rule card_mono) (auto simp: lset_def)
  then have room: "nlog (the_log s) < NBUF"
    using Cons.prems(3) fs_invD(5) [OF Cons.prems(2)] by linarith
  obtain s1 where 1: "update_block b d s = Ok () s1" "fs_inv {} s1" "blk s1 = (blk s)(b := d)"
      "lframe s s1" "lset s1 = insert b (lset s)"
    by (rule update_block_run [OF Cons.prems(2) room, of b d]) (use Cons.prems u in auto)
  obtain t where t: "for_each us (\<lambda>(b, d). update_block b d) s1 = Ok () t" "fs_inv {} t"
      "blk t = apply_writes us (blk s1)" "lframe s1 t" "lset t = lset s1 \<union> fst ` set us"
    by (rule Cons.IH [OF _ 1(2)])
      (use Cons.prems(3-) 1(5) lframeD(3) [OF 1(4)] u in \<open>auto simp: insert_commute\<close>)
  show ?case
    by (rule Cons.prems(1) [of t]) (use 1 t u lframe_trans in auto)
qed (auto simp: apply_writes_def)

lemma begin_op_idle:
  assumes "log_idle s"
  defines "t \<equiv> s\<lparr>the_log := (the_log s)\<lparr>log_outstanding := 1\<rparr>\<rparr>"
  shows "begin_op s = Ok () t" and "fs_inv {} t" and "lset t = {}"
proof -
  have n: "lh_n (log_lh (the_log s)) = 0" using assms(1) log_ok_empty by (simp add: log_idle_def)
  show "begin_op s = Ok () t"
    using assms(1) n by (simp add: begin_op_run log_idle_def t_def)
  show l: "lset t = {}" using n by (simp add: lset_def t_def)
  show "fs_inv {} t"
    using assms(1) n unfolding fs_inv_def l by (simp add: log_idle_def t_def log_ok_def)
qed

lemma apply_writes_length:
  "(\<forall>b. length (d b) = n) \<Longrightarrow> (\<forall>w \<in> set ws. length (snd w) = n) \<Longrightarrow>
   length (apply_writes ws d b) = n"
  by (induction ws arbitrary: d) auto

lemma commit_trace_length:
  assumes "log_ok P lg" and "\<And>b. length (f b) = BSIZE" and "length h = BSIZE"
  shows "\<forall>w \<in> set (commit_trace lg f h). length (snd w) = BSIZE"
proof -
  have "length (write_hdr (log_lh lg) h) = BSIZE"
    using write_hdr_props(1) [OF assms(3) log_okD(2,3) [OF assms(1)]] .
  moreover from this have "length (write_hdr (log_lh (cleared lg)) (write_hdr (log_lh lg) h)) = BSIZE"
    using write_hdr_props(1) [of _ "log_lh (cleared lg)"] by (simp add: cleared_def)
  ultimately show ?thesis using assms(2) by (auto simp: commit_trace_def)
qed

lemma commit_trace_effect:
  assumes ok: "log_ok P lg" and h: "length h = BSIZE"
  shows "b \<notin> log_area (log_start lg) \<Longrightarrow> apply_writes (commit_trace lg f h) f b = f b"
    and "sint (get32 (apply_writes (commit_trace lg f h) d (log_start lg)) 0) = 0"
proof -
  let ?H = "write_hdr (log_lh lg) h"
  have st: "log_start lg \<in> log_area (log_start lg)" by (auto simp: log_area_def intro!: exI [of _ 0])
  have tr: "commit_trace lg f h = (map (\<lambda>i. (lslot lg i, f (lblock lg i))) [0..<nlog lg]
      @ (log_start lg, ?H) # map (\<lambda>i. (lblock lg i, f (lblock lg i))) [0..<nlog lg])
      @ [(log_start lg, write_hdr (log_lh (cleared lg)) ?H)]"
    by (simp add: commit_trace_def)
  note cr = crash_after_header [OF ok, where f = f and d = f and H = ?H and m = "nlog lg"]
  show "apply_writes (commit_trace lg f h) f b = f b" if "b \<notin> log_area (log_start lg)"
  proof -
    have "b \<noteq> log_start lg" using that st by auto
    then show ?thesis
      using cr(3,4) that log_okD(4) [OF ok] unfolding tr apply_writes_simps(3)
      by (cases "b \<in> P") auto
  qed
  have "length ?H = BSIZE" using write_hdr_props(1) [OF h log_okD(2,3) [OF ok]] .
  then show "sint (get32 (apply_writes (commit_trace lg f h) d (log_start lg)) 0) = 0"
    using write_hdr_props(2) [of ?H "log_lh (cleared lg)"] unfolding tr apply_writes_simps(3)
    by (simp add: cleared_def)
qed

lemma boot_log:
  "held (boot d) = []" "log_outstanding (the_log (boot d)) = 0" "\<not> log_committing (the_log (boot d))"
  by (rule boot_bufs [of d], simp add: zero_defs)+

lemma reboot_run:
  assumes ok: "log_ok P lg" and sbp: "sb_logstart sbp = log_start lg"
    and len: "\<And>b. length (d b) = BSIZE" "\<And>b. length (f b) = BSIZE"
    and f: "\<And>b. b \<notin> P \<Longrightarrow> f b = d b" and h: "sint (get32 (d (log_start lg)) 0) = 0"
    and tr: "tr = (if nlog lg = 0 then [] else commit_trace lg f (d (log_start lg)))"
  obtains t where "reboot sbp (apply_writes (take j tr) d) = Ok () t" and "log_idle t"
    and "log_start (the_log t) = log_start lg"
    and "\<And>b. b \<notin> log_area (log_start lg) \<Longrightarrow> blk t b = (if j \<le> nlog lg then d b else f b)"
proof -
  define d' where "d' = apply_writes (take j tr) d"
  define r where "r = (boot d')\<lparr>the_log := (the_log (boot d'))
      \<lparr>log_start := log_start lg, log_dev := ROOTDEV\<rparr>\<rparr>"
  have "\<forall>w \<in> set (take j tr). length (snd w) = BSIZE"
    using commit_trace_length [OF ok, of f "d (log_start lg)"] len by (auto simp: tr dest: in_set_takeD)
  then have d': "length (d' b) = BSIZE" for b
    using apply_writes_length [of d BSIZE] len(1) by (simp add: d'_def)
  have c: "cache {} {} r" and dr: "disk r = d'"
    using boot_cache [of d', OF d'] by (simp_all add: r_def)
  have lg: "log_fresh (log_start lg) (the_log r)"
    using ok by (simp add: log_fresh_def r_def log_ok_def)
  obtain t where t: "recover_from_log r = Ok () t" "cache {} {} t" "blk t = disk t"
      "sint (get32 (disk t (log_start lg)) 0) = 0" "log_reset r t"
      "\<And>b. b \<notin> log_area (log_start lg) \<Longrightarrow> disk t b = (if j \<le> nlog lg then d b else f b)"
  proof (cases "nlog lg = 0")
    case True
    then have "d' = d" and fd: "f = d" using tr log_okD(4) [OF ok] f by (auto simp: d'_def)
    with h dr have h': "sint (get32 (disk r (log_start lg)) 0) = 0" by simp
    show thesis
      by (rule recover_nothing [OF c lg h'], rule that) (use \<open>d' = d\<close> fd dr in simp_all)
  next
    case False
    then have "disk r = apply_writes (take j (commit_trace lg f (d (log_start lg)))) d"
      by (simp add: dr d'_def tr)
    from recover_after_crash [OF ok len(1) f h c lg this] that show thesis by blast
  qed
  moreover have "reboot sbp (apply_writes (take j tr) d) = recover_from_log r"
    by (simp add: reboot_def initlog_def r_def d'_def sbp)
  moreover have lt: "log_start (the_log t) = log_start lg" using t(5) by (simp add: log_reset_def r_def)
  moreover have "log_idle t"
    using t(2,4,5) ok by (simp add: log_idle_def hdr_empty_def log_reset_def boot_log r_def log_ok_def)
  ultimately show thesis by (intro that [of t]) simp_all
qed

section \<open>A concrete system\<close>

text \<open>A freshly booted system with an empty log at block 2.\<close>

abbreviation zero_disk :: "u32 \<Rightarrow> byte list" where
  "zero_disk \<equiv> (\<lambda>_. replicate BSIZE 0)"

definition idle0 :: kstate where
  "idle0 = (boot zero_disk)\<lparr>the_log := (the_log (boot zero_disk))\<lparr>log_start := 2, log_dev := ROOTDEV\<rparr>\<rparr>"

lemma get32_zeros [simp]: "get32 (replicate n 0) off = 0"
proof -
  have "word_of (replicate k 0) = (0 :: u32)" for k by (induction k) simp_all
  then show ?thesis by (simp add: get32_def slice_def min_def)
qed

lemma idle0_idle: "log_idle idle0"
proof -
  have h: "lh_n (log_lh (the_log (boot zero_disk))) = 0"
    by (rule boot_bufs [of zero_disk]) (simp add: zero_defs)
  show ?thesis
    using boot_cache [of zero_disk] boot_log [of zero_disk] h
    by (simp add: log_idle_def idle0_def hdr_empty_def log_ok_def)
qed

lemma idle0_simps: "log_start (the_log idle0) = 2" "disk idle0 = zero_disk" "blk idle0 = zero_disk"
  "cur idle0 = Some 0"
  using boot_cache(2,3) [of zero_disk] boot_bufs [of zero_disk] by (simp_all add: idle0_def) force

lemma log_area_above: "unat st + 30 < unat b \<Longrightarrow> b \<notin> log_area st"
proof
  assume b: "unat st + 30 < unat b" and "b \<in> log_area st"
  then obtain i where i: "i \<le> 30" "b = st + of_nat i" by (auto simp: log_area_def)
  have "unat st + 30 < 2 ^ 32" 
  proof -
    have "unat b < 2 ^ LENGTH(32)" by (rule unsigned_less)
    with b show ?thesis by simp
  qed
  then have "unat (st + of_nat i) = unat st + i" using i(1) by (subst unat_add_no_wrap) simp_all
  with b i show False by simp
qed

section \<open>Properties\<close>

text \<open>C1: A transaction that updates at most \<open>MAXOPBLOCKS\<close> different blocks outside the log is
  atomic with respect to crashes: it returns, its updates are then what \<open>bread\<close> sees and the log is
  idle again; and if the machine stops after any number \<open>k\<close> of the disk writes it makes, the recovery
  at the next boot yields either every block as before the transaction or every block as after
  it.\<close>

theorem transaction_crash_atomic:
  assumes idle: "log_idle s" and sbp: "sb_logstart sbp = log_start (the_log s)"
    and blocks: "card (fst ` set us) \<le> MAXOPBLOCKS"
      "fst ` set us \<inter> log_area (log_start (the_log s)) = {}"
    and len: "\<forall>u \<in> set us. length (snd u) = BSIZE"
  shows "\<exists>t ws. transaction us s = Ok () t \<and> log_idle t \<and> wtrace t = wtrace s @ ws
     \<and> (\<forall>b. b \<notin> log_area (log_start (the_log s)) \<longrightarrow> blk t b = apply_writes us (blk s) b)
     \<and> (\<forall>k. \<exists>u. reboot sbp (apply_writes (take k ws) (disk s)) = Ok () u \<and> log_idle u
          \<and> ((\<forall>b. b \<notin> log_area (log_start (the_log s)) \<longrightarrow> blk u b = blk s b)
             \<or> (\<forall>b. b \<notin> log_area (log_start (the_log s)) \<longrightarrow> blk u b = apply_writes us (blk s) b)))"
proof -
  let ?s1 = "s\<lparr>the_log := (the_log s)\<lparr>log_outstanding := 1\<rparr>\<rparr>" and ?st = "log_start (the_log s)"
  note 1 = begin_op_idle [OF idle]
  obtain s2 where 2: "for_each us (\<lambda>(b, d). update_block b d) ?s1 = Ok () s2" "fs_inv {} s2"
      "blk s2 = apply_writes us (blk ?s1)" "lframe ?s1 s2" "lset s2 = lset ?s1 \<union> fst ` set us"
    by (rule updates_run [OF 1(2)]) (use 1(3) blocks len in auto)
  note F = lframeD [OF 2(4)] and I = fs_invD [OF 2(2)]
  have n: "nlog (the_log s2) \<le> 10" using I(5) 2(5) 1(3) blocks(1) by simp
  define tr where "tr = (if nlog (the_log s2) = 0 then []
      else commit_trace (the_log s2) (blk s2) (disk s2 (log_start (the_log s2))))"
  obtain t where t: "end_op s2 = Ok () t" "cache {} {} t" "wtrace t = wtrace s2 @ tr"
      "disk t = apply_writes tr (disk s2)" "blk t = apply_writes tr (blk s2)"
      "the_log t = (cleared (the_log s2))\<lparr>log_outstanding := 0, log_committing := False\<rparr>" "held t = []"
    by (rule end_op_last [OF 2(2)])
      (use F n idle in \<open>simp_all add: tr_def log_idle_def split del: if_split\<close>)
  have st: "log_start (the_log s2) = ?st" and d2: "disk s2 = disk s" and b2: "blk s2 = apply_writes us (blk s)"
    and old: "blk s = disk s"
    using F 2(3) idle blk_clean [of "{}" "{}" s] by (auto simp: log_idle_def)
  have len2: "length (disk s2 b) = BSIZE" "length (blk s2 b) = BSIZE" for b
    using cacheD(7) [OF I(1)] cache_blk_length [OF I(1)] by simp_all
  have tidle: "log_idle t"
    using t(2,4,6,7) commit_trace_effect(2) [OF I(2) len2(1)] log_okD(2-) [OF I(2)] I(2) idle d2 st
    by (auto simp: log_idle_def hdr_empty_def cleared_def log_ok_def tr_def)
  have "transaction us s = Ok () t" using 1(1) 2(1) t(1) by (simp add: transaction_def)
  moreover have "wtrace t = wtrace s @ tr" using t(3) F by simp
  moreover have "blk t b = apply_writes us (blk s) b" if "b \<notin> log_area ?st" for b
    using commit_trace_effect(1) [OF I(2) len2(1), of b] that t(5) st b2 by (simp add: tr_def)
  moreover have "\<exists>u. reboot sbp (apply_writes (take k tr) (disk s)) = Ok () u \<and> log_idle u
      \<and> ((\<forall>b. b \<notin> log_area ?st \<longrightarrow> blk u b = blk s b)
         \<or> (\<forall>b. b \<notin> log_area ?st \<longrightarrow> blk u b = apply_writes us (blk s) b))" for k
  proof -
    obtain u where "reboot sbp (apply_writes (take k tr) (disk s2)) = Ok () u" "log_idle u"
        "\<And>b. b \<notin> log_area (log_start (the_log s2)) \<Longrightarrow>
          blk u b = (if k \<le> nlog (the_log s2) then disk s2 b else blk s2 b)"
    proof (rule reboot_run [OF I(2), where sbp = sbp and d = "disk s2" and f = "blk s2" and tr = tr and j = k])
      show "blk s2 b = disk s2 b" if "b \<notin> lset s2" for b using blk_clean [OF I(1) that] by simp
    qed (use sbp st len2 idle d2 tr_def in \<open>simp_all add: log_idle_def hdr_empty_def\<close>)
    then show ?thesis using st d2 b2 old by (intro exI [of _ u]) auto
  qed
  ultimately show ?thesis using tidle by blast
qed

theorem transaction_crash_atomic_witness:
  "\<exists>t ws. transaction [(50, replicate BSIZE 1), (51, replicate BSIZE 2)] idle0 = Ok () t
     \<and> wtrace t = wtrace idle0 @ ws \<and> blk t 50 = replicate BSIZE 1
     \<and> (\<forall>k. \<exists>u. reboot (sb idle0\<lparr>sb_logstart := 2\<rparr>) (apply_writes (take k ws) zero_disk) = Ok () u
          \<and> (blk u 50 = replicate BSIZE 1 \<longleftrightarrow> blk u 51 = replicate BSIZE 2))"
proof -
  have out: "50 \<notin> log_area (2 :: u32)" "51 \<notin> log_area (2 :: u32)" by (rule log_area_above, simp)+
  have ne: "replicate BSIZE (0 :: byte) \<noteq> replicate BSIZE 1" "replicate BSIZE (0 :: byte) \<noteq> replicate BSIZE 2"
    by simp_all
  let ?us = "[(50 :: u32, replicate BSIZE 1), (51, replicate BSIZE (2 :: byte))]"
  have "card (fst ` set ?us) \<le> MAXOPBLOCKS" by simp
  moreover have "fst ` set ?us \<inter> log_area 2 = {}" using out by simp
  moreover have "\<forall>u \<in> set ?us. length (snd u) = BSIZE" by simp
  moreover have "sb_logstart (sb idle0\<lparr>sb_logstart := 2\<rparr>) = 2" by simp
  ultimately obtain t ws where t: "transaction ?us idle0 = Ok () t" "wtrace t = wtrace idle0 @ ws"
      "\<forall>b. b \<notin> log_area 2 \<longrightarrow> blk t b = apply_writes ?us zero_disk b"
      "\<forall>k. \<exists>u. reboot (sb idle0\<lparr>sb_logstart := 2\<rparr>) (apply_writes (take k ws) zero_disk) = Ok () u \<and> log_idle u
        \<and> ((\<forall>b. b \<notin> log_area 2 \<longrightarrow> blk u b = zero_disk b)
           \<or> (\<forall>b. b \<notin> log_area 2 \<longrightarrow> blk u b = apply_writes ?us zero_disk b))"
    using transaction_crash_atomic [OF idle0_idle, of "sb idle0\<lparr>sb_logstart := 2\<rparr>" ?us] unfolding idle0_simps
    by blast
  have "\<exists>u. reboot (sb idle0\<lparr>sb_logstart := 2\<rparr>) (apply_writes (take k ws) zero_disk) = Ok () u
      \<and> (blk u 50 = replicate BSIZE 1 \<longleftrightarrow> blk u 51 = replicate BSIZE 2)" for k
  proof -
    obtain u where u: "reboot (sb idle0\<lparr>sb_logstart := 2\<rparr>) (apply_writes (take k ws) zero_disk) = Ok () u"
        "(\<forall>b. b \<notin> log_area 2 \<longrightarrow> blk u b = zero_disk b)
         \<or> (\<forall>b. b \<notin> log_area 2 \<longrightarrow> blk u b = apply_writes ?us zero_disk b)"
      using t(4) by blast
    then show ?thesis using out ne by (intro exI [of _ u] conjI) auto
  qed
  with t(1,2) t(3) out(1) show ?thesis by auto
qed

lemma all_pinned:
  assumes c: "cache {} P s" and "card P = NBUF" and j: "j < NBUF"
  shows "b_valid (bufs s j)" and "b_blockno (bufs s j) \<in> P"
proof -
  define V where "V = {i. i < NBUF \<and> b_valid (bufs s i) \<and> b_blockno (bufs s i) \<in> P}"
  have "P \<subseteq> (\<lambda>i. b_blockno (bufs s i)) ` V" using cacheD(10) [OF c] by (fastforce simp: V_def)
  moreover have "finite V" by (simp add: V_def)
  ultimately have "NBUF \<le> card V" using assms(2) surj_card_le [of V P] by metis
  moreover have "V \<subseteq> {..<NBUF}" by (auto simp: V_def)
  ultimately have "V = {..<NBUF}" by (intro card_seteq) simp_all
  with j show "b_valid (bufs s j)" and "b_blockno (bufs s j) \<in> P" by (auto simp: V_def)
qed

text \<open>C28: With all of the log's blocks in use, the commit at \<open>end_op\<close> stops the kernel: every one of
  the \<open>NBUF\<close> buffers is pinned by a logged block, so that none is left to write the log
  through.\<close>

theorem full_log_commit_panics:
  assumes "fs_inv {} s" and "lh_n (log_lh (the_log s)) = int LOGBLOCKS"
    and "log_outstanding (the_log s) = 1" and "\<not> log_committing (the_log s)"
  shows "end_op s = Panic ''bget: no buffers''"
proof -
  note I = fs_invD [OF assms(1)] and L = log_okD [OF fs_invD(2) [OF assms(1)]]
  have card: "card (lset s) = NBUF" using I(5) assms(2) by simp
  let ?t = "s\<lparr>the_log := (the_log s)\<lparr>log_outstanding := 0, log_committing := True\<rparr>\<rparr>"
  obtain xs where "ring (bufs ?t) xs" using cacheD(1) [OF I(1)] by auto
  then have "bread ROOTDEV (lslot (the_log s) 0) ?t = Panic ''bget: no buffers''"
  proof (rule bread_no_buffers)
    fix j assume j: "j < NBUF"
    note pin = all_pinned [OF I(1) card j]
    have "b_blockno (bufs s j) \<noteq> lslot (the_log s) 0" using pin(2) L(7) [of 0] by auto
    then show "\<not> (b_dev (bufs ?t j) = ROOTDEV \<and> b_blockno (bufs ?t j) = lslot (the_log s) 0)" by simp
    show "b_refcnt (bufs ?t j) \<noteq> 0" using cacheD(8) [OF I(1) j] pin by (simp add: buf_ok_def)
  qed (simp add: I(3))
  then have "write_log ?t = Panic ''bget: no buffers''"
    using assms(2) L(1) by (simp add: write_log_def upt_conv_Cons write_log_one_def lslot_def)
  then show ?thesis using assms I(3) by (simp add: end_op_defs Let_def commit_def)
qed

theorem full_log_commit_panics_witness:
  "\<exists>s. lh_n (log_lh (the_log s)) = int LOGBLOCKS \<and> log_outstanding (the_log s) = 1
     \<and> end_op s = Panic ''bget: no buffers''"
proof -
  let ?us = "map (\<lambda>i. (of_nat (40 + i) :: u32, replicate BSIZE (1 :: byte))) [0..<29]"
  let ?s1 = "idle0\<lparr>the_log := (the_log idle0)\<lparr>log_outstanding := 1\<rparr>\<rparr>"
  note b = begin_op_idle [OF idle0_idle]
  have out: "of_nat (40 + i) \<notin> log_area (2 :: u32)" if "i < 30" for i
    by (rule log_area_above) (use that in \<open>simp add: unat_of_nat del: of_nat_add\<close>)
  have im: "fst ` set ?us = (\<lambda>i. of_nat (40 + i)) ` {..<29}" by (simp add: image_image atLeast0LessThan)
  have inj: "inj_on (\<lambda>i. of_nat (40 + i) :: u32) {..<30}"
  proof (rule inj_onI)
    fix x y assume "x \<in> {..<30}" "y \<in> {..<30}" "(of_nat (40 + x) :: u32) = of_nat (40 + y)"
    then have "unat (of_nat (40 + x) :: u32) = unat (of_nat (40 + y) :: u32)"
      and "40 + x < 2 ^ LENGTH(32)" and "40 + y < 2 ^ LENGTH(32)" by simp_all
    then show "x = y" unfolding unat_of_nat by simp
  qed
  have c29: "card (fst ` set ?us) = 29"
    unfolding im by (subst card_image) (use inj in \<open>auto intro: inj_on_subset\<close>)
  obtain s2 where 2: "for_each ?us (\<lambda>(b, d). update_block b d) ?s1 = Ok () s2" "fs_inv {} s2"
      "lframe ?s1 s2" "lset s2 = lset ?s1 \<union> fst ` set ?us"
    by (rule updates_run [OF b(2), of ?us]) (use b(3) c29 out im in \<open>auto simp: idle0_simps\<close>)
  have n2: "nlog (the_log s2) = 29" using fs_invD(5) [OF 2(2)] 2(4) b(3) c29 by simp
  obtain s3 where 3: "fs_inv {} s3" "lframe s2 s3" "lset s3 = insert (of_nat (40 + 29)) (lset s2)"
    by (rule update_block_run [OF 2(2), of "of_nat (40 + 29)" "replicate BSIZE 1"])
      (use n2 out [of 29] lframeD(3) [OF 2(3)] in \<open>auto simp: idle0_simps\<close>)
  have "of_nat (40 + 29) \<notin> lset s2"
    unfolding 2(4) b(3) im
  proof
    assume "of_nat (40 + 29) \<in> {} \<union> (\<lambda>i. of_nat (40 + i) :: u32) ` {..<29}"
    then obtain i where i: "i < 29" "(of_nat (40 + 29) :: u32) = of_nat (40 + i)" by auto
    from inj_onD [OF inj i(2)] i(1) show False by simp
  qed
  then have "nlog (the_log s3) = 30" using fs_invD(5) [OF 3(1)] 3(3) 2(4) b(3) c29 by simp
  then have n: "lh_n (log_lh (the_log s3)) = int LOGBLOCKS" by simp
  have o: "log_outstanding (the_log s3) = 1" "\<not> log_committing (the_log s3)"
    using lframeD(4,13) [OF 2(3)] lframeD(4,13) [OF 3(2)] idle0_idle by (simp_all add: log_idle_def)
  from full_log_commit_panics [OF 3(1) n o] n o show ?thesis by blast
qed

end
