(* ===== verification/Interleave.thy ===== *)
theory Interleave
  imports Crash
begin

text \<open>
  Several processes inside the log of \<^verbatim>\<open>kernel/log.c\<close> at once, as a transition system. A step is one critical
  section of the log's lock (\<open>begin_op\<close>, \<open>log_write\<close>, the two halves of \<open>end_op\<close>), or one piece of the commit
  that the last operation runs with no lock held (a block of \<open>write_log\<close>, \<open>write_head\<close>, a block of \<open>install_trans\<close>,
  the clearing of the count). Between any two steps other processes change everything but
  the log: the buffer cache and its locks, the disk, the process table, the process on the processor.
\<close>

section \<open>The steps\<close>

text \<open>The blocks every operation in progress has written.\<close>

type_synonym ops = "nat \<Rightarrow> u32 set option"

text \<open>Where the committing process is: at block \<open>k\<close> of the loop of \<open>write_log\<close>, before the first \<open>write_head\<close>, at
  block \<open>k\<close> of the loop of \<open>install_trans\<close>, before the second \<open>write_head\<close>, after \<open>commit\<close>.\<close>

datatype cpc = PLog nat | PHead | PInst nat | PHead0 | PDone

text \<open>No commit, or the commit of a process with the header it started from.\<close>

datatype phase = NoCommit | Com nat logheader cpc

definition commit_start :: "kstate \<Rightarrow> cpc" where
  "commit_start s = (if lh_n (log_lh (the_log s)) > 0 then PLog 0 else PDone)"

inductive tx_step :: "kstate \<times> ops \<times> phase \<Rightarrow> kstate \<times> ops \<times> phase \<Rightarrow> bool" where
  other: "the_log t = the_log s \<Longrightarrow> held t = [] \<Longrightarrow> tx_step (s, a, c) (t, a, c)"
| enter: "cur s = Some p \<Longrightarrow> a p = None \<Longrightarrow> begin_op s = Ok () t \<Longrightarrow> tx_step (s, a, c) (t, a(p \<mapsto> {}), c)"
| wait: "cur s = Some p \<Longrightarrow> a p = None \<Longrightarrow> begin_op s = Block t \<Longrightarrow> tx_step (s, a, c) (t\<lparr>held := []\<rparr>, a, c)"
| logged: "cur s = Some p \<Longrightarrow> a p = Some B \<Longrightarrow> b = b_blockno (bufs s i) \<Longrightarrow> card (insert b B) < MAXOPBLOCKS \<Longrightarrow>
    b \<notin> log_area (log_start (the_log s)) \<Longrightarrow> log_write i s = Ok () t \<Longrightarrow> tx_step (s, a, c) (t, a(p \<mapsto> insert b B), c)"
| leave: "cur s = Some p \<Longrightarrow> a p = Some B \<Longrightarrow> end_op_begin s = Ok False t \<Longrightarrow> tx_step (s, a, c) (t, a(p := None), c)"
| last: "cur s = Some p \<Longrightarrow> a p = Some B \<Longrightarrow> end_op_begin s = Ok True t \<Longrightarrow>
    tx_step (s, a, c) (t, a(p := None), Com p (log_lh (the_log t)) (commit_start t))"
| log_block: "int k < lh_n (log_lh (the_log s)) \<Longrightarrow> write_log_one k s = Ok () t \<Longrightarrow>
    tx_step (s, a, Com p h (PLog k)) (t, a, Com p h (PLog (Suc k)))"
| log_end: "\<not> int k < lh_n (log_lh (the_log s)) \<Longrightarrow> tx_step (s, a, Com p h (PLog k)) (s, a, Com p h PHead)"
| head: "write_head s = Ok () t \<Longrightarrow> tx_step (s, a, Com p h PHead) (t, a, Com p h (PInst 0))"
| install: "int k < lh_n (log_lh (the_log s)) \<Longrightarrow> install_one False k s = Ok () t \<Longrightarrow>
    tx_step (s, a, Com p h (PInst k)) (t, a, Com p h (PInst (Suc k)))"
| clear: "\<not> int k < lh_n (log_lh (the_log s)) \<Longrightarrow>
    tx_step (s, a, Com p h (PInst k)) (upd_lh (\<lambda>lh. lh\<lparr>lh_n := 0\<rparr>) s, a, Com p h PHead0)"
| head0: "write_head s = Ok () t \<Longrightarrow> tx_step (s, a, Com p h PHead0) (t, a, Com p h PDone)"
| finish: "end_op_finish s = Ok () t \<Longrightarrow> tx_step (s, a, Com p h PDone) (t, a, NoCommit)"

section \<open>The pieces of a commit keep the log\<close>

lemma acquire_OkD: "acquire l s = Ok x t \<Longrightarrow> t = s\<lparr>held := l # held s\<rparr>"
  by (auto simp: acquire_def split: if_splits)

lemma release_OkD: "release l s = Ok x t \<Longrightarrow> t = s\<lparr>held := remove1 l (held s)\<rparr>"
  by (auto simp: release_def split: if_splits)

lemma sleep_not_Ok: "sleep ch l s \<noteq> Ok x t"
  by (auto simp: sleep_def sched_def bind_eq_Ok split: option.splits if_splits)

definition log_kept :: "kstate \<Rightarrow> kstate \<Rightarrow> bool" where
  "log_kept s t \<longleftrightarrow> the_log t = the_log s \<and> held t = held s"

lemma log_kept_wakeup: "wakeup ch s = Ok x t \<Longrightarrow> log_kept s t"
  unfolding wakeup_def
  by (erule for_each_invariant [where P = "log_kept s"])
    (auto simp: log_kept_def wakeup_one_def bind_eq_Ok dest!: acquire_OkD release_OkD split: if_splits)

lemma log_kept_sleeplocks:
  "acquiresleep l s = Ok x t \<Longrightarrow> log_kept s t"
  "releasesleep l s = Ok x t \<Longrightarrow> log_kept s t"
  "holdingsleep l s = Ok y t \<Longrightarrow> log_kept s t"
  by (cases l; auto simp: acquiresleep_def acquiresleep_loop_def releasesleep_def holdingsleep_def bind_eq_Ok log_kept_def
      sleep_not_Ok dest!: acquire_OkD release_OkD log_kept_wakeup split: if_splits option.splits)+

lemma log_kept_simps [simp]:
  "log_kept s s" "log_kept s (t\<lparr>bufs := bs\<rparr>) = log_kept s t" "log_kept s (disk_rw i w t) = log_kept s t"
  "log_kept (s\<lparr>bufs := bs\<rparr>) t = log_kept s t"
  by (simp_all add: log_kept_def disk_rw_def Let_def)

lemma log_kept_trans [trans]: "log_kept s t \<Longrightarrow> log_kept t u \<Longrightarrow> log_kept s u"
  by (simp add: log_kept_def)

lemma log_kept_section:
  assumes "bind (acquire l s) (\<lambda>_ s. release l (f s)) = Ok x t" and "\<And>s. log_kept s (f s)"
  shows "log_kept s t"
  using assms(1) assms(2) [of "s\<lparr>held := l # held s\<rparr>"]
  by (auto simp: bind_eq_Ok log_kept_def dest!: acquire_OkD release_OkD)

lemma log_kept_bget:
  assumes "bget d b s = Ok i t"
  shows "log_kept s t"
proof -
  define u where "u = s\<lparr>held := L_bcache # held s\<rparr>"
  have got: "log_kept s t"
    if "bind (release L_bcache (u\<lparr>bufs := bs\<rparr>)) (\<lambda>_ s. bind (acquiresleep (SLbuf j) s) (\<lambda>_ s. Ok j s)) = Ok i t" for j bs
  proof -
    from that obtain v where "release L_bcache (u\<lparr>bufs := bs\<rparr>) = Ok () v" "acquiresleep (SLbuf j) v = Ok () t"
      by (auto simp: bind_eq_Ok)
    then have "log_kept s v" "log_kept v t" using log_kept_sleeplocks(1) by (auto simp: u_def log_kept_def dest!: release_OkD)
    then show ?thesis by (rule log_kept_trans)
  qed
  have "acquire L_bcache s = Ok () u" using assms by (auto simp: bget_def bind_eq_Ok u_def dest: acquire_OkD)
  with assms got show ?thesis unfolding bget_def
    by (auto simp del: find_cached.simps find_unused.simps split: option.split_asm)
qed

lemma log_kept_bread: "bread d b s = Ok i t \<Longrightarrow> log_kept s t"
  by (auto simp: bread_def bind_eq_Ok dest!: log_kept_bget split: if_splits)

lemma log_kept_bwrite: "bwrite i s = Ok x t \<Longrightarrow> log_kept s t"
  by (auto simp: bwrite_def bind_eq_Ok dest!: log_kept_sleeplocks(3) split: if_splits)

lemma log_kept_bunpin: "bunpin i s = Ok x t \<Longrightarrow> log_kept s t"
  unfolding bunpin_def by (erule log_kept_section) simp

lemma bind_OkE: "bind m f = Ok x t \<Longrightarrow> (\<And>y u. m = Ok y u \<Longrightarrow> f y u = Ok x t \<Longrightarrow> thesis) \<Longrightarrow> thesis"
  by (auto simp: bind_eq_Ok)

lemma LetE: "Let x f = y \<Longrightarrow> (\<And>z. z = x \<Longrightarrow> f z = y \<Longrightarrow> thesis) \<Longrightarrow> thesis"
  by simp

lemma log_kept_Let: "log_kept s x \<Longrightarrow> (\<And>y. log_kept s y \<Longrightarrow> log_kept s (f y)) \<Longrightarrow> log_kept s (Let x f)"
  by simp

lemma log_kept_If: "log_kept s x \<Longrightarrow> log_kept s y \<Longrightarrow> log_kept s (if c then x else y)"
  by simp

lemma log_kept_released: "log_kept (s\<lparr>held := l # held s\<rparr>) u \<Longrightarrow> release l u = Ok x t \<Longrightarrow> log_kept s t"
  by (auto simp: log_kept_def dest!: release_OkD)

lemma log_kept_bufs: "log_kept s u \<Longrightarrow> log_kept s (u\<lparr>bufs := bs\<rparr>)"
  by simp

lemma log_kept_brelse: "brelse i s = Ok x t \<Longrightarrow> log_kept s t"
  unfolding brelse_def
  apply (erule bind_OkE)
  apply (split if_split_asm, simp)
  apply (erule bind_OkE)+
  apply (drule acquire_OkD)
  apply (erule LetE)+
  apply (rule log_kept_trans, erule log_kept_sleeplocks(3), rule log_kept_trans, erule log_kept_sleeplocks(2))
  apply (erule log_kept_released [rotated])
  apply hypsubst
  apply (intro log_kept_If log_kept_Let log_kept_bufs log_kept_simps(1) | assumption)+
  done

lemma log_kept_commit:
  "write_log_one k s = Ok x t \<Longrightarrow> log_kept s t"
  "install_one False k s = Ok x t \<Longrightarrow> log_kept s t"
  "write_head s = Ok x t \<Longrightarrow> log_kept s t"
  by ((auto simp: write_log_one_def install_one_def write_head_def bind_eq_Ok Let_def set_data_def
      dest!: log_kept_bread log_kept_bwrite log_kept_bunpin log_kept_brelse)[]; simp add: log_kept_def)+

section \<open>The invariant\<close>

definition budget :: "ops \<Rightarrow> nat" where
  "budget a = (\<Sum>p \<in> dom a. 9 - card (the (a p)))"

lemma budget_upd:
  assumes "finite (dom a)" and "a p = Some B"
  shows "budget a = (9 - card B) + budget (a(p := None))"
proof -
  have d: "dom a = insert p (dom a - {p})" using assms(2) by auto
  have rest: "budget (a(p := None)) = (\<Sum>q \<in> dom a - {p}. 9 - card (the (a q)))"
    unfolding budget_def by (rule sum.cong) auto
  show "budget a = (9 - card B) + budget (a(p := None))"
    unfolding rest budget_def by (subst d) (use assms in \<open>simp add: sum.insert_remove\<close>)
qed

lemma budget_map_upd:
  "finite (dom a) \<Longrightarrow> budget (a(p \<mapsto> C)) = (9 - card C) + budget (a(p := None))"
  using budget_upd [of "a(p \<mapsto> C)" p C] by simp

lemma budget_le: "finite (dom a) \<Longrightarrow> budget a \<le> 9 * card (dom a)"
  unfolding budget_def using sum_bounded_above [of "dom a" "\<lambda>p. 9 - card (the (a p))" 9] by simp

lemma budget_new: "finite (dom a) \<Longrightarrow> a p = None \<Longrightarrow> budget (a(p \<mapsto> {})) = 9 + budget a"
  using budget_upd [of "a(p \<mapsto> {})" p "{}"] by (simp add: fun_upd_idem)

definition op_fits :: "kstate \<Rightarrow> bool" where
  "op_fits s \<longleftrightarrow> \<not> log_committing (the_log s)
     \<and> lh_n (log_lh (the_log s)) + (log_outstanding (the_log s) + 1) * 10 \<le> 30"

lemma begin_op_cases:
  assumes "held s = []" and "cur s = Some p"
  shows "begin_op s =
     (if op_fits s
      then Ok () (s\<lparr>the_log := (the_log s)\<lparr>log_outstanding := log_outstanding (the_log s) + 1\<rparr>\<rparr>)
      else Block (upd_proc p (\<lambda>q. q\<lparr>p_chan := Some Ch_log, p_state := SLEEPING\<rparr>)
        (s\<lparr>held := [L_proc p]\<rparr>)))"
  using assms by (auto simp: begin_op_def begin_op_loop_def Let_def op_fits_def sleep_Block)

text \<open>What holds of the log alone, without and with a commit in progress.\<close>

definition open_inv :: "kstate \<Rightarrow> ops \<Rightarrow> bool" where
  "open_inv s a \<longleftrightarrow> \<not> log_committing (the_log s) \<and> finite (dom a)
     \<and> log_outstanding (the_log s) = int (card (dom a))
     \<and> (\<forall>p B. a p = Some B \<longrightarrow> card B \<le> 9 \<and> B \<subseteq> lset s) \<and> nlog (the_log s) + budget a < 30"

definition header_at :: "logheader \<Rightarrow> cpc \<Rightarrow> logheader" where
  "header_at h pc = (if pc \<in> {PHead0, PDone} then h\<lparr>lh_n := 0\<rparr> else h)"

definition com_inv :: "kstate \<Rightarrow> ops \<Rightarrow> logheader \<Rightarrow> cpc \<Rightarrow> bool" where
  "com_inv s a h pc \<longleftrightarrow> log_committing (the_log s) \<and> a = Map.empty \<and> log_outstanding (the_log s) = 0
     \<and> log_lh (the_log s) = header_at h pc \<and> 0 \<le> lh_n h \<and> lh_n h < 30"

definition tx_inv :: "kstate \<times> ops \<times> phase \<Rightarrow> bool" where
  "tx_inv z \<longleftrightarrow> (case z of (s, a, c) \<Rightarrow> held s = [] \<and> log_ok (lset s) (the_log s)
     \<and> (case c of NoCommit \<Rightarrow> open_inv s a | Com p h pc \<Rightarrow> com_inv s a h pc))"

text \<open>No process is asleep in \<open>begin_op\<close> (the running one apart, which is not asleep).\<close>

definition no_waiters :: "kstate \<Rightarrow> bool" where
  "no_waiters s \<longleftrightarrow> (\<forall>q < NPROC. Some q \<noteq> cur s \<longrightarrow> \<not> (p_state (procs s q) = SLEEPING \<and> p_chan (procs s q) = Some Ch_log))"

lemma no_waiters_woken: "no_waiters (s\<lparr>the_log := l, procs := woken Ch_log NPROC (cur s) ps\<rparr>)"
  by (auto simp: no_waiters_def woken_def)

lemma tx_invD:
  assumes "tx_inv (s, a, c)"
  shows "held s = []" "log_ok (lset s) (the_log s)" "c = NoCommit \<Longrightarrow> open_inv s a" "c = Com p h pc \<Longrightarrow> com_inv s a h pc"
  using assms by (auto simp: tx_inv_def)

lemma lset_eq: "the_log t = the_log s \<Longrightarrow> lset t = lset s"
  by (simp add: lset_def)

lemma tx_inv_same:
  assumes "tx_inv (s, a, c)" and "the_log t = the_log s" and "held t = []"
  shows "tx_inv (t, a, c)"
  using assms lset_eq [OF assms(2)] by (simp add: tx_inv_def open_inv_def com_inv_def split: phase.splits)

lemma op_open:
  assumes "tx_inv (s, a, c)" and "a p = Some B"
  shows "c = NoCommit" "open_inv s a" "0 < log_outstanding (the_log s)" "card B \<le> 9" "B \<subseteq> lset s"
proof -
  show c: "c = NoCommit" using assms by (cases c) (auto simp: tx_inv_def com_inv_def)
  then show o: "open_inv s a" using tx_invD(3) [OF assms(1)] by simp
  then show "card B \<le> 9" "B \<subseteq> lset s" using assms(2) unfolding open_inv_def by blast+
  show "0 < log_outstanding (the_log s)" using o assms(2) by (auto simp: open_inv_def card_gt_0_iff)
qed

lemma tx_enter:
  assumes inv: "tx_inv (s, a, c)" and "cur s = Some p" "a p = None" and t: "begin_op s = Ok () t"
  shows "tx_inv (t, a(p \<mapsto> {}), c)"
proof -
  note I = tx_invD [OF inv]
  have fits: "op_fits s" and teq: "t = s\<lparr>the_log := (the_log s)\<lparr>log_outstanding := log_outstanding (the_log s) + 1\<rparr>\<rparr>"
    using t begin_op_cases [OF I(1) assms(2)] by (auto split: if_splits)
  have c: "c = NoCommit" using fits I(4) by (cases c) (auto simp: op_fits_def com_inv_def)
  have o: "open_inv s a" using I(3) c by simp
  then have fin: "finite (dom a)" "log_outstanding (the_log s) = int (card (dom a))" by (auto simp: open_inv_def)
  have lt: "lset t = lset s" by (simp add: teq lset_def lblock_def)
  have "lh_n (log_lh (the_log s)) + int (card (dom a)) * 10 \<le> 20" using fits fin(2) by (simp add: op_fits_def)
  then have "nlog (the_log s) + (9 + budget a) < 30" using budget_le [OF fin(1)] log_okD(2) [OF I(2)] by linarith
  moreover have "dom (a(p \<mapsto> {})) = insert p (dom a)" "p \<notin> dom a" using assms(3) by auto
  ultimately have "open_inv t (a(p \<mapsto> {}))"
    using o budget_new [OF fin(1) assms(3)] unfolding open_inv_def lt by (auto simp: teq)
  then show ?thesis using I c lt by (simp add: tx_inv_def teq)
qed

text \<open>\<open>log_write\<close> on the log alone, whatever the state of the buffer cache.\<close>

lemma log_write_log:
  assumes held: "held s = []" and ok: "log_ok (lset s) (the_log s)" and out: "0 < log_outstanding (the_log s)"
    and n: "nlog (the_log s) < 30" and b: "b = b_blockno (bufs s i)" "b \<notin> log_area (log_start (the_log s))"
  obtains t where "log_write i s = Ok () t" and "held t = []" and "log_ok (lset t) (the_log t)"
    and "lset t = insert b (lset s)" and "log_outstanding (the_log t) = log_outstanding (the_log s)"
    and "log_committing (the_log t) = log_committing (the_log s)"
proof -
  let ?lg = "the_log s" and ?n = "nlog (the_log s)"
  note D = log_okD [OF ok]
  define m where "m = log_find ?n (lh_block (log_lh ?lg)) 0 b"
  have m: "m \<le> ?n" "m < ?n \<Longrightarrow> lblock ?lg m = b" "m = ?n \<Longrightarrow> j < ?n \<Longrightarrow> lblock ?lg j \<noteq> b" for j
    using log_find_spec [of 0 ?n ?n "lh_block (log_lh ?lg)" b]
    by (auto simp: m_def lblock_def Let_def)
  have find: "log_find ?n (lh_block (log_lh ?lg)) 0 (b_blockno (bufs s i)) = m" using b(1) by (simp add: m_def)
  have eqn: "int m = lh_n (log_lh ?lg) \<longleftrightarrow> m = ?n" and n': "lh_n (log_lh ?lg) < 30" using D(2) n by auto
  show thesis
  proof (cases "m < ?n")
    case True
    then have "b \<in> lset s" using m(2) by (auto simp: lset_def)
    moreover have "(lh_block (log_lh ?lg))(m := b) = lh_block (log_lh ?lg)" using m(2) [OF True] by (auto simp: lblock_def)
    then have "log_write i s = Ok () s"
      using held n' out True eqn b(1) find by (simp add: log_write_def Let_def)
    ultimately show thesis using held ok by (intro that [of s]) (auto simp: insert_absorb)
  next
    case False
    then have mn: "m = ?n" using m(1) by simp
    then have new: "b \<notin> lset s" using m(3) by (auto simp: lset_def)
    define lg where "lg = ?lg\<lparr>log_lh := \<lparr>lh_n = lh_n (log_lh ?lg) + 1, lh_block = (lh_block (log_lh ?lg))(m := b)\<rparr>\<rparr>"
    define t where "t = s\<lparr>the_log := lg, bufs := (bufs s)(i := (bufs s i)\<lparr>b_refcnt := b_refcnt (bufs s i) + 1\<rparr>)\<rparr>"
    have nl: "nlog lg = Suc ?n" using D(2) by (simp add: lg_def nat_add_distrib)
    have lb: "lblock lg j = (if j = ?n then b else lblock ?lg j)" for j by (simp add: lg_def lblock_def mn)
    have im: "lset t = insert b (lset s)" unfolding lset_def t_def by (simp add: nl lessThan_Suc) (auto simp: lb)
    have "inj_on (lblock lg) {..<nlog lg}"
      using D(5) new unfolding nl lessThan_Suc lset_def by (auto simp: lb inj_on_def)
    moreover have "lblock lg ` {..<nlog lg} = insert b (lset s)" using im by (simp add: lset_def t_def)
    ultimately have "log_ok (insert b (lset s)) lg" using ok n' b(2) by (auto simp: log_ok_def lg_def)
    moreover have "log_write i s = Ok () t"
      using held n' out eqn mn b(1) find by (cases "log_lh ?lg") (simp add: log_write_def Let_def bpin_def lg_def t_def)
    ultimately show thesis using im by (intro that [of t]) (simp_all add: t_def lg_def held)
  qed
qed

lemma tx_write:
  assumes inv: "tx_inv (s, a, c)" and p: "a p = Some B" and b: "b = b_blockno (bufs s i)"
    and card: "card (insert b B) < MAXOPBLOCKS" and area: "b \<notin> log_area (log_start (the_log s))"
  obtains t where "log_write i s = Ok () t" and "tx_inv (t, a(p \<mapsto> insert b B), c)"
proof -
  note I = tx_invD(1,2) [OF inv] and O = op_open [OF inv p]
  have V: "finite (dom a)" "log_outstanding (the_log s) = int (card (dom a))" "nlog (the_log s) + budget a < 30"
    "\<not> log_committing (the_log s)" using O(2) by (auto simp: open_inv_def)
  obtain t where t: "log_write i s = Ok () t" "held t = []" "log_ok (lset t) (the_log t)" "lset t = insert b (lset s)"
      "log_outstanding (the_log t) = log_outstanding (the_log s)" "log_committing (the_log t) = log_committing (the_log s)"
    by (rule log_write_log [OF I O(3) _ b area]) (use V in simp)
  have fin: "finite (lset s)" "finite B" using O(5) finite_subset [of B "lset s"] by (auto simp: lset_def)
  have "nlog (the_log t) = card (insert b (lset s))" using log_okD(10) [OF t(3)] t(4) by simp
  then have n: "nlog (the_log t) + (9 - card (insert b B)) \<le> nlog (the_log s) + (9 - card B)"
    using log_okD(10) [OF I(2)] fin O(4,5) card by (auto simp: card_insert_if)
  have "nlog (the_log t) + budget (a(p \<mapsto> insert b B)) < 30"
    using n V(3) budget_upd [OF V(1) p] budget_map_upd [OF V(1), of p "insert b B"] by simp
  moreover have "dom (a(p \<mapsto> insert b B)) = dom a" using p by auto
  moreover have "\<forall>q C. (a(p \<mapsto> insert b B)) q = Some C \<longrightarrow> card C \<le> 9 \<and> C \<subseteq> lset t"
    using O(2,5) card t(4) by (auto simp: open_inv_def) blast
  ultimately have "open_inv t (a(p \<mapsto> insert b B))" using V t unfolding open_inv_def by simp
  then show thesis using that [OF t(1)] t O(1) by (simp add: tx_inv_def)
qed

text \<open>The first half of \<open>end_op\<close>.\<close>

lemma tx_leave:
  assumes inv: "tx_inv (s, a, c)" and p: "a p = Some B"
  obtains t where "end_op_begin s = Ok False t" and "tx_inv (t, a(p := None), c)" and "no_waiters t"
    | t where "end_op_begin s = Ok True t" and "tx_inv (t, a(p := None), Com p (log_lh (the_log t)) (commit_start t))"
proof -
  note I = tx_invD(1,2) [OF inv] and O = op_open [OF inv p]
  have V: "finite (dom a)" "log_outstanding (the_log s) = int (card (dom a))" "nlog (the_log s) + budget a < 30"
    "\<not> log_committing (the_log s)" using O(2) by (auto simp: open_inv_def)
  have d: "dom (a(p := None)) = dom a - {p}" "p \<in> dom a" using p by auto
  show thesis
  proof (cases "dom a = {p}")
    case True
    then have e: "a(p := None) = Map.empty" using d(1) by (simp only: dom_eq_empty_conv Diff_cancel)
    define t where "t = s\<lparr>the_log := (the_log s)\<lparr>log_outstanding := 0, log_committing := True\<rparr>\<rparr>"
    have "end_op_begin s = Ok True t" using I V True by (simp add: end_op_begin_def Let_def t_def)
    moreover have "lset t = lset s" by (simp add: t_def lset_def lblock_def)
    then have "tx_inv (t, a(p := None), Com p (log_lh (the_log t)) (commit_start t))"
      using I V log_okD(2) [OF I(2)]
      by (cases "log_lh (the_log s)") (auto simp: tx_inv_def com_inv_def e t_def header_at_def commit_start_def)
    ultimately show thesis by (rule that(2))
  next
    case False
    then have out: "log_outstanding (the_log s) \<noteq> 1" using V(2) d(2) by (metis card_1_singletonE of_nat_1_eq_iff singletonD)
    define t where "t = s\<lparr>the_log := (the_log s)\<lparr>log_outstanding := log_outstanding (the_log s) - 1\<rparr>,
      procs := woken Ch_log NPROC (cur s) (procs s)\<rparr>"
    have e: "end_op_begin s = Ok False t"
      using I V(4) out by (simp add: end_op_begin_def Let_def t_def wakeup_Ok no_plocks_def)
    have l: "lset t = lset s" by (simp add: t_def lset_def lblock_def)
    have "budget (a(p := None)) \<le> budget a" using budget_upd [OF V(1) p] by simp
    moreover have "1 \<le> card (dom a)" using V(1) d(2) by (auto simp: Suc_le_eq card_gt_0_iff)
    ultimately have "open_inv t (a(p := None))" using O(2) V d unfolding open_inv_def l by (auto simp: t_def)
    then have "tx_inv (t, a(p := None), c)" using I O(1) l by (simp add: tx_inv_def t_def)
    from that(1) [OF e this] show thesis using no_waiters_woken by (simp add: t_def)
  qed
qed

lemma tx_finish:
  assumes inv: "tx_inv (s, a, Com p h PDone)"
  obtains t where "end_op_finish s = Ok () t" and "tx_inv (t, a, NoCommit)" and "no_waiters t"
proof -
  note I = tx_invD(1,2) [OF inv]
  have C: "a = Map.empty" "log_outstanding (the_log s) = 0" "lh_n (log_lh (the_log s)) = 0"
    using tx_invD(4) [OF inv refl] by (auto simp: com_inv_def header_at_def)
  define t where "t = s\<lparr>the_log := (the_log s)\<lparr>log_committing := False\<rparr>, procs := woken Ch_log NPROC (cur s) (procs s)\<rparr>"
  have "end_op_finish s = Ok () t" using I by (simp add: end_op_finish_def t_def wakeup_Ok no_plocks_def)
  moreover have "lset t = lset s" by (simp add: t_def lset_def lblock_def)
  then have "tx_inv (t, a, NoCommit)" using I C by (simp add: tx_inv_def open_inv_def t_def budget_def)
  ultimately show thesis using that no_waiters_woken by (simp add: t_def)
qed

lemma tx_clear:
  assumes inv: "tx_inv (s, a, Com p h (PInst k))"
  shows "tx_inv (upd_lh (\<lambda>lh. lh\<lparr>lh_n := 0\<rparr>) s, a, Com p h PHead0)"
  using tx_invD(1,2) [OF inv] tx_invD(4) [OF inv refl]
  by (auto simp: tx_inv_def com_inv_def header_at_def log_ok_def lset_def)

lemma tx_piece:
  assumes "tx_inv (s, a, Com p h pc)" and "log_kept s t" and "header_at h pc' = header_at h pc"
  shows "tx_inv (t, a, Com p h pc')"
proof -
  have "tx_inv (t, a, Com p h pc)" using assms tx_invD(1) [OF assms(1)] by (intro tx_inv_same [OF assms(1)]) (auto simp: log_kept_def)
  with assms(3) show ?thesis by (simp add: tx_inv_def com_inv_def)
qed

lemma tx_inv_step:
  assumes "tx_step z z'" and "tx_inv z"
  shows "tx_inv z'"
  using assms
proof (induction rule: tx_step.induct)
  case (other t s a c)
  then show ?case using tx_inv_same by blast
next
  case (enter s p a t c)
  then show ?case using tx_enter by blast
next
  case (wait s p a t c)
  then have "the_log t = the_log s"
    using begin_op_cases [OF tx_invD(1) [OF wait(4)] wait(1)] by (auto split: if_splits)
  with wait(4) show ?case by (intro tx_inv_same [OF wait(4)]) auto
next
  case (logged s p a B b i t c)
  from tx_write [OF logged(7,2,3,4,5)] logged(6) show ?case by auto
next
  case (leave s p a B t c)
  from tx_leave [OF leave(4,2)] leave(3) show ?case by auto
next
  case (last s p a B t c)
  from tx_leave [OF last(4,2)] last(3) show ?case by auto
next
  case (finish s t a p h)
  from tx_finish [OF finish(2)] finish(1) show ?case by auto
qed (auto intro: tx_clear tx_piece dest: log_kept_commit simp: header_at_def)

lemma tx_inv_reach: "tx_step\<^sup>*\<^sup>* z z' \<Longrightarrow> tx_inv z \<Longrightarrow> tx_inv z'"
  by (induction rule: rtranclp_induct) (auto intro: tx_inv_step)

lemma tx_inv_idle:
  assumes "log_idle s"
  shows "tx_inv (s, Map.empty, NoCommit)"
proof -
  have "lset s = {}" using assms log_ok_empty by (auto simp: lset_def log_idle_def)
  then show ?thesis
    using assms log_ok_empty by (auto simp: tx_inv_def open_inv_def log_idle_def budget_def)
qed

text \<open>With no buffer locked by another process the whole operations return.\<close>

lemma tx_fs_inv: "tx_inv (s, a, c) \<Longrightarrow> a p = Some B \<Longrightarrow> cache {} (lset s) s \<Longrightarrow> fs_inv {} s"
  using tx_invD(1,2) op_open(3) by (simp add: fs_inv_def)

lemma tx_end_op:
  assumes inv: "tx_inv (s, a, c)" and p: "a p = Some B" and ch: "cache {} (lset s) s"
  shows "\<exists>t. end_op s = Ok () t"
proof -
  have V: "nlog (the_log s) < 30" "\<not> log_committing (the_log s)" using op_open(2) [OF inv p] by (auto simp: open_inv_def)
  show ?thesis
  proof (cases "log_outstanding (the_log s) = 1")
    case True
    show ?thesis by (rule end_op_last [OF tx_fs_inv [OF inv p ch] True V(2,1)]) blast
  next
    case False
    show ?thesis using end_op_not_last [OF tx_invD(1) [OF inv] V(2) False] by blast
  qed
qed

lemma tx_update_block:
  assumes inv: "tx_inv (s, a, c)" and p: "a p = Some B" and ch: "cache {} (lset s) s"
    and "b \<notin> log_area (log_start (the_log s))" "length d = BSIZE"
  shows "\<exists>t. update_block b d s = Ok () t \<and> disk t = disk s \<and> blk t = (blk s)(b := d)"
proof -
  have "nlog (the_log s) < NBUF" using op_open(2) [OF inv p] by (simp add: open_inv_def)
  from update_block_run [OF tx_fs_inv [OF inv p ch] this assms(4,5)]
  show ?thesis using lframeD by metis
qed

section \<open>The steps of one process compose to end\_op\<close>

lemma loop_steps:
  assumes "for_each [j..<n] f s = Ok x t" and "n = nlog (the_log s)" and "j \<le> n"
    and "\<And>k s t. f k s = Ok () t \<Longrightarrow> log_kept s t"
    and "\<And>k s t. int k < lh_n (log_lh (the_log s)) \<Longrightarrow> f k s = Ok () t \<Longrightarrow>
      tx_step (s, a, Com p h (P k)) (t, a, Com p h (P (Suc k)))"
  shows "tx_step\<^sup>*\<^sup>* (s, a, Com p h (P j)) (t, a, Com p h (P n)) \<and> log_kept s t"
  using assms(3,1,2)
proof (induction arbitrary: s rule: inc_induct)
  case base
  then show ?case by simp
next
  case (step m)
  from step.prems(1) step.hyps obtain u where u: "f m s = Ok () u" "for_each [Suc m..<n] f u = Ok x t"
    by (auto simp: upt_conv_Cons bind_eq_Ok)
  have k: "log_kept s u" by (rule assms(4) [OF u(1)])
  then have "n = nlog (the_log u)" using step.prems(2) by (simp add: log_kept_def)
  from step.IH [OF u(2) this]
  have r: "tx_step\<^sup>*\<^sup>* (u, a, Com p h (P (Suc m))) (t, a, Com p h (P n))" and kt: "log_kept u t" by auto
  have "int m < lh_n (log_lh (the_log s))" using step by simp
  from assms(5) [OF this u(1)] r have "tx_step\<^sup>*\<^sup>* (s, a, Com p h (P m)) (t, a, Com p h (P n))"
    by (rule converse_rtranclp_into_rtranclp)
  with k kt show ?case using log_kept_trans by blast
qed

lemma commit_steps:
  assumes "commit s = Ok x t"
  shows "tx_step\<^sup>*\<^sup>* (s, a, Com p h (commit_start s)) (t, a, Com p h PDone)"
proof (cases "0 < lh_n (log_lh (the_log s))")
  case False
  then show ?thesis using assms by (simp add: commit_def commit_start_def)
next
  case True
  let ?n = "nlog (the_log s)"
  from assms True obtain s1 s2 s3 where r: "write_log s = Ok () s1" "write_head s1 = Ok () s2"
      "install_trans False s2 = Ok () s3" "write_head (upd_lh (\<lambda>lh. lh\<lparr>lh_n := 0\<rparr>) s3) = Ok x t"
    by (auto simp: commit_def bind_eq_Ok)
  have "tx_step\<^sup>*\<^sup>* (s, a, Com p h (PLog 0)) (s1, a, Com p h (PLog ?n)) \<and> log_kept s s1"
    by (rule loop_steps [OF r(1) [unfolded write_log_def]]) (auto intro: tx_step.intros log_kept_commit)
  then have 1: "tx_step\<^sup>*\<^sup>* (s, a, Com p h (PLog 0)) (s1, a, Com p h (PLog ?n))" "log_kept s s1" by auto
  have k2: "log_kept s1 s2" using r(2) log_kept_commit(3) by blast
  have eq: "the_log s1 = the_log s" "the_log s2 = the_log s" using 1(2) k2 by (simp_all add: log_kept_def)
  have 2: "tx_step (s1, a, Com p h (PLog ?n)) (s1, a, Com p h PHead)" by (rule tx_step.log_end) (simp add: eq)
  have 3: "tx_step (s1, a, Com p h PHead) (s2, a, Com p h (PInst 0))" by (rule tx_step.head [OF r(2)])
  have "tx_step\<^sup>*\<^sup>* (s2, a, Com p h (PInst 0)) (s3, a, Com p h (PInst ?n)) \<and> log_kept s2 s3"
    by (rule loop_steps [OF r(3) [unfolded install_trans_def eq(2)]]) (auto simp: eq intro: tx_step.intros log_kept_commit)
  then have 4: "tx_step\<^sup>*\<^sup>* (s2, a, Com p h (PInst 0)) (s3, a, Com p h (PInst ?n))" "the_log s3 = the_log s"
    using eq by (auto simp: log_kept_def)
  have 5: "tx_step (s3, a, Com p h (PInst ?n)) (upd_lh (\<lambda>lh. lh\<lparr>lh_n := 0\<rparr>) s3, a, Com p h PHead0)"
    by (rule tx_step.clear) (simp add: 4)
  have 6: "tx_step (upd_lh (\<lambda>lh. lh\<lparr>lh_n := 0\<rparr>) s3, a, Com p h PHead0) (t, a, Com p h PDone)"
    using r(4) by (intro tx_step.head0) simp
  from 1(1) 2 3 4(1) 5 6 True show ?thesis
    by (simp add: commit_start_def)
qed

lemma end_op_steps:
  assumes "end_op s = Ok () t" and "cur s = Some p" and "a p = Some B"
  shows "tx_step\<^sup>*\<^sup>* (s, a, NoCommit) (t, a(p := None), NoCommit)"
proof -
  from assms(1) obtain b u where u: "end_op_begin s = Ok b u"
    and r: "(if b then bind (commit u) (\<lambda>_ s. end_op_finish s) else Ok () u) = Ok () t"
    by (auto simp: end_op_def bind_eq_Ok)
  show ?thesis
  proof (cases b)
    case False
    with u r have "end_op_begin s = Ok False t" by simp
    from tx_step.leave [where a = a, OF assms(2,3) this] show ?thesis by blast
  next
    case True
    with r obtain v where v: "commit u = Ok () v" "end_op_finish v = Ok () t" by (auto simp: bind_eq_Ok)
    from tx_step.last [where a = a, OF assms(2,3), of u] True u
    have "tx_step (s, a, NoCommit) (u, a(p := None), Com p (log_lh (the_log u)) (commit_start u))" by simp
    from converse_rtranclp_into_rtranclp [OF this commit_steps [OF v(1)]] tx_step.finish [OF v(2)]
    show ?thesis by (rule rtranclp.rtrancl_into_rtrancl)
  qed
qed

section \<open>Properties\<close>

text \<open>C2: Any number of processes inside file system operations at once, their critical sections and the pieces of a
  commit interleaved in any order, while other processes change the buffer cache, the disk and everything else
  but the log. If every operation writes fewer than \<open>MAXOPBLOCKS\<close> different blocks, then in every reachable state:
  \<open>begin_op\<close> returns or sleeps; during a commit no operation is in progress, \<open>begin_op\<close> sleeps, and the header in memory
  is the one the commit started from, with fewer than \<open>LOGBLOCKS\<close> blocks, until the commit itself clears it;
  the end of a commit returns and leaves no process asleep in \<open>begin_op\<close>. An operation in progress never
  meets a panic of the log: its next \<open>log_write\<close> returns, and so does the first half of \<open>end_op\<close>, which starts the commit
  or leaves no process asleep in \<open>begin_op\<close>. If besides no process has a buffer locked, then the whole of \<open>end_op\<close>
  with its commit returns, and so does a further update of a block, without touching the disk. (With
  all buffers taken by other processes \<open>bget\<close> panics; the log's reservations do not exclude that.)\<close>

theorem log_reservations_suffice:
  assumes "log_idle s0" and "tx_step\<^sup>*\<^sup>* (s0, Map.empty, NoCommit) (s, a, c)" and "cur s = Some p"
  shows "((\<exists>t. begin_op s = Ok () t) \<or> (\<exists>t. begin_op s = Block t))
     \<and> (\<forall>q h pc. c = Com q h pc \<longrightarrow> a = Map.empty \<and> (\<exists>t. begin_op s = Block t)
          \<and> log_lh (the_log s) = (if pc \<in> {PHead0, PDone} then h\<lparr>lh_n := 0\<rparr> else h) \<and> lh_n h < int LOGBLOCKS
          \<and> (pc = PDone \<longrightarrow> (\<exists>t. end_op_finish s = Ok () t \<and> no_waiters t)))
     \<and> (\<forall>B. a p = Some B \<longrightarrow>
          (\<exists>d t. end_op_begin s = Ok d t \<and> (d \<or> no_waiters t))
          \<and> (\<forall>i. card (insert (b_blockno (bufs s i)) B) < MAXOPBLOCKS
               \<and> b_blockno (bufs s i) \<notin> log_area (log_start (the_log s)) \<longrightarrow> (\<exists>t. log_write i s = Ok () t))
          \<and> (cache {} (lset s) s \<longrightarrow> (\<exists>t. end_op s = Ok () t)
               \<and> (\<forall>b d. card (insert b B) < MAXOPBLOCKS \<and> b \<notin> log_area (log_start (the_log s)) \<and> length d = BSIZE
                    \<longrightarrow> (\<exists>t. update_block b d s = Ok () t \<and> disk t = disk s \<and> blk t = (blk s)(b := d)))))"
proof (intro conjI allI impI)
  have inv: "tx_inv (s, a, c)" using tx_inv_reach assms(1,2) tx_inv_idle by blast
  note I = tx_invD(1,2) [OF inv] and bo = begin_op_cases [OF tx_invD(1) [OF inv] assms(3)]
  show "(\<exists>t. begin_op s = Ok () t) \<or> (\<exists>t. begin_op s = Block t)" using bo by simp
  {
    fix q h pc assume c: "c = Com q h pc"
    note C = tx_invD(4) [OF inv c]
    show "a = Map.empty" "\<exists>t. begin_op s = Block t"
      "log_lh (the_log s) = (if pc \<in> {PHead0, PDone} then h\<lparr>lh_n := 0\<rparr> else h)" "lh_n h < int LOGBLOCKS"
      using C bo by (auto simp: com_inv_def header_at_def op_fits_def)
    assume "pc = PDone"
    from tx_finish [OF inv [unfolded c this]]
    show "\<exists>t. end_op_finish s = Ok () t \<and> no_waiters t" by blast
  next
    fix B assume B: "a p = Some B"
    show "\<exists>d t. end_op_begin s = Ok d t \<and> (d \<or> no_waiters t)"
      using tx_leave [OF inv B] by blast
    show "\<exists>t. log_write i s = Ok () t" if "card (insert (b_blockno (bufs s i)) B) < MAXOPBLOCKS
        \<and> b_blockno (bufs s i) \<notin> log_area (log_start (the_log s))" for i
      using tx_write [OF inv B refl] that by blast
    assume ch: "cache {} (lset s) s"
    show "\<exists>t. end_op s = Ok () t" by (rule tx_end_op [OF inv B ch])
    show "\<exists>t. update_block b d s = Ok () t \<and> disk t = disk s \<and> blk t = (blk s)(b := d)"
      if "card (insert b B) < MAXOPBLOCKS \<and> b \<notin> log_area (log_start (the_log s)) \<and> length d = BSIZE" for b d
      using tx_update_block [OF inv B ch] that by blast
  }
qed

theorem log_reservations_suffice_witness:
  "\<exists>t u v. begin_op idle0 = Ok () t \<and> end_op_begin t = Ok True u \<and> begin_op u = Block v
     \<and> (\<exists>w. end_op_finish u = Ok () w \<and> no_waiters w)
     \<and> (\<exists>w. update_block 50 (replicate BSIZE 1) t = Ok () w \<and> disk w = disk t)"
proof -
  have out: "50 \<notin> log_area (2 :: u32)" by (rule log_area_above) simp
  define t where "t = idle0\<lparr>the_log := (the_log idle0)\<lparr>log_outstanding := 1\<rparr>\<rparr>"
  define u where "u = idle0\<lparr>the_log := (the_log idle0)\<lparr>log_outstanding := 0, log_committing := True\<rparr>\<rparr>"
  have b: "begin_op idle0 = Ok () t" unfolding t_def by (rule begin_op_idle [OF idle0_idle])
  have i: "held idle0 = []" "cache {} {} idle0" "\<not> log_committing (the_log idle0)" "lh_n (log_lh (the_log idle0)) = 0"
    using idle0_idle log_ok_empty by (auto simp: log_idle_def)
  have e: "end_op_begin t = Ok True u" using i by (simp add: end_op_begin_def t_def u_def Let_def)
  have t: "cur t = Some 0" "log_start (the_log t) = 2" "lset t = {}" "cache {} {} t" and u: "cur u = Some 0"
    using i by (simp_all add: t_def u_def idle0_simps lset_def)
  have 1: "tx_step\<^sup>*\<^sup>* (idle0, Map.empty, NoCommit) (t, [0 \<mapsto> {}], NoCommit)"
    by (rule r_into_rtranclp, rule tx_step.enter) (use b idle0_simps in simp_all)
  have "tx_step (t, [0 \<mapsto> {}], NoCommit) (u, ([0 \<mapsto> {}])(0 := None), Com 0 (log_lh (the_log u)) (commit_start u))"
    by (rule tx_step.last) (use e t in simp_all)
  then have 2: "tx_step\<^sup>*\<^sup>* (idle0, Map.empty, NoCommit) (u, Map.empty, Com 0 (log_lh (the_log u)) PDone)"
    using 1 i(4) by (simp add: commit_start_def u_def)
  note R = log_reservations_suffice [OF idle0_idle 1 t(1), THEN conjunct2, THEN conjunct2, rule_format, of "{}", simplified t]
    and S = log_reservations_suffice [OF idle0_idle 2 u, THEN conjunct2, THEN conjunct1, rule_format, OF refl]
  from R out have "\<exists>w. update_block 50 (replicate BSIZE 1) t = Ok () w \<and> disk w = disk t" by force
  with b e S show ?thesis by blast
qed

end
