(* ===== verification/Contracts.thy ===== *)
theory Contracts
  imports Prelude
begin

text \<open>
  Interfaces that several components of the kernel provide, as locales: what the client may
  assume of the operations, and the consequences it can draw.

  \<open>allocator\<close> is the contract of a pool of resources (pages, disk blocks, file table entries,
  disk descriptors): \<open>inv F s\<close> says that \<open>F\<close> are the free ones.
\<close>

section \<open>Allocators\<close>

text \<open>Allocate up to \<open>n\<close> times, stopping at the first failure.\<close>

primrec alloc_many :: "'r \<Rightarrow> ('s \<Rightarrow> ('s, 'r) res) \<Rightarrow> nat \<Rightarrow> 's \<Rightarrow> ('s, 'r list) res" where
  "alloc_many null alloc 0 s = Ok [] s"
| "alloc_many null alloc (Suc n) s =
     bind (alloc s) (\<lambda>r s.
     if r = null then Ok [] s
     else bind (alloc_many null alloc n s) (\<lambda>rs s. Ok (r # rs) s))"

locale allocator =
  fixes inv :: "'r set \<Rightarrow> 's \<Rightarrow> bool"
    and null :: 'r
    and pool :: "'r set"
    and alloc :: "'s \<Rightarrow> ('s, 'r) res"
    and dealloc :: "'r \<Rightarrow> 's \<Rightarrow> ('s, unit) res"
  assumes free_in_pool: "inv F s \<Longrightarrow> finite F \<and> F \<subseteq> pool"
    and null_not_in_pool: "null \<notin> pool"
    and alloc_some: "inv F s \<Longrightarrow> F \<noteq> {} \<Longrightarrow>
          \<exists>r s'. alloc s = Ok r s' \<and> r \<in> F \<and> inv (F - {r}) s'"
    and alloc_none: "inv {} s \<Longrightarrow> \<exists>s'. alloc s = Ok null s' \<and> inv {} s'"
    and dealloc_ok: "inv F s \<Longrightarrow> r \<in> pool \<Longrightarrow> r \<notin> F \<Longrightarrow>
          \<exists>s'. dealloc r s = Ok () s' \<and> inv (insert r F) s'"
begin

lemma alloc_many_spec:
  "inv F s \<Longrightarrow>
   \<exists>rs s'. alloc_many null alloc n s = Ok rs s' \<and> distinct rs \<and> set rs \<subseteq> F
         \<and> length rs = min n (card F) \<and> inv (F - set rs) s'"
proof (induction n arbitrary: F s)
  case 0
  then show ?case by simp
next
  case (Suc n)
  note fin = free_in_pool [OF Suc.prems]
  show ?case
  proof (cases "F = {}")
    case True
    with Suc.prems alloc_none show ?thesis by fastforce
  next
    case False
    with Suc.prems obtain r s1 where r: "alloc s = Ok r s1" "r \<in> F" and "inv (F - {r}) s1"
      using alloc_some by blast
    from Suc.IH [OF \<open>inv (F - {r}) s1\<close>] obtain rs s' where
      rs: "alloc_many null alloc n s1 = Ok rs s'" "distinct rs" "set rs \<subseteq> F - {r}"
        "length rs = min n (card (F - {r}))" "inv (F - {r} - set rs) s'"
      by blast
    have "r \<noteq> null" using r(2) fin null_not_in_pool by auto
    moreover have "Suc (card (F - {r})) = card F"
      using r(2) fin by (intro card_Suc_Diff1) auto
    moreover have "F - {r} - set rs = F - set (r # rs)" by auto
    ultimately show ?thesis
      using r rs by (intro exI [of _ "r # rs"] exI [of _ s']) auto
  qed
qed

text \<open>A resource given back is free again, and the pool is otherwise as before.\<close>

lemma dealloc_alloc:
  assumes "inv F s" and "F \<noteq> {}"
  shows "\<exists>r s1 s2. alloc s = Ok r s1 \<and> dealloc r s1 = Ok () s2 \<and> r \<in> F \<and> inv F s2"
proof -
  from alloc_some [OF assms] obtain r s1 where r: "alloc s = Ok r s1" "r \<in> F" "inv (F - {r}) s1"
    by blast
  with free_in_pool [OF assms(1)] dealloc_ok [of "F - {r}" s1 r] obtain s2 where
    "dealloc r s1 = Ok () s2" "inv (insert r (F - {r})) s2"
    by auto
  with r show ?thesis by (auto simp: insert_absorb)
qed

end

end
