(* ===== verification/Kalloc.thy ===== *)
theory Kalloc
  imports State Contracts
begin

text \<open>
  The page allocator of \<^verbatim>\<open>kernel/kalloc.c\<close>. A free page holds in its first eight bytes the
  address of the next free page; \<open>kmem.freelist\<close> is the first. \<open>run_list\<close> relates this chain
  in memory to the list of its pages.
\<close>

section \<open>kernel/kalloc.c\<close>

definition PGROUNDUP :: "u64 \<Rightarrow> u64" where
  "PGROUNDUP sz = (sz + 4096 - 1) AND NOT (4096 - 1)"

definition PGROUNDDOWN :: "u64 \<Rightarrow> u64" where
  "PGROUNDDOWN a = a AND NOT (4096 - 1)"

definition kfree :: "addr \<Rightarrow> kstate \<Rightarrow> unit kres" where
  "kfree pa s =
     (if pa mod 4096 \<noteq> 0 \<or> pa < kend s \<or> pa \<ge> PHYSTOP then Panic ''kfree''
      else
        let s = s\<lparr>mem := memset (mem s) pa 1 PGSIZE\<rparr> in
        bind (acquire L_kmem s) (\<lambda>_ s.
        release L_kmem (s\<lparr>mem := store64 (mem s) pa (freelist s), freelist := pa\<rparr>)))"

definition kalloc :: "kstate \<Rightarrow> addr kres" where
  "kalloc s =
     bind (acquire L_kmem s) (\<lambda>_ s.
     let r = freelist s;
         s = (if r \<noteq> 0 then s\<lparr>freelist := load64 (mem s) r\<rparr> else s) in
     bind (release L_kmem s) (\<lambda>_ s.
     Ok r (if r \<noteq> 0 then s\<lparr>mem := memset (mem s) r 5 PGSIZE\<rparr> else s)))"

text \<open>The loop \<^verbatim>\<open>for(; p + PGSIZE <= pa_end; p += PGSIZE) kfree(p)\<close>, with the number of pages
  below \<open>pa_end\<close> as the bound on its iterations.\<close>

primrec freerange_loop :: "nat \<Rightarrow> addr \<Rightarrow> addr \<Rightarrow> kstate \<Rightarrow> unit kres" where
  "freerange_loop 0 p pa_end s = Block s"
| "freerange_loop (Suc k) p pa_end s =
     (if p + 4096 \<le> pa_end
      then bind (kfree p s) (\<lambda>_ s. freerange_loop k (p + 4096) pa_end s)
      else Ok () s)"

definition freerange :: "addr \<Rightarrow> addr \<Rightarrow> kstate \<Rightarrow> unit kres" where
  "freerange pa_start pa_end s =
     freerange_loop (Suc (unat pa_end div PGSIZE)) (PGROUNDUP pa_start) pa_end s"

definition kinit :: "kstate \<Rightarrow> unit kres" where
  "kinit s = freerange (kend s) PHYSTOP s"

section \<open>The chain of free pages\<close>

primrec run_list :: "memory \<Rightarrow> addr \<Rightarrow> addr list \<Rightarrow> bool" where
  "run_list m p [] \<longleftrightarrow> p = 0"
| "run_list m p (q # qs) \<longleftrightarrow> p = q \<and> q \<noteq> 0 \<and> run_list m (load64 m q) qs"

definition page_ok :: "addr \<Rightarrow> addr \<Rightarrow> bool" where
  "page_ok e p \<longleftrightarrow> p mod 4096 = 0 \<and> e \<le> p \<and> p < PHYSTOP"

definition in_page :: "addr \<Rightarrow> addr \<Rightarrow> bool" where
  "in_page p a \<longleftrightarrow> unat (a - p) < PGSIZE"

definition kmem_rep :: "kstate \<Rightarrow> addr list \<Rightarrow> bool" where
  "kmem_rep s ps \<longleftrightarrow>
     run_list (mem s) (freelist s) ps \<and> distinct ps \<and> 0 < kend s \<and> (\<forall>p \<in> set ps. page_ok (kend s) p)"

lemma page_aligned_iff: "p mod 4096 = 0 \<longleftrightarrow> unat p mod 4096 = 0" for p :: addr
  by (simp add: word_arith_nat_mod flip: unat_eq_0)

lemma page_offset:
  fixes p :: addr
  assumes "p mod 4096 = 0" and "i < 4096"
  shows "unat (p + of_nat i) = unat p + i"
proof -
  have "unat p mod 4096 = 0" using arg_cong [OF assms(1), of unat] by (simp add: unat_mod)
  then obtain k where k: "unat p = 4096 * k" by auto
  moreover have "unat p < 4096 * 2 ^ 52" using unat_less_exp [of p] by simp
  ultimately have "k < 2 ^ 52" by (simp only: mult_less_cancel1)
  with k have "unat p + 4096 \<le> 2 ^ 64" by simp
  then show ?thesis using assms(2) by (intro unat_add_no_wrap) simp
qed

lemma page_disjoint:
  fixes p q :: addr
  assumes "p mod 4096 = 0" and "q mod 4096 = 0" and "p \<noteq> q" and "i < 4096" and "j < 4096"
  shows "p + of_nat i \<noteq> q + of_nat j"
proof
  assume "p + of_nat i = q + of_nat j"
  then have eq: "unat p + i = unat q + j"
    using page_offset [OF assms(1,4)] page_offset [OF assms(2,5)] by metis
  have "unat p mod 4096 = 0" "unat q mod 4096 = 0"
    using assms(1,2) [THEN arg_cong, of unat] by (simp_all add: unat_mod)
  moreover have "unat p = (unat p + i) div 4096 * 4096" if "unat p mod 4096 = 0" "i < 4096" for p :: addr and i
    using that by (auto simp: div_mult2_eq)
  ultimately have "unat p = unat q" using eq assms(4,5) by metis
  with assms(3) show False by (blast dest: unsigned_word_eqI)
qed

lemma in_page_iff: "in_page p a \<longleftrightarrow> (\<exists>k < 4096. a = p + of_nat k)"
  unfolding in_page_def using unat_offset_less_iff [of 4096 a p] by simp

lemma memset_page:
  "memset m p c PGSIZE a = (if in_page p a then ucast c else m a)"
  by (simp add: memset_apply in_page_def)

lemma in_page_other:
  "p mod 4096 = 0 \<Longrightarrow> q mod 4096 = 0 \<Longrightarrow> p \<noteq> q \<Longrightarrow> i < 4096 \<Longrightarrow> \<not> in_page p (q + of_nat i)"
  unfolding in_page_iff using page_disjoint [of q p i] by metis

lemma store64_outside:
  assumes "\<not> in_page p a"
  shows "store64 m p w a = m a"
  unfolding store64_def
  by (rule mem_write_outside) (use assms in \<open>auto simp: in_page_iff\<close>)

text \<open>A chain only depends on the pages it goes through.\<close>

lemma run_list_cong:
  "run_list m p ps \<Longrightarrow> (\<And>q i. q \<in> set ps \<Longrightarrow> i < 4096 \<Longrightarrow> m' (q + of_nat i) = m (q + of_nat i)) \<Longrightarrow>
   run_list m' p ps"
proof (induction ps arbitrary: p)
  case (Cons q qs)
  have "load64 m' q = load64 m q"
    by (rule load64_cong) (use Cons.prems(2) [of q] in simp)
  with Cons show ?case by auto
qed simp

lemma run_list_fun:
  "run_list m p ps \<Longrightarrow> run_list m p qs \<Longrightarrow> ps = qs"
proof (induction ps arbitrary: p qs)
  case Nil
  then show ?case by (cases qs) auto
next
  case (Cons x xs)
  then show ?case by (cases qs) auto
qed

section \<open>Behaviour of the operations\<close>

lemma kalloc_Nil:
  assumes "kmem_rep s []" and "L_kmem \<notin> set (held s)"
  shows "kalloc s = Ok 0 s"
  using assms by (simp add: kalloc_def kmem_rep_def)

lemma kalloc_Cons:
  assumes rep: "kmem_rep s (p # ps)" and "L_kmem \<notin> set (held s)"
  defines "s' \<equiv> s\<lparr>freelist := load64 (mem s) p, mem := memset (mem s) p 5 PGSIZE\<rparr>"
  shows "kalloc s = Ok p s'" and "kmem_rep s' ps"
proof -
  have p: "freelist s = p" "p \<noteq> 0" and chain: "run_list (mem s) (load64 (mem s) p) ps"
    and dist: "p \<notin> set ps" "distinct ps" and ok: "\<forall>q \<in> set (p # ps). page_ok (kend s) q"
    using rep by (auto simp: kmem_rep_def)
  show "kalloc s = Ok p s'"
    using p assms(2) by (simp add: kalloc_def s'_def)
  have "run_list (memset (mem s) p 5 PGSIZE) (load64 (mem s) p) ps"
  proof (rule run_list_cong [OF chain])
    fix q i assume "q \<in> set ps" and i: "i < (4096 :: nat)"
    then have "\<not> in_page p (q + of_nat i)"
      using dist(1) ok by (intro in_page_other) (auto simp: page_ok_def)
    then show "memset (mem s) p 5 PGSIZE (q + of_nat i) = mem s (q + of_nat i)"
      by (simp add: memset_page)
  qed
  with rep show "kmem_rep s' ps" by (simp add: kmem_rep_def s'_def)
qed

lemma kfree_bad:
  "\<not> page_ok (kend s) p \<Longrightarrow> kfree p s = Panic ''kfree''"
  by (auto simp: kfree_def page_ok_def not_le not_less)

lemma kfree_Cons:
  assumes rep: "kmem_rep s ps" and "L_kmem \<notin> set (held s)"
    and p: "page_ok (kend s) p" "p \<notin> set ps"
  defines "s' \<equiv> s\<lparr>mem := store64 (memset (mem s) p 1 PGSIZE) p (freelist s), freelist := p\<rparr>"
  shows "kfree p s = Ok () s'" and "kmem_rep s' (p # ps)"
proof -
  show "kfree p s = Ok () s'"
    using p(1) assms(2) by (simp add: kfree_def page_ok_def s'_def not_less not_le)
  have "run_list (mem s') (freelist s) ps"
  proof (rule run_list_cong [of "mem s"])
    show "run_list (mem s) (freelist s) ps" using rep by (simp add: kmem_rep_def)
    fix q i assume "q \<in> set ps" and i: "i < (4096 :: nat)"
    then have "\<not> in_page p (q + of_nat i)"
      using p rep by (intro in_page_other) (auto simp: page_ok_def kmem_rep_def)
    then show "mem s' (q + of_nat i) = mem s (q + of_nat i)"
      by (simp add: s'_def store64_outside memset_page)
  qed
  moreover have "p \<noteq> 0" using p(1) rep by (auto simp: page_ok_def kmem_rep_def)
  ultimately show "kmem_rep s' (p # ps)"
    using rep p by (simp add: kmem_rep_def s'_def)
qed

section \<open>The allocator as a pool of pages\<close>

definition kmem_free :: "addr \<Rightarrow> addr set \<Rightarrow> kstate \<Rightarrow> bool" where
  "kmem_free e F s \<longleftrightarrow>
     kend s = e \<and> L_kmem \<notin> set (held s) \<and> (\<exists>ps. kmem_rep s ps \<and> set ps = F)"

interpretation kmem: allocator "kmem_free e" 0 "{p. page_ok e p \<and> p \<noteq> 0}" kalloc kfree for e
proof unfold_locales
  fix F s
  assume inv: "kmem_free e F s"
  then obtain ps where ps: "kmem_rep s ps" "set ps = F" and s: "kend s = e" "L_kmem \<notin> set (held s)"
    by (auto simp: kmem_free_def)
  show "finite F \<and> F \<subseteq> {p. page_ok e p \<and> p \<noteq> 0}"
    using ps s by (auto simp: kmem_rep_def page_ok_def)
  show "\<exists>r s'. kalloc s = Ok r s' \<and> r \<in> F \<and> kmem_free e (F - {r}) s'" if "F \<noteq> {}"
  proof (cases ps)
    case (Cons q qs)
    moreover have "set qs = F - {q}" using ps Cons by (auto simp: kmem_rep_def)
    ultimately show ?thesis
      using kalloc_Cons [of s q qs] ps s by (auto simp: kmem_free_def)
  qed (use ps that in simp)
  show "\<exists>s'. kfree r s = Ok () s' \<and> kmem_free e (insert r F) s'"
    if "r \<in> {p. page_ok e p \<and> p \<noteq> 0}" "r \<notin> F" for r
    using kfree_Cons [of s ps r] that ps s by (fastforce simp: kmem_free_def)
next
  show "\<exists>s'. kalloc s = Ok 0 s' \<and> kmem_free e {} s'" if "kmem_free e {} s" for s
    using that kalloc_Nil by (auto simp: kmem_free_def)
qed simp

section \<open>Initialisation\<close>

definition pages :: "addr \<Rightarrow> nat \<Rightarrow> addr list" where
  "pages p n = map (\<lambda>i. p + of_nat (4096 * i)) [0..<n]"

lemma pages_Suc: "pages p (Suc n) = p # pages (p + 4096) n"
  by (simp add: pages_def upt_conv_Cons map_Suc_upt [symmetric] comp_def algebra_simps del: upt_Suc)

lemma PGROUNDDOWN_unat: "unat (PGROUNDDOWN a) = unat a div 4096 * 4096"
proof -
  have mask: "4096 - 1 = (mask 12 :: u64)" by (simp add: mask_eq_exp_minus_1)
  have "PGROUNDDOWN a = push_bit 12 (drop_bit 12 a)"
    unfolding PGROUNDDOWN_def mask by (intro bit_word_eqI) (auto simp: bit_simps)
  also have "\<dots> = a div 4096 * 4096" by (simp add: push_bit_eq_mult drop_bit_eq_div)
  finally have "PGROUNDDOWN a = a div 4096 * 4096" .
  moreover have "unat (a div 4096) * unat (4096 :: u64) < 2 ^ LENGTH(64)"
    using unat_less_exp [of a] by (simp add: unat_div)
  ultimately show ?thesis by (simp add: unat_mult_lem [THEN iffD1] unat_div)
qed

lemma PGROUNDUP_unat:
  assumes "unat a + 4095 < 2 ^ 64"
  shows "unat (PGROUNDUP a) = (unat a + 4095) div 4096 * 4096"
proof -
  have "PGROUNDUP a = PGROUNDDOWN (a + of_nat 4095)"
    by (simp add: PGROUNDUP_def PGROUNDDOWN_def add.commute)
  moreover have "unat (a + of_nat 4095) = unat a + 4095"
    using assms by (intro unat_add_no_wrap) simp
  ultimately show ?thesis by (simp add: PGROUNDDOWN_unat)
qed

text \<open>The loop frees \<open>n\<close> pages from \<open>p\<close> on; the last one is then first in the list.\<close>

lemma freerange_loop_rep:
  assumes "kmem_rep s ps" and "L_kmem \<notin> set (held s)"
    and "p mod 4096 = 0" and "kend s \<le> p" and "e \<le> PHYSTOP"
    and "unat p + 4096 * n \<le> unat e" and "unat e < unat p + 4096 * Suc n"
    and "\<forall>q \<in> set ps. q < p" and "n < k"
  shows "\<exists>s'. freerange_loop k p e s = Ok () s' \<and> kmem_rep s' (rev (pages p n) @ ps) \<and> kend s' = kend s"
  using assms
proof (induction n arbitrary: k p s ps)
  case 0
  obtain k' where k: "k = Suc k'" using 0 by (cases k) auto
  have "unat (p + 4096) = unat p + 4096"
    using 0 unat_less_exp [of e] page_offset unat_add_no_wrap [of p 4096]
    by (simp add: word_le_nat_alt)
  then have "\<not> p + 4096 \<le> e" using 0 by (simp add: word_le_nat_alt)
  then show ?case using 0 k by (simp add: pages_def)
next
  case (Suc n)
  obtain k' where k: "k = Suc k'" "n < k'" using Suc.prems by (cases k) auto
  have next_p: "unat (p + 4096) = unat p + 4096"
    using Suc.prems(6) unat_less_exp [of e] unat_add_no_wrap [of p 4096] by simp
  have e: "unat e \<le> unat PHYSTOP" using Suc.prems(5) by (simp add: word_le_nat_alt)
  have "page_ok (kend s) p"
    using Suc.prems(3,4,6) e by (simp add: page_ok_def word_less_nat_alt)
  moreover have "p \<notin> set ps" using Suc.prems(8) by auto
  ultimately obtain s1 where s1: "kfree p s = Ok () s1" "kmem_rep s1 (p # ps)"
      "held s1 = held s" "kend s1 = kend s"
    using kfree_Cons [OF Suc.prems(1,2)] by auto
  have "\<exists>s'. freerange_loop k' (p + 4096) e s1 = Ok () s'
      \<and> kmem_rep s' (rev (pages (p + 4096) n) @ p # ps) \<and> kend s' = kend s1"
  proof (rule Suc.IH [OF s1(2)])
    show "(p + 4096) mod 4096 = 0" using Suc.prems(3) next_p by (simp add: page_aligned_iff)
    show "kend s1 \<le> p + 4096" and "\<forall>q \<in> set (p # ps). q < p + 4096"
      using Suc.prems(4,8) next_p s1(4) by (auto simp: word_le_nat_alt word_less_nat_alt)
  qed (use Suc.prems s1 next_p k in auto)
  moreover have "p + 4096 \<le> e" using next_p Suc.prems(6) by (simp add: word_le_nat_alt)
  ultimately show ?case using s1 k by (simp add: pages_Suc)
qed

section \<open>Properties\<close>

text \<open>C36: after \<open>kinit\<close> the free list holds exactly the whole pages between the end of the
  kernel and \<open>PHYSTOP\<close>, the highest first; \<open>kinit\<close> returns, with the lock released.\<close>

theorem kinit_frees_all:
  assumes "0 < kend s" and "kend s \<le> PHYSTOP" and "freelist s = 0" and "L_kmem \<notin> set (held s)"
  shows "\<exists>s'. kinit s = Ok () s' \<and>
     kmem_rep s' (rev (pages (PGROUNDUP (kend s))
       ((unat PHYSTOP - unat (PGROUNDUP (kend s))) div 4096)))"
proof -
  let ?p = "PGROUNDUP (kend s)"
  have "unat (kend s) \<le> 0x88000000" using assms(2) by (simp add: word_le_nat_alt)
  then have p: "unat ?p = (unat (kend s) + 4095) div 4096 * 4096" by (simp add: PGROUNDUP_unat)
  have "(unat (kend s) + 4095) div 4096 \<le> (0x88000000 + 4095) div 4096"
    using \<open>unat (kend s) \<le> 0x88000000\<close> by (intro div_le_mono) simp
  then have le: "unat ?p \<le> 0x88000000" unfolding p by simp
  have "unat (kend s) \<le> unat ?p"
    unfolding p using div_mult_mod_eq [of "unat (kend s) + 4095" 4096]
      mod_less_divisor [of 4096 "unat (kend s) + 4095"] by linarith
  have "unat ?p mod 4096 = 0" by (simp add: p)
  let ?n = "(unat PHYSTOP - unat ?p) div 4096"
  have "\<exists>s'. freerange_loop (Suc (unat PHYSTOP div PGSIZE)) ?p PHYSTOP s = Ok () s'
      \<and> kmem_rep s' (rev (pages ?p ?n) @ []) \<and> kend s' = kend s"
  proof (rule freerange_loop_rep)
    show "kmem_rep s []" using assms by (simp add: kmem_rep_def)
    show "kend s \<le> ?p" using \<open>unat (kend s) \<le> unat ?p\<close> by (simp add: word_le_nat_alt)
    show "?n < Suc (unat PHYSTOP div PGSIZE)" by (simp add: less_Suc_eq_le div_le_mono)
  qed (use assms \<open>unat ?p mod 4096 = 0\<close> le in \<open>auto simp: page_aligned_iff\<close>)
  then show ?thesis by (auto simp: kinit_def freerange_def)
qed

theorem kinit_frees_all_witness:
  "\<exists>s'. kinit (zero_state 0x87ffe001 (\<lambda>_. [])) = Ok () s' \<and> kmem_rep s' [0x87fff000]"
  using kinit_frees_all [of "zero_state 0x87ffe001 (\<lambda>_. [])"]
  by (simp add: zero_state_def PGROUNDUP_def pages_def)

text \<open>C37: the pages that successive calls of \<open>kalloc\<close> return are distinct free pages, there are
  as many as asked for or as are free, and the remaining ones stay free.\<close>

theorem kalloc_distinct:
  assumes "kmem_free e F s"
  shows "\<exists>rs s'. alloc_many 0 kalloc n s = Ok rs s' \<and> distinct rs \<and> set rs \<subseteq> F
      \<and> length rs = min n (card F) \<and> kmem_free e (F - set rs) s'"
  using assms by (rule kmem.alloc_many_spec)

theorem kalloc_distinct_witness:
  "\<exists>rs s'. alloc_many 0 kalloc 2 ((zero_state 1 (\<lambda>_. []))\<lparr>freelist := 0x1000\<rparr>) = Ok rs s'
     \<and> rs = [0x1000]"
proof -
  have "kmem_free 1 {0x1000} ((zero_state 1 (\<lambda>_. []))\<lparr>freelist := 0x1000\<rparr>)"
    by (auto simp: kmem_free_def kmem_rep_def zero_state_def page_ok_def load64_def mem_read_def
        upt_rec intro!: exI [of _ "[0x1000]"])
  from kalloc_distinct [OF this, of 2] show ?thesis
    by (auto simp: length_Suc_conv)
qed

text \<open>C38: \<open>kfree\<close> of a page followed by \<open>kalloc\<close> returns that page, filled with the junk byte
  5, restores the free list and changes no byte outside the page; an address that is no page of
  the allocator makes \<open>kfree\<close> panic.\<close>

theorem kfree_kalloc:
  assumes "kmem_rep s ps" and "L_kmem \<notin> set (held s)" and "p \<notin> set ps"
  shows "(\<not> page_ok (kend s) p \<longrightarrow> kfree p s = Panic ''kfree'') \<and>
     (page_ok (kend s) p \<longrightarrow> (\<exists>s1 s2. kfree p s = Ok () s1 \<and> kalloc s1 = Ok p s2
        \<and> kmem_rep s1 (p # ps) \<and> kmem_rep s2 ps \<and> freelist s2 = freelist s
        \<and> (\<forall>a. mem s2 a = (if in_page p a then 5 else mem s a))))"
proof (cases "page_ok (kend s) p")
  case True
  note free = kfree_Cons [OF assms(1,2) True assms(3)]
  note alloc = kalloc_Cons [OF free(2)]
  show ?thesis
    using True free alloc assms(2) by (simp add: memset_page store64_outside)
qed (simp add: kfree_bad)

theorem kfree_kalloc_witness:
  "\<exists>s1 s2. kfree 0x1000 (zero_state 1 (\<lambda>_. [])) = Ok () s1 \<and> kalloc s1 = Ok 0x1000 s2"
  using kfree_kalloc [of "zero_state 1 (\<lambda>_. [])" "[]" "0x1000"]
  by (auto simp: kmem_rep_def zero_state_def page_ok_def)

end
