(* ===== verification/Vm.thy ===== *)
theory Vm
  imports Kalloc
begin

text \<open>
  Page tables: \<^verbatim>\<open>kernel/vm.c\<close>, and the macros of \<^verbatim>\<open>kernel/riscv.h\<close> and
  \<^verbatim>\<open>kernel/memlayout.h\<close> it uses. A page table is its root page in physical memory; entries are
  read and written there as 64-bit words. Data the kernel copies from or to its own variables
  is a list of bytes: \<open>copyin\<close> and \<open>copyinstr\<close> return the bytes they have stored through
  \<open>dst\<close> next to the return value, also when they fail.

  Loops over addresses carry a bound on their iterations, computed from their limits; running out
  of it is \<open>Block\<close>.
\<close>

unbundle bit_operations_syntax

section \<open>Page table entries\<close>

abbreviation (input) PTE_V :: u64 where "PTE_V \<equiv> 1"
abbreviation (input) PTE_R :: u64 where "PTE_R \<equiv> 2"
abbreviation (input) PTE_W :: u64 where "PTE_W \<equiv> 4"
abbreviation (input) PTE_X :: u64 where "PTE_X \<equiv> 8"
abbreviation (input) PTE_U :: u64 where "PTE_U \<equiv> 16"
abbreviation (input) MAXVA :: u64 where "MAXVA \<equiv> 0x4000000000"
abbreviation (input) TRAMPOLINE :: u64 where "TRAMPOLINE \<equiv> 0x3FFFFFF000"
abbreviation (input) TRAPFRAME :: u64 where "TRAPFRAME \<equiv> 0x3FFFFFE000"
abbreviation (input) KERNBASE :: u64 where "KERNBASE \<equiv> 0x80000000"
abbreviation (input) UART0 :: u64 where "UART0 \<equiv> 0x10000000"
abbreviation (input) VIRTIO0 :: u64 where "VIRTIO0 \<equiv> 0x10001000"
abbreviation (input) PLIC :: u64 where "PLIC \<equiv> 0xC000000"

definition PA2PTE :: "u64 \<Rightarrow> u64" where
  "PA2PTE pa = push_bit 10 (drop_bit 12 pa)"

definition PTE2PA :: "u64 \<Rightarrow> u64" where
  "PTE2PA pte = push_bit 12 (drop_bit 10 pte)"

definition PTE_FLAGS :: "u64 \<Rightarrow> u64" where
  "PTE_FLAGS pte = pte AND 0x3FF"

definition PX :: "nat \<Rightarrow> u64 \<Rightarrow> u64" where
  "PX level va = drop_bit (12 + 9 * level) va AND 0x1FF"

definition MAKE_SATP :: "addr \<Rightarrow> u64" where
  "MAKE_SATP pt = push_bit 60 8 OR drop_bit 12 pt"

definition KSTACK :: "nat \<Rightarrow> u64" where
  "KSTACK p = TRAMPOLINE - (of_nat p + 1) * 2 * 4096"

section \<open>Walking and mapping\<close>

text \<open>The address of entry \<open>i\<close> of a page-table page.\<close>

abbreviation pte_at :: "addr \<Rightarrow> u64 \<Rightarrow> addr" where
  "pte_at pt i \<equiv> pt + 8 * i"

primrec walk_loop :: "nat \<Rightarrow> addr \<Rightarrow> u64 \<Rightarrow> bool \<Rightarrow> kstate \<Rightarrow> addr kres" where
  "walk_loop 0 pagetable va alloc s = Ok (pte_at pagetable (PX 0 va)) s"
| "walk_loop (Suc level) pagetable va alloc s =
     (let pte = pte_at pagetable (PX (Suc level) va); e = load64 (mem s) pte in
      if e AND PTE_V \<noteq> 0 then walk_loop level (PTE2PA e) va alloc s
      else if \<not> alloc then Ok 0 s
      else
        bind (kalloc s) (\<lambda>p s.
        if p = 0 then Ok 0 s
        else
          let s = s\<lparr>mem := memset (mem s) p 0 PGSIZE\<rparr> in
          walk_loop level p va alloc (s\<lparr>mem := store64 (mem s) pte (PA2PTE p OR PTE_V)\<rparr>)))"

definition walk :: "addr \<Rightarrow> u64 \<Rightarrow> bool \<Rightarrow> kstate \<Rightarrow> addr kres" where
  "walk pagetable va alloc s =
     (if va \<ge> MAXVA then Panic ''walk'' else walk_loop 2 pagetable va alloc s)"

definition walkaddr :: "addr \<Rightarrow> u64 \<Rightarrow> kstate \<Rightarrow> u64 kres" where
  "walkaddr pagetable va s =
     (if va \<ge> MAXVA then Ok 0 s
      else
        bind (walk pagetable va False s) (\<lambda>pte s.
        if pte = 0 then Ok 0 s
        else let e = load64 (mem s) pte in
          if e AND PTE_V = 0 then Ok 0 s
          else if e AND PTE_U = 0 then Ok 0 s
          else Ok (PTE2PA e) s))"

primrec mappages_loop :: "nat \<Rightarrow> addr \<Rightarrow> u64 \<Rightarrow> u64 \<Rightarrow> u64 \<Rightarrow> u64 \<Rightarrow> kstate \<Rightarrow> int kres" where
  "mappages_loop 0 pagetable a final pa perm s = Block s"
| "mappages_loop (Suc k) pagetable a final pa perm s =
     bind (walk pagetable a True s) (\<lambda>pte s.
     if pte = 0 then Ok (- 1) s
     else if load64 (mem s) pte AND PTE_V \<noteq> 0 then Panic ''mappages: remap''
     else
       let s = s\<lparr>mem := store64 (mem s) pte (PA2PTE pa OR perm OR PTE_V)\<rparr> in
       if a = final then Ok 0 s
       else mappages_loop k pagetable (a + 4096) final (pa + 4096) perm s)"

definition mappages :: "addr \<Rightarrow> u64 \<Rightarrow> u64 \<Rightarrow> u64 \<Rightarrow> u64 \<Rightarrow> kstate \<Rightarrow> int kres" where
  "mappages pagetable va sz pa perm s =
     (if va mod 4096 \<noteq> 0 then Panic ''mappages: va not aligned''
      else if sz mod 4096 \<noteq> 0 then Panic ''mappages: size not aligned''
      else if sz = 0 then Panic ''mappages: size''
      else mappages_loop (unat sz div PGSIZE) pagetable va (va + sz - 4096) pa perm s)"

definition uvmcreate :: "kstate \<Rightarrow> addr kres" where
  "uvmcreate s =
     bind (kalloc s) (\<lambda>pagetable s.
     if pagetable = 0 then Ok 0 s
     else Ok pagetable (s\<lparr>mem := memset (mem s) pagetable 0 PGSIZE\<rparr>))"

primrec uvmunmap_loop :: "nat \<Rightarrow> addr \<Rightarrow> u64 \<Rightarrow> u64 \<Rightarrow> bool \<Rightarrow> kstate \<Rightarrow> unit kres" where
  "uvmunmap_loop 0 pagetable a stop do_free s = Block s"
| "uvmunmap_loop (Suc k) pagetable a stop do_free s =
     (if a < stop then
        bind (walk pagetable a False s) (\<lambda>pte s.
        if pte = 0 then uvmunmap_loop k pagetable (a + 4096) stop do_free s
        else let e = load64 (mem s) pte in
          if e AND PTE_V = 0 then uvmunmap_loop k pagetable (a + 4096) stop do_free s
          else
            bind (if do_free then kfree (PTE2PA e) s else Ok () s) (\<lambda>_ s.
            uvmunmap_loop k pagetable (a + 4096) stop do_free (s\<lparr>mem := store64 (mem s) pte 0\<rparr>)))
      else Ok () s)"

definition uvmunmap :: "addr \<Rightarrow> u64 \<Rightarrow> u64 \<Rightarrow> bool \<Rightarrow> kstate \<Rightarrow> unit kres" where
  "uvmunmap pagetable va npages do_free s =
     (if va mod 4096 \<noteq> 0 then Panic ''uvmunmap: not aligned''
      else let stop = va + npages * 4096 in
        uvmunmap_loop (Suc (unat (stop - va) div PGSIZE)) pagetable va stop do_free s)"

text \<open>The page count is an \<open>int\<close> in the source: the quotient is truncated to 32 bits and sign
  extended when it is passed on.\<close>

definition uvmdealloc :: "addr \<Rightarrow> u64 \<Rightarrow> u64 \<Rightarrow> kstate \<Rightarrow> u64 kres" where
  "uvmdealloc pagetable oldsz newsz s =
     (if newsz \<ge> oldsz then Ok oldsz s
      else if PGROUNDUP newsz < PGROUNDUP oldsz then
        let npages = (ucast ((PGROUNDUP oldsz - PGROUNDUP newsz) div 4096) :: u32) in
        bind (uvmunmap pagetable (PGROUNDUP newsz) (scast npages) True s) (\<lambda>_ s. Ok newsz s)
      else Ok newsz s)"

primrec uvmalloc_loop :: "nat \<Rightarrow> addr \<Rightarrow> u64 \<Rightarrow> u64 \<Rightarrow> u64 \<Rightarrow> u64 \<Rightarrow> kstate \<Rightarrow> u64 kres" where
  "uvmalloc_loop 0 pagetable a oldsz newsz xperm s = Block s"
| "uvmalloc_loop (Suc k) pagetable a oldsz newsz xperm s =
     (if a < newsz then
        bind (kalloc s) (\<lambda>p s.
        if p = 0 then bind (uvmdealloc pagetable a oldsz s) (\<lambda>_ s. Ok 0 s)
        else
          bind (mappages pagetable a 4096 p (PTE_R OR PTE_U OR xperm)
                  (s\<lparr>mem := memset (mem s) p 0 PGSIZE\<rparr>)) (\<lambda>r s.
          if r \<noteq> 0 then
            bind (kfree p s) (\<lambda>_ s.
            bind (uvmdealloc pagetable a oldsz s) (\<lambda>_ s. Ok 0 s))
          else uvmalloc_loop k pagetable (a + 4096) oldsz newsz xperm s))
      else Ok newsz s)"

definition uvmalloc :: "addr \<Rightarrow> u64 \<Rightarrow> u64 \<Rightarrow> u64 \<Rightarrow> kstate \<Rightarrow> u64 kres" where
  "uvmalloc pagetable oldsz newsz xperm s =
     (if newsz < oldsz then Ok oldsz s
      else let oldsz = PGROUNDUP oldsz in
        uvmalloc_loop (Suc (unat newsz div PGSIZE + 1)) pagetable oldsz oldsz newsz xperm s)"

text \<open>The recursion of \<open>freewalk\<close> with the depth it may reach; page tables have three levels.\<close>

primrec freewalk_depth :: "nat \<Rightarrow> addr \<Rightarrow> kstate \<Rightarrow> unit kres" where
  "freewalk_depth 0 pagetable s = Block s"
| "freewalk_depth (Suc d) pagetable s =
     bind (for_each [0..<512] (\<lambda>i s.
       let at = pte_at pagetable (of_nat i); pte = load64 (mem s) at in
       if pte AND PTE_V \<noteq> 0 \<and> pte AND (PTE_R OR PTE_W OR PTE_X) = 0 then
         bind (freewalk_depth d (PTE2PA pte) s) (\<lambda>_ s. Ok () (s\<lparr>mem := store64 (mem s) at 0\<rparr>))
       else if pte AND PTE_V \<noteq> 0 then Panic ''freewalk: leaf''
       else Ok () s) s) (\<lambda>_ s.
     kfree pagetable s)"

definition freewalk :: "addr \<Rightarrow> kstate \<Rightarrow> unit kres" where
  "freewalk pagetable s = freewalk_depth 3 pagetable s"

definition uvmfree :: "addr \<Rightarrow> u64 \<Rightarrow> kstate \<Rightarrow> unit kres" where
  "uvmfree pagetable sz s =
     bind (if sz > 0 then uvmunmap pagetable 0 (PGROUNDUP sz div 4096) True s else Ok () s) (\<lambda>_ s.
     freewalk pagetable s)"

primrec uvmcopy_loop :: "nat \<Rightarrow> addr \<Rightarrow> addr \<Rightarrow> u64 \<Rightarrow> u64 \<Rightarrow> kstate \<Rightarrow> int kres" where
  "uvmcopy_loop 0 old new i sz s = Block s"
| "uvmcopy_loop (Suc k) old new i sz s =
     (if i < sz then
        bind (walk old i False s) (\<lambda>pte s.
        if pte = 0 then uvmcopy_loop k old new (i + 4096) sz s
        else let e = load64 (mem s) pte in
          if e AND PTE_V = 0 then uvmcopy_loop k old new (i + 4096) sz s
          else
            bind (kalloc s) (\<lambda>p s.
            if p = 0 then bind (uvmunmap new 0 (i div 4096) True s) (\<lambda>_ s. Ok (- 1) s)
            else
              bind (mappages new i 4096 p (PTE_FLAGS e)
                      (s\<lparr>mem := memmove (mem s) p (PTE2PA e) PGSIZE\<rparr>)) (\<lambda>r s.
              if r \<noteq> 0 then
                bind (kfree p s) (\<lambda>_ s.
                bind (uvmunmap new 0 (i div 4096) True s) (\<lambda>_ s. Ok (- 1) s))
              else uvmcopy_loop k old new (i + 4096) sz s)))
      else Ok 0 s)"

definition uvmcopy :: "addr \<Rightarrow> addr \<Rightarrow> u64 \<Rightarrow> kstate \<Rightarrow> int kres" where
  "uvmcopy old new sz s = uvmcopy_loop (Suc (unat sz div PGSIZE + 1)) old new 0 sz s"

definition uvmclear :: "addr \<Rightarrow> u64 \<Rightarrow> kstate \<Rightarrow> unit kres" where
  "uvmclear pagetable va s =
     bind (walk pagetable va False s) (\<lambda>pte s.
     if pte = 0 then Panic ''uvmclear''
     else Ok () (s\<lparr>mem := store64 (mem s) pte (load64 (mem s) pte AND NOT PTE_U)\<rparr>))"

section \<open>Faults and copies\<close>

definition ismapped :: "addr \<Rightarrow> u64 \<Rightarrow> kstate \<Rightarrow> bool kres" where
  "ismapped pagetable va s =
     bind (walk pagetable va False s) (\<lambda>pte s.
     Ok (pte \<noteq> 0 \<and> load64 (mem s) pte AND PTE_V \<noteq> 0) s)"

definition vmfault :: "addr \<Rightarrow> u64 \<Rightarrow> kstate \<Rightarrow> u64 kres" where
  "vmfault pagetable va s =
     (case cur s of
        None \<Rightarrow> Panic ''kerneltrap''
      | Some p \<Rightarrow>
          if va \<ge> p_sz (procs s p) then Ok 0 s
          else let va = PGROUNDDOWN va in
            bind (ismapped pagetable va s) (\<lambda>b s.
            if b then Ok 0 s
            else
              bind (kalloc s) (\<lambda>m s.
              if m = 0 then Ok 0 s
              else
                bind (mappages (p_pagetable (procs s p)) va 4096 m (PTE_W OR PTE_U OR PTE_R)
                        (s\<lparr>mem := memset (mem s) m 0 PGSIZE\<rparr>)) (\<lambda>r s.
                if r \<noteq> 0 then bind (kfree m s) (\<lambda>_ s. Ok 0 s) else Ok m s))))"

primrec copyout_loop :: "nat \<Rightarrow> addr \<Rightarrow> u64 \<Rightarrow> byte list \<Rightarrow> kstate \<Rightarrow> int kres" where
  "copyout_loop 0 pagetable dstva src s = Block s"
| "copyout_loop (Suc k) pagetable dstva src s =
     (if src = [] then Ok 0 s
      else let va0 = PGROUNDDOWN dstva in
        if va0 \<ge> MAXVA then Ok (- 1) s
        else
          bind (walkaddr pagetable va0 s) (\<lambda>pa s.
          bind (if pa = 0 then vmfault pagetable va0 s else Ok pa s) (\<lambda>pa0 s.
          if pa0 = 0 then Ok (- 1) s
          else
            bind (walk pagetable va0 False s) (\<lambda>pte s.
            if pte = 0 then Panic ''kerneltrap''
            else if load64 (mem s) pte AND PTE_W = 0 then Ok (- 1) s
            else let n = min (PGSIZE - unat (dstva - va0)) (length src) in
              copyout_loop k pagetable (va0 + 4096) (drop n src)
                (s\<lparr>mem := mem_write (mem s) (pa0 + (dstva - va0)) (take n src)\<rparr>)))))"

definition copyout :: "addr \<Rightarrow> u64 \<Rightarrow> byte list \<Rightarrow> kstate \<Rightarrow> int kres" where
  "copyout pagetable dstva src s = copyout_loop (Suc (length src)) pagetable dstva src s"

primrec copyin_loop :: "nat \<Rightarrow> addr \<Rightarrow> byte list \<Rightarrow> u64 \<Rightarrow> nat \<Rightarrow> kstate \<Rightarrow> (int \<times> byte list) kres" where
  "copyin_loop 0 pagetable acc srcva len s = Block s"
| "copyin_loop (Suc k) pagetable acc srcva len s =
     (if len = 0 then Ok (0, acc) s
      else let va0 = PGROUNDDOWN srcva in
        bind (walkaddr pagetable va0 s) (\<lambda>pa s.
        bind (if pa = 0 then vmfault pagetable va0 s else Ok pa s) (\<lambda>pa0 s.
        if pa0 = 0 then Ok (- 1, acc) s
        else let n = min (PGSIZE - unat (srcva - va0)) len in
          copyin_loop k pagetable (acc @ mem_read (mem s) (pa0 + (srcva - va0)) n)
            (va0 + 4096) (len - n) s)))"

definition copyin :: "addr \<Rightarrow> u64 \<Rightarrow> nat \<Rightarrow> kstate \<Rightarrow> (int \<times> byte list) kres" where
  "copyin pagetable srcva len s = copyin_loop (Suc len) pagetable [] srcva len s"

text \<open>The inner loop of \<open>copyinstr\<close>: at most \<open>n\<close> bytes from physical address \<open>p\<close>, up to and
  including the first zero byte; whether there was one.\<close>

primrec copy_chars :: "nat \<Rightarrow> memory \<Rightarrow> addr \<Rightarrow> byte list \<times> bool" where
  "copy_chars 0 m p = ([], False)"
| "copy_chars (Suc n) m p =
     (if m p = 0 then ([0], True) else let (bs, got) = copy_chars n m (p + 1) in (m p # bs, got))"

primrec copyinstr_loop :: "nat \<Rightarrow> addr \<Rightarrow> byte list \<Rightarrow> u64 \<Rightarrow> nat \<Rightarrow> kstate \<Rightarrow> (int \<times> byte list) kres" where
  "copyinstr_loop 0 pagetable acc srcva mx s = Block s"
| "copyinstr_loop (Suc k) pagetable acc srcva mx s =
     (if mx = 0 then Ok (- 1, acc) s
      else let va0 = PGROUNDDOWN srcva in
        bind (walkaddr pagetable va0 s) (\<lambda>pa0 s.
        if pa0 = 0 then Ok (- 1, acc) s
        else
          let n = min (PGSIZE - unat (srcva - va0)) mx;
              (bs, got_null) = copy_chars n (mem s) (pa0 + (srcva - va0)) in
          if got_null then Ok (0, acc @ bs) s
          else copyinstr_loop k pagetable (acc @ bs) (va0 + 4096) (mx - n) s))"

definition copyinstr :: "addr \<Rightarrow> u64 \<Rightarrow> nat \<Rightarrow> kstate \<Rightarrow> (int \<times> byte list) kres" where
  "copyinstr pagetable srcva mx s = copyinstr_loop (Suc mx) pagetable [] srcva mx s"

section \<open>The kernel's page table\<close>

definition kvmmap :: "addr \<Rightarrow> u64 \<Rightarrow> u64 \<Rightarrow> u64 \<Rightarrow> u64 \<Rightarrow> kstate \<Rightarrow> unit kres" where
  "kvmmap kpgtbl va pa sz perm s =
     bind (mappages kpgtbl va sz pa perm s) (\<lambda>r s.
     if r \<noteq> 0 then Panic ''kvmmap'' else Ok () s)"

definition proc_mapstacks :: "addr \<Rightarrow> kstate \<Rightarrow> unit kres" where
  "proc_mapstacks kpgtbl s =
     for_each [0..<NPROC] (\<lambda>p s.
       bind (kalloc s) (\<lambda>pa s.
       if pa = 0 then Panic ''kalloc''
       else kvmmap kpgtbl (KSTACK p) pa 4096 (PTE_R OR PTE_W) s)) s"

definition kvmmake :: "kstate \<Rightarrow> addr kres" where
  "kvmmake s =
     bind (kalloc s) (\<lambda>kpgtbl s.
     if kpgtbl = 0 then Panic ''kerneltrap''
     else
       let s = s\<lparr>mem := memset (mem s) kpgtbl 0 PGSIZE\<rparr>;
           etext = y_etext (syms s); trampoline = y_trampoline (syms s) in
       bind (kvmmap kpgtbl UART0 UART0 4096 (PTE_R OR PTE_W) s) (\<lambda>_ s.
       bind (kvmmap kpgtbl VIRTIO0 VIRTIO0 4096 (PTE_R OR PTE_W) s) (\<lambda>_ s.
       bind (kvmmap kpgtbl PLIC PLIC 0x4000000 (PTE_R OR PTE_W) s) (\<lambda>_ s.
       bind (kvmmap kpgtbl KERNBASE KERNBASE (etext - KERNBASE) (PTE_R OR PTE_X) s) (\<lambda>_ s.
       bind (kvmmap kpgtbl etext etext (PHYSTOP - etext) (PTE_R OR PTE_W) s) (\<lambda>_ s.
       bind (kvmmap kpgtbl TRAMPOLINE trampoline 4096 (PTE_R OR PTE_X) s) (\<lambda>_ s.
       bind (proc_mapstacks kpgtbl s) (\<lambda>_ s.
       Ok kpgtbl s))))))))"

definition kvminit :: "kstate \<Rightarrow> unit kres" where
  "kvminit s = bind (kvmmake s) (\<lambda>k s. Ok () (s\<lparr>kernel_pagetable := k\<rparr>))"

definition kvminithart :: "kstate \<Rightarrow> kstate" where
  "kvminithart s = s\<lparr>csr := (csr s)\<lparr>c_satp := MAKE_SATP (kernel_pagetable s)\<rparr>\<rparr>"

end
