(* ===== verification/Proc.thy ===== *)
theory Proc
  imports Vm
begin

text \<open>
  Processes: the parts of \<^verbatim>\<open>kernel/proc.c\<close> below the file system. \<open>kfork\<close>, \<open>kexit\<close>,
  \<open>userinit\<close> and \<open>forkret\<close>, which use files and inodes, are in theory \<open>Process\<close>.

  The trap frame of a process lies in memory at \<open>p->trapframe\<close>; its fields are read and written
  at their offsets in the structure. The source and the destination of \<open>either_copyin\<close>
  and \<open>either_copyout\<close> are a user address, a kernel address, or a variable of the caller: bytes
  for such a variable are returned to the caller instead of being stored in memory.
\<close>

unbundle bit_operations_syntax

section \<open>Trap frames\<close>

abbreviation (input) TF_kernel_satp :: u64 where "TF_kernel_satp \<equiv> 0"
abbreviation (input) TF_kernel_sp :: u64 where "TF_kernel_sp \<equiv> 8"
abbreviation (input) TF_kernel_trap :: u64 where "TF_kernel_trap \<equiv> 16"
abbreviation (input) TF_epc :: u64 where "TF_epc \<equiv> 24"
abbreviation (input) TF_kernel_hartid :: u64 where "TF_kernel_hartid \<equiv> 32"
abbreviation (input) TF_sp :: u64 where "TF_sp \<equiv> 48"
abbreviation (input) TF_a0 :: u64 where "TF_a0 \<equiv> 112"
abbreviation (input) TF_a1 :: u64 where "TF_a1 \<equiv> 120"
abbreviation (input) TF_a7 :: u64 where "TF_a7 \<equiv> 168"
abbreviation (input) TF_SIZE :: nat where "TF_SIZE \<equiv> 288"

definition tf_get :: "nat \<Rightarrow> u64 \<Rightarrow> kstate \<Rightarrow> u64" where
  "tf_get p f s = load64 (mem s) (p_trapframe (procs s p) + f)"

definition tf_set :: "nat \<Rightarrow> u64 \<Rightarrow> u64 \<Rightarrow> kstate \<Rightarrow> kstate" where
  "tf_set p f v s = s\<lparr>mem := store64 (mem s) (p_trapframe (procs s p) + f) v\<rparr>"

section \<open>The process table\<close>

definition procinit :: "kstate \<Rightarrow> kstate" where
  "procinit s = fold (\<lambda>p. upd_proc p (\<lambda>q. q\<lparr>p_state := UNUSED, p_kstack := KSTACK p\<rparr>)) [0..<NPROC] s"

definition allocpid :: "kstate \<Rightarrow> int kres" where
  "allocpid s =
     bind (acquire L_pid s) (\<lambda>_ s.
     let pid = nextpid s in
     bind (release L_pid (s\<lparr>nextpid := nextpid s + 1\<rparr>)) (\<lambda>_ s.
     Ok pid s))"

definition proc_freepagetable :: "addr \<Rightarrow> u64 \<Rightarrow> kstate \<Rightarrow> unit kres" where
  "proc_freepagetable pagetable sz s =
     bind (uvmunmap pagetable TRAMPOLINE 1 False s) (\<lambda>_ s.
     bind (uvmunmap pagetable TRAPFRAME 1 False s) (\<lambda>_ s.
     uvmfree pagetable sz s))"

definition freeproc :: "nat \<Rightarrow> kstate \<Rightarrow> unit kres" where
  "freeproc p s =
     bind (if p_trapframe (procs s p) \<noteq> 0 then kfree (p_trapframe (procs s p)) s else Ok () s) (\<lambda>_ s.
     let s = upd_proc p (\<lambda>q. q\<lparr>p_trapframe := 0\<rparr>) s in
     bind (if p_pagetable (procs s p) \<noteq> 0
           then proc_freepagetable (p_pagetable (procs s p)) (p_sz (procs s p)) s else Ok () s) (\<lambda>_ s.
     Ok () (upd_proc p (\<lambda>q. q\<lparr>p_pagetable := 0, p_sz := 0, p_pid := 0, p_parent := None,
       p_name := (p_name q)[0 := 0], p_chan := None, p_killed := False, p_xstate := 0,
       p_state := UNUSED\<rparr>) s)))"

definition proc_pagetable :: "nat \<Rightarrow> kstate \<Rightarrow> addr kres" where
  "proc_pagetable p s =
     bind (uvmcreate s) (\<lambda>pagetable s.
     if pagetable = 0 then Ok 0 s
     else
       bind (mappages pagetable TRAMPOLINE 4096 (y_trampoline (syms s)) (PTE_R OR PTE_X) s) (\<lambda>r s.
       if r < 0 then bind (uvmfree pagetable 0 s) (\<lambda>_ s. Ok 0 s)
       else
         bind (mappages pagetable TRAPFRAME 4096 (p_trapframe (procs s p)) (PTE_R OR PTE_W) s) (\<lambda>r s.
         if r < 0 then
           bind (uvmunmap pagetable TRAMPOLINE 1 False s) (\<lambda>_ s.
           bind (uvmfree pagetable 0 s) (\<lambda>_ s. Ok 0 s))
         else Ok pagetable s)))"

text \<open>The search of \<open>allocproc\<close>: it returns with the lock of the process it found held.\<close>

fun allocproc_find :: "nat list \<Rightarrow> kstate \<Rightarrow> nat option kres" where
  "allocproc_find [] s = Ok None s"
| "allocproc_find (p # ps) s =
     bind (acquire (L_proc p) s) (\<lambda>_ s.
     if p_state (procs s p) = UNUSED then Ok (Some p) s
     else bind (release (L_proc p) s) (\<lambda>_ s. allocproc_find ps s))"

definition allocproc_fail :: "nat \<Rightarrow> kstate \<Rightarrow> nat option kres" where
  "allocproc_fail p s =
     bind (freeproc p s) (\<lambda>_ s. bind (release (L_proc p) s) (\<lambda>_ s. Ok None s))"

definition allocproc :: "kstate \<Rightarrow> nat option kres" where
  "allocproc s =
     bind (allocproc_find [0..<NPROC] s) (\<lambda>f s.
     case f of
       None \<Rightarrow> Ok None s
     | Some p \<Rightarrow>
         bind (allocpid s) (\<lambda>pid s.
         bind (kalloc (upd_proc p (\<lambda>q. q\<lparr>p_pid := pid, p_state := USED\<rparr>) s)) (\<lambda>tf s.
         let s = upd_proc p (\<lambda>q. q\<lparr>p_trapframe := tf\<rparr>) s in
         if tf = 0 then allocproc_fail p s
         else
           bind (proc_pagetable p s) (\<lambda>pagetable s.
           let s = upd_proc p (\<lambda>q. q\<lparr>p_pagetable := pagetable\<rparr>) s in
           if pagetable = 0 then allocproc_fail p s
           else Ok (Some p) (upd_proc p (\<lambda>q. q\<lparr>p_context_ra := Forkret,
                  p_context_sp := p_kstack q + 4096\<rparr>) s)))))"

definition growproc :: "int \<Rightarrow> kstate \<Rightarrow> int kres" where
  "growproc n s =
     (case cur s of
        None \<Rightarrow> Panic ''kerneltrap''
      | Some p \<Rightarrow>
          let sz = p_sz (procs s p); pagetable = p_pagetable (procs s p) in
          if n > 0 then
            bind (uvmalloc pagetable sz (sz + of_int n) PTE_W s) (\<lambda>sz s.
            if sz = 0 then Ok (- 1) s
            else Ok 0 (upd_proc p (\<lambda>q. q\<lparr>p_sz := sz\<rparr>) s))
          else if n < 0 then
            bind (uvmdealloc pagetable sz (sz + of_int n) s) (\<lambda>sz s.
            Ok 0 (upd_proc p (\<lambda>q. q\<lparr>p_sz := sz\<rparr>) s))
          else Ok 0 (upd_proc p (\<lambda>q. q\<lparr>p_sz := sz\<rparr>) s))"

section \<open>Waiting and killing\<close>

text \<open>\<open>wakeup\<close> on a process pointer, which may be null.\<close>

definition wakeup_ptr :: "nat option \<Rightarrow> kstate \<Rightarrow> unit kres" where
  "wakeup_ptr x s =
     for_each [0..<NPROC] (\<lambda>p s.
       if Some p = cur s then Ok () s
       else bind (acquire (L_proc p) s) (\<lambda>_ s.
            release (L_proc p)
              (if p_state (procs s p) = SLEEPING \<and> p_chan (procs s p) = map_option Ch_proc x
               then upd_proc p (\<lambda>q. q\<lparr>p_state := RUNNABLE\<rparr>) s else s))) s"

definition reparent :: "nat \<Rightarrow> kstate \<Rightarrow> unit kres" where
  "reparent p s =
     for_each [0..<NPROC] (\<lambda>pp s.
       if p_parent (procs s pp) = Some p
       then wakeup_ptr (initproc s) (upd_proc pp (\<lambda>q. q\<lparr>p_parent := initproc s\<rparr>) s)
       else Ok () s) s"

definition setkilled :: "nat \<Rightarrow> kstate \<Rightarrow> unit kres" where
  "setkilled p s =
     bind (acquire (L_proc p) s) (\<lambda>_ s.
     release (L_proc p) (upd_proc p (\<lambda>q. q\<lparr>p_killed := True\<rparr>) s))"

definition killed :: "nat \<Rightarrow> kstate \<Rightarrow> bool kres" where
  "killed p s =
     bind (acquire (L_proc p) s) (\<lambda>_ s.
     let k = p_killed (procs s p) in
     bind (release (L_proc p) s) (\<lambda>_ s. Ok k s))"

fun kkill_from :: "nat list \<Rightarrow> int \<Rightarrow> kstate \<Rightarrow> int kres" where
  "kkill_from [] pid s = Ok (- 1) s"
| "kkill_from (p # ps) pid s =
     bind (acquire (L_proc p) s) (\<lambda>_ s.
     if p_pid (procs s p) = pid then
       bind (release (L_proc p) (upd_proc p (\<lambda>q. q\<lparr>p_killed := True,
         p_state := (if p_state q = SLEEPING then RUNNABLE else p_state q)\<rparr>) s)) (\<lambda>_ s.
       Ok 0 s)
     else bind (release (L_proc p) s) (\<lambda>_ s. kkill_from ps pid s))"

definition kkill :: "int \<Rightarrow> kstate \<Rightarrow> int kres" where
  "kkill pid s = kkill_from [0..<NPROC] pid s"

text \<open>One pass of \<open>kwait\<close> over the table: \<open>Inr\<close> with the value to return, or \<open>Inl\<close> with
  \<open>havekids\<close>.\<close>

fun kwait_scan :: "nat list \<Rightarrow> bool \<Rightarrow> nat \<Rightarrow> u64 \<Rightarrow> kstate \<Rightarrow> (bool + int) kres" where
  "kwait_scan [] havekids p addr s = Ok (Inl havekids) s"
| "kwait_scan (pp # ps) havekids p addr s =
     (if p_parent (procs s pp) = Some p then
        bind (acquire (L_proc pp) s) (\<lambda>_ s.
        if p_state (procs s pp) = ZOMBIE then
          let pid = p_pid (procs s pp) in
          bind (if addr \<noteq> 0
                then copyout (p_pagetable (procs s p)) addr
                       (bytes_of 4 (of_int (p_xstate (procs s pp)) :: u32)) s
                else Ok 0 s) (\<lambda>r s.
          if r < 0 then
            bind (release (L_proc pp) s) (\<lambda>_ s.
            bind (release L_wait s) (\<lambda>_ s. Ok (Inr (- 1)) s))
          else
            bind (freeproc pp s) (\<lambda>_ s.
            bind (release (L_proc pp) s) (\<lambda>_ s.
            bind (release L_wait s) (\<lambda>_ s. Ok (Inr pid) s))))
        else
          bind (release (L_proc pp) s) (\<lambda>_ s. kwait_scan ps True p addr s))
      else kwait_scan ps havekids p addr s)"

text \<open>The loop of \<open>kwait\<close>; a sleeper that is woken runs it again.\<close>

definition kwait_loop :: "u64 \<Rightarrow> kstate \<Rightarrow> int kres" where
  "kwait_loop addr s =
     (case cur s of
        None \<Rightarrow> Panic ''kerneltrap''
      | Some p \<Rightarrow>
          bind (kwait_scan [0..<NPROC] False p addr s) (\<lambda>r s.
          case r of
            Inr v \<Rightarrow> Ok v s
          | Inl havekids \<Rightarrow>
              bind (if havekids then killed p s else Ok True s) (\<lambda>stop s.
              if stop then bind (release L_wait s) (\<lambda>_ s. Ok (- 1) s)
              else sleep (Ch_proc p) L_wait s)))"

definition kwait :: "u64 \<Rightarrow> kstate \<Rightarrow> int kres" where
  "kwait addr s = bind (acquire L_wait s) (\<lambda>_ s. kwait_loop addr s)"

section \<open>The scheduler\<close>

text \<open>A pass of \<open>scheduler\<close> over the processes up to the next switch: the process chosen, whose
  lock is then held; \<open>None\<close> when there was none and the hart waits for an interrupt.
  \<open>scheduler_return\<close> is what follows the switch back.\<close>

fun scheduler_from :: "nat list \<Rightarrow> kstate \<Rightarrow> nat option kres" where
  "scheduler_from [] s = Ok None s"
| "scheduler_from (p # ps) s =
     bind (acquire (L_proc p) s) (\<lambda>_ s.
     if p_state (procs s p) = RUNNABLE then
       Ok (Some p) ((upd_proc p (\<lambda>q. q\<lparr>p_state := RUNNING\<rparr>) s)\<lparr>cur := Some p\<rparr>)
     else bind (release (L_proc p) s) (\<lambda>_ s. scheduler_from ps s))"

definition scheduler_return :: "nat \<Rightarrow> kstate \<Rightarrow> unit kres" where
  "scheduler_return p s = release (L_proc p) (s\<lparr>cur := None\<rparr>)"

definition yield :: "kstate \<Rightarrow> unit kres" where
  "yield s =
     (case cur s of
        None \<Rightarrow> Panic ''kerneltrap''
      | Some p \<Rightarrow>
          bind (acquire (L_proc p) s) (\<lambda>_ s.
          sched (upd_proc p (\<lambda>q. q\<lparr>p_state := RUNNABLE\<rparr>) s)))"

text \<open>The rest of \<open>yield\<close>, when the process runs again.\<close>

definition yield_resume :: "kstate \<Rightarrow> unit kres" where
  "yield_resume s =
     (case cur s of
        None \<Rightarrow> Panic ''kerneltrap''
      | Some p \<Rightarrow> release (L_proc p) s)"

section \<open>Copies from and to either address space\<close>

datatype kdst = UserDst addr | KernDst addr | LocalDst
datatype ksrc = UserSrc addr | KernSrc addr | LocalSrc "byte list"

definition either_copyout :: "kdst \<Rightarrow> byte list \<Rightarrow> kstate \<Rightarrow> int kres" where
  "either_copyout dst src s =
     (case dst of
        UserDst va \<Rightarrow>
          (case cur s of
             None \<Rightarrow> Panic ''kerneltrap''
           | Some p \<Rightarrow> copyout (p_pagetable (procs s p)) va src s)
      | KernDst pa \<Rightarrow> Ok 0 (s\<lparr>mem := mem_write (mem s) pa src\<rparr>)
      | LocalDst \<Rightarrow> Ok 0 s)"

definition either_copyin :: "ksrc \<Rightarrow> nat \<Rightarrow> kstate \<Rightarrow> (int \<times> byte list) kres" where
  "either_copyin src len s =
     (case src of
        UserSrc va \<Rightarrow>
          (case cur s of
             None \<Rightarrow> Panic ''kerneltrap''
           | Some p \<Rightarrow> copyin (p_pagetable (procs s p)) va len s)
      | KernSrc pa \<Rightarrow> Ok (0, mem_read (mem s) pa len) s
      | LocalSrc bs \<Rightarrow> Ok (0, take len bs) s)"

primrec dst_add :: "kdst \<Rightarrow> nat \<Rightarrow> kdst" where
  "dst_add (UserDst a) n = UserDst (a + of_nat n)"
| "dst_add (KernDst a) n = KernDst (a + of_nat n)"
| "dst_add LocalDst n = LocalDst"

primrec src_add :: "ksrc \<Rightarrow> nat \<Rightarrow> ksrc" where
  "src_add (UserSrc a) n = UserSrc (a + of_nat n)"
| "src_add (KernSrc a) n = KernSrc (a + of_nat n)"
| "src_add (LocalSrc bs) n = LocalSrc (drop n bs)"

definition procdump :: "kstate \<Rightarrow> kstate" where
  "procdump s =
     fold (\<lambda>p s. if p_state (procs s p) = UNUSED then s
                 else kprintf [CHR 0x0A] (kprintf ''%d %s %s'' s)) [0..<NPROC] (kprintf [CHR 0x0A] s)"

end
