(* ===== verification/Fs.thy ===== *)
theory Fs
  imports Proc Crash
begin

text \<open>
  The file system of \<^verbatim>\<open>kernel/fs.c\<close> and the on-disk format of \<^verbatim>\<open>kernel/fs.h\<close>: block allocator,
  inodes, file contents, directories and path names. The structures on disk are read and
  written at their byte offsets in the data of a buffer. Inodes in memory are entries of the
  table \<open>inodes\<close>, and \<open>struct inode *\<close> is an index into it, \<open>None\<close> for a null result. Path names
  and directory entry names, which are arrays on the kernel's stack, are byte lists without the
  terminating zero.
\<close>

unbundle bit_operations_syntax

abbreviation (input) FSMAGIC :: u32 where "FSMAGIC \<equiv> 0x10203040"
abbreviation (input) BPB :: nat where "BPB \<equiv> 8192"
abbreviation (input) IPB :: nat where "IPB \<equiv> 16"
abbreviation (input) DIRSIZ :: nat where "DIRSIZ \<equiv> 14"
abbreviation (input) T_DIR :: u16 where "T_DIR \<equiv> 1"
abbreviation (input) T_FILE :: u16 where "T_FILE \<equiv> 2"
abbreviation (input) T_DEVICE :: u16 where "T_DEVICE \<equiv> 3"

section \<open>On-disk structures\<close>

definition dec_superblock :: "byte list \<Rightarrow> superblock" where
  "dec_superblock d = \<lparr>sb_magic = get32 d 0, sb_size = get32 d 4, sb_nblocks = get32 d 8,
     sb_ninodes = get32 d 12, sb_nlog = get32 d 16, sb_logstart = get32 d 20,
     sb_inodestart = get32 d 24, sb_bmapstart = get32 d 28\<rparr>"

record dinode =
  di_type :: u16
  di_major :: u16
  di_minor :: u16
  di_nlink :: u16
  di_size :: u32
  di_addrs :: "nat \<Rightarrow> u32"

definition dec_dinode :: "byte list \<Rightarrow> nat \<Rightarrow> dinode" where
  "dec_dinode d off = \<lparr>di_type = get16 d off, di_major = get16 d (off + 2),
     di_minor = get16 d (off + 4), di_nlink = get16 d (off + 6), di_size = get32 d (off + 8),
     di_addrs = (\<lambda>i. get32 d (off + 12 + 4 * i))\<rparr>"

definition put_addrs :: "byte list \<Rightarrow> nat \<Rightarrow> (nat \<Rightarrow> u32) \<Rightarrow> byte list" where
  "put_addrs d off a = fold (\<lambda>i d. put32 d (off + 4 * i) (a i)) [0..<NDIRECT + 1] d"

definition put_inode :: "byte list \<Rightarrow> nat \<Rightarrow> inode \<Rightarrow> byte list" where
  "put_inode d off ip =
     put_addrs
       (put32 (put16 (put16 (put16 (put16 d off (i_type ip)) (off + 2) (i_major ip))
          (off + 4) (i_minor ip)) (off + 6) (i_nlink ip)) (off + 8) (i_size ip))
       (off + 12) (i_addrs ip)"

definition IBLOCK :: "u32 \<Rightarrow> superblock \<Rightarrow> u32" where
  "IBLOCK i sbp = i div 16 + sb_inodestart sbp"

definition ioff :: "u32 \<Rightarrow> nat" where
  "ioff inum = 64 * unat (inum mod 16)"

definition BBLOCK :: "u32 \<Rightarrow> superblock \<Rightarrow> u32" where
  "BBLOCK b sbp = b div 8192 + sb_bmapstart sbp"

section \<open>Blocks\<close>

definition readsb :: "u32 \<Rightarrow> kstate \<Rightarrow> unit kres" where
  "readsb dev s =
     bind (bread dev 1 s) (\<lambda>bp s.
     brelse bp (s\<lparr>sb := dec_superblock (b_data (bufs s bp))\<rparr>))"

definition bzero :: "u32 \<Rightarrow> u32 \<Rightarrow> kstate \<Rightarrow> unit kres" where
  "bzero dev bno s =
     bind (bread dev bno s) (\<lambda>bp s.
     bind (log_write bp (set_data bp (replicate BSIZE 0) s)) (\<lambda>_ s.
     brelse bp s))"

abbreviation bmask :: "nat \<Rightarrow> byte" where
  "bmask bi \<equiv> push_bit (bi mod 8) 1"

text \<open>The scan of one bitmap block, from bit \<open>bi\<close> on.\<close>

primrec balloc_scan :: "nat \<Rightarrow> byte list \<Rightarrow> u32 \<Rightarrow> u32 \<Rightarrow> nat \<Rightarrow> nat option" where
  "balloc_scan 0 d b sz bi = None"
| "balloc_scan (Suc k) d b sz bi =
     (if bi < BPB \<and> b + of_nat bi < sz then
        if d ! (bi div 8) AND bmask bi = 0 then Some bi else balloc_scan k d b sz (Suc bi)
      else None)"

primrec balloc_loop :: "nat \<Rightarrow> u32 \<Rightarrow> u32 \<Rightarrow> kstate \<Rightarrow> u32 kres" where
  "balloc_loop 0 dev b s = Block s"
| "balloc_loop (Suc k) dev b s =
     (if b < sb_size (sb s) then
        bind (bread dev (BBLOCK b (sb s)) s) (\<lambda>bp s.
        let d = b_data (bufs s bp) in
        case balloc_scan BPB d b (sb_size (sb s)) 0 of
          Some bi \<Rightarrow>
            bind (log_write bp (set_data bp (d[bi div 8 := d ! (bi div 8) OR bmask bi]) s)) (\<lambda>_ s.
            bind (brelse bp s) (\<lambda>_ s.
            bind (bzero dev (b + of_nat bi) s) (\<lambda>_ s.
            Ok (b + of_nat bi) s)))
        | None \<Rightarrow> bind (brelse bp s) (\<lambda>_ s. balloc_loop k dev (b + 8192) s))
      else Ok 0 (kprintf ''balloc: out of blocks'' s))"

definition balloc :: "u32 \<Rightarrow> kstate \<Rightarrow> u32 kres" where
  "balloc dev s = balloc_loop (unat (sb_size (sb s)) div BPB + 2) dev 0 s"

definition bfree :: "u32 \<Rightarrow> u32 \<Rightarrow> kstate \<Rightarrow> unit kres" where
  "bfree dev b s =
     bind (bread dev (BBLOCK b (sb s)) s) (\<lambda>bp s.
     let d = b_data (bufs s bp); bi = unat (b mod 8192) in
     if d ! (bi div 8) AND bmask bi = 0 then Panic ''freeing free block''
     else
       bind (log_write bp (set_data bp (d[bi div 8 := d ! (bi div 8) AND NOT (bmask bi)]) s)) (\<lambda>_ s.
       brelse bp s))"

section \<open>Inodes\<close>

abbreviation upd_inode :: "nat \<Rightarrow> (inode \<Rightarrow> inode) \<Rightarrow> kstate \<Rightarrow> kstate" where
  "upd_inode ip f s \<equiv> s\<lparr>inodes := (inodes s)(ip := f (inodes s ip))\<rparr>"

definition iinit :: "kstate \<Rightarrow> kstate" where
  "iinit s = fold (\<lambda>i. initsleeplock (SLinode i)) [0..<NINODE] s"

definition iget :: "u32 \<Rightarrow> u32 \<Rightarrow> kstate \<Rightarrow> nat kres" where
  "iget dev inum s =
     bind (acquire L_itable s) (\<lambda>_ s.
     case List.find (\<lambda>i. i_ref (inodes s i) > 0 \<and> i_dev (inodes s i) = dev
                         \<and> i_inum (inodes s i) = inum) [0..<NINODE] of
       Some ip \<Rightarrow>
         bind (release L_itable (upd_inode ip (\<lambda>x. x\<lparr>i_ref := i_ref x + 1\<rparr>) s)) (\<lambda>_ s. Ok ip s)
     | None \<Rightarrow>
         case List.find (\<lambda>i. i_ref (inodes s i) = 0) [0..<NINODE] of
           None \<Rightarrow> Panic ''iget: no inodes''
         | Some ip \<Rightarrow>
             bind (release L_itable (upd_inode ip (\<lambda>x. x\<lparr>i_dev := dev, i_inum := inum, i_ref := 1,
               i_valid := False\<rparr>) s)) (\<lambda>_ s. Ok ip s))"

primrec ialloc_loop :: "nat \<Rightarrow> u32 \<Rightarrow> u16 \<Rightarrow> u32 \<Rightarrow> kstate \<Rightarrow> nat option kres" where
  "ialloc_loop 0 dev typ inum s = Block s"
| "ialloc_loop (Suc k) dev typ inum s =
     (if inum < sb_ninodes (sb s) then
        bind (bread dev (IBLOCK inum (sb s)) s) (\<lambda>bp s.
        let d = b_data (bufs s bp) in
        if get16 d (ioff inum) = 0 then
          bind (log_write bp (set_data bp
                  (put16 (splice d (ioff inum) (replicate 64 0)) (ioff inum) typ) s)) (\<lambda>_ s.
          bind (brelse bp s) (\<lambda>_ s.
          bind (iget dev inum s) (\<lambda>ip s. Ok (Some ip) s)))
        else bind (brelse bp s) (\<lambda>_ s. ialloc_loop k dev typ (inum + 1) s))
      else Ok None (kprintf ''ialloc: no inodes'' s))"

definition ialloc :: "u32 \<Rightarrow> u16 \<Rightarrow> kstate \<Rightarrow> nat option kres" where
  "ialloc dev typ s = ialloc_loop (unat (sb_ninodes (sb s)) + 1) dev typ 1 s"

definition iupdate :: "nat \<Rightarrow> kstate \<Rightarrow> unit kres" where
  "iupdate ip s =
     bind (bread (i_dev (inodes s ip)) (IBLOCK (i_inum (inodes s ip)) (sb s)) s) (\<lambda>bp s.
     bind (log_write bp (set_data bp
             (put_inode (b_data (bufs s bp)) (ioff (i_inum (inodes s ip))) (inodes s ip)) s)) (\<lambda>_ s.
     brelse bp s))"

definition idup :: "nat \<Rightarrow> kstate \<Rightarrow> nat kres" where
  "idup ip s =
     bind (acquire L_itable s) (\<lambda>_ s.
     bind (release L_itable (upd_inode ip (\<lambda>x. x\<lparr>i_ref := i_ref x + 1\<rparr>) s)) (\<lambda>_ s. Ok ip s))"

definition ilock :: "nat \<Rightarrow> kstate \<Rightarrow> unit kres" where
  "ilock ip s =
     (if i_ref (inodes s ip) < 1 then Panic ''ilock''
      else
        bind (acquiresleep (SLinode ip) s) (\<lambda>_ s.
        if \<not> i_valid (inodes s ip) then
          bind (bread (i_dev (inodes s ip)) (IBLOCK (i_inum (inodes s ip)) (sb s)) s) (\<lambda>bp s.
          let dip = dec_dinode (b_data (bufs s bp)) (ioff (i_inum (inodes s ip)));
              s = upd_inode ip (\<lambda>x. x\<lparr>i_type := di_type dip, i_major := di_major dip,
                    i_minor := di_minor dip, i_nlink := di_nlink dip, i_size := di_size dip,
                    i_addrs := (\<lambda>i. if i < NDIRECT + 1 then di_addrs dip i else i_addrs x i)\<rparr>) s in
          bind (brelse bp s) (\<lambda>_ s.
          let s = upd_inode ip (\<lambda>x. x\<lparr>i_valid := True\<rparr>) s in
          if i_type (inodes s ip) = 0 then Panic ''ilock: no type'' else Ok () s))
        else Ok () s))"

definition iunlock :: "nat \<Rightarrow> kstate \<Rightarrow> unit kres" where
  "iunlock ip s =
     bind (holdingsleep (SLinode ip) s) (\<lambda>h s.
     if \<not> h \<or> i_ref (inodes s ip) < 1 then Panic ''iunlock''
     else releasesleep (SLinode ip) s)"

definition itrunc :: "nat \<Rightarrow> kstate \<Rightarrow> unit kres" where
  "itrunc ip s =
     bind (for_each [0..<NDIRECT] (\<lambda>i s.
       if i_addrs (inodes s ip) i \<noteq> 0 then
         bind (bfree (i_dev (inodes s ip)) (i_addrs (inodes s ip) i) s) (\<lambda>_ s.
         Ok () (upd_inode ip (\<lambda>x. x\<lparr>i_addrs := (i_addrs x)(i := 0)\<rparr>) s))
       else Ok () s) s) (\<lambda>_ s.
     bind (if i_addrs (inodes s ip) NDIRECT \<noteq> 0 then
             bind (bread (i_dev (inodes s ip)) (i_addrs (inodes s ip) NDIRECT) s) (\<lambda>bp s.
             bind (for_each [0..<NINDIRECT] (\<lambda>j s.
               let a = get32 (b_data (bufs s bp)) (4 * j) in
               if a \<noteq> 0 then bfree (i_dev (inodes s ip)) a s else Ok () s) s) (\<lambda>_ s.
             bind (brelse bp s) (\<lambda>_ s.
             bind (bfree (i_dev (inodes s ip)) (i_addrs (inodes s ip) NDIRECT) s) (\<lambda>_ s.
             Ok () (upd_inode ip (\<lambda>x. x\<lparr>i_addrs := (i_addrs x)(NDIRECT := 0)\<rparr>) s)))))
           else Ok () s) (\<lambda>_ s.
     iupdate ip (upd_inode ip (\<lambda>x. x\<lparr>i_size := 0\<rparr>) s)))"

definition iput :: "nat \<Rightarrow> kstate \<Rightarrow> unit kres" where
  "iput ip s =
     bind (acquire L_itable s) (\<lambda>_ s.
     bind (if i_ref (inodes s ip) = 1 \<and> i_valid (inodes s ip) \<and> i_nlink (inodes s ip) = 0 then
             bind (acquiresleep (SLinode ip) s) (\<lambda>_ s.
             bind (release L_itable s) (\<lambda>_ s.
             bind (itrunc ip s) (\<lambda>_ s.
             bind (iupdate ip (upd_inode ip (\<lambda>x. x\<lparr>i_type := 0\<rparr>) s)) (\<lambda>_ s.
             bind (releasesleep (SLinode ip) (upd_inode ip (\<lambda>x. x\<lparr>i_valid := False\<rparr>) s)) (\<lambda>_ s.
             acquire L_itable s)))))
           else Ok () s) (\<lambda>_ s.
     release L_itable (upd_inode ip (\<lambda>x. x\<lparr>i_ref := i_ref x - 1\<rparr>) s)))"

definition iunlockput :: "nat \<Rightarrow> kstate \<Rightarrow> unit kres" where
  "iunlockput ip s = bind (iunlock ip s) (\<lambda>_ s. iput ip s)"

definition ireclaim_one :: "u32 \<Rightarrow> u32 \<Rightarrow> kstate \<Rightarrow> unit kres" where
  "ireclaim_one dev inum s =
     bind (bread dev (IBLOCK inum (sb s)) s) (\<lambda>bp s.
     let dip = dec_dinode (b_data (bufs s bp)) (ioff inum) in
     bind (if di_type dip \<noteq> 0 \<and> di_nlink dip = 0
           then bind (iget dev inum (kprintf ''ireclaim: orphaned inode %d'' s)) (\<lambda>ip s. Ok (Some ip) s)
           else Ok None s) (\<lambda>r s.
     bind (brelse bp s) (\<lambda>_ s.
     case r of
       None \<Rightarrow> Ok () s
     | Some ip \<Rightarrow>
         bind (begin_op s) (\<lambda>_ s.
         bind (ilock ip s) (\<lambda>_ s.
         bind (iunlock ip s) (\<lambda>_ s.
         bind (iput ip s) (\<lambda>_ s.
         end_op s)))))))"

definition ireclaim :: "u32 \<Rightarrow> kstate \<Rightarrow> unit kres" where
  "ireclaim dev s = for_each (map of_nat [1..<unat (sb_ninodes (sb s))]) (ireclaim_one dev) s"

definition fsinit :: "u32 \<Rightarrow> kstate \<Rightarrow> unit kres" where
  "fsinit dev s =
     bind (readsb dev s) (\<lambda>_ s.
     if sb_magic (sb s) \<noteq> FSMAGIC then Panic ''invalid file system''
     else bind (initlog dev (sb s) s) (\<lambda>_ s. ireclaim dev s))"

section \<open>Inode contents\<close>

definition bmap :: "nat \<Rightarrow> u32 \<Rightarrow> kstate \<Rightarrow> u32 kres" where
  "bmap ip bn s =
     (if unat bn < NDIRECT then
        let addr = i_addrs (inodes s ip) (unat bn) in
        if addr = 0 then
          bind (balloc (i_dev (inodes s ip)) s) (\<lambda>addr s.
          if addr = 0 then Ok 0 s
          else Ok addr (upd_inode ip (\<lambda>x. x\<lparr>i_addrs := (i_addrs x)(unat bn := addr)\<rparr>) s))
        else Ok addr s
      else
        let bn = unat bn - NDIRECT in
        if bn < NINDIRECT then
          bind (let addr = i_addrs (inodes s ip) NDIRECT in
                if addr = 0 then
                  bind (balloc (i_dev (inodes s ip)) s) (\<lambda>addr s.
                  if addr = 0 then Ok 0 s
                  else Ok addr (upd_inode ip (\<lambda>x. x\<lparr>i_addrs := (i_addrs x)(NDIRECT := addr)\<rparr>) s))
                else Ok addr s) (\<lambda>ind s.
          if ind = 0 then Ok 0 s
          else
            bind (bread (i_dev (inodes s ip)) ind s) (\<lambda>bp s.
            let addr = get32 (b_data (bufs s bp)) (4 * bn) in
            bind (if addr = 0 then
                    bind (balloc (i_dev (inodes s ip)) s) (\<lambda>addr s.
                    if addr \<noteq> 0 then
                      bind (log_write bp (set_data bp
                              (put32 (b_data (bufs s bp)) (4 * bn) addr) s)) (\<lambda>_ s. Ok addr s)
                    else Ok addr s)
                  else Ok addr s) (\<lambda>addr s.
            bind (brelse bp s) (\<lambda>_ s.
            Ok addr s))))
        else Panic ''bmap: out of range'')"

record stat =
  st_dev :: u32
  st_ino :: u32
  st_type :: u16
  st_nlink :: u16
  st_size :: u64

definition stati :: "nat \<Rightarrow> kstate \<Rightarrow> stat" where
  "stati ip s = (let x = inodes s ip in
     \<lparr>st_dev = i_dev x, st_ino = i_inum x, st_type = i_type x, st_nlink = i_nlink x,
      st_size = ucast (i_size x)\<rparr>)"

text \<open>The copying loop of \<open>readi\<close>. The bytes copied so far are collected for a \<open>LocalDst\<close>.\<close>

primrec readi_loop :: "nat \<Rightarrow> nat \<Rightarrow> kdst \<Rightarrow> u32 \<Rightarrow> u32 \<Rightarrow> u32 \<Rightarrow> byte list \<Rightarrow> kstate
    \<Rightarrow> (u32 \<times> byte list) kres" where
  "readi_loop 0 ip dst off n tot acc s = Block s"
| "readi_loop (Suc k) ip dst off n tot acc s =
     (if tot < n then
        bind (bmap ip (off div 1024) s) (\<lambda>addr s.
        if addr = 0 then Ok (tot, acc) s
        else
          bind (bread (i_dev (inodes s ip)) addr s) (\<lambda>bp s.
          let m = min (n - tot) (1024 - off mod 1024);
              bs = slice (b_data (bufs s bp)) (unat (off mod 1024)) (unat m) in
          bind (either_copyout dst bs s) (\<lambda>r s.
          bind (brelse bp s) (\<lambda>_ s.
          if r = - 1 then Ok (- 1, acc) s
          else readi_loop k ip (dst_add dst (unat m)) (off + m) n (tot + m) (acc @ bs) s))))
      else Ok (tot, acc) s)"

definition readi :: "nat \<Rightarrow> kdst \<Rightarrow> u32 \<Rightarrow> u32 \<Rightarrow> kstate \<Rightarrow> (int \<times> byte list) kres" where
  "readi ip dst off n s =
     (let sz = i_size (inodes s ip) in
      if off > sz \<or> off + n < off then Ok (0, []) s
      else
        let n = (if off + n > sz then sz - off else n) in
        bind (readi_loop (Suc (unat n)) ip dst off n 0 [] s) (\<lambda>(tot, bs) s.
        Ok (sint tot, bs) s))"

text \<open>The copying loop of \<open>writei\<close>: the number of bytes written and the final offset.\<close>

primrec writei_loop :: "nat \<Rightarrow> nat \<Rightarrow> ksrc \<Rightarrow> u32 \<Rightarrow> u32 \<Rightarrow> u32 \<Rightarrow> kstate \<Rightarrow> (u32 \<times> u32) kres" where
  "writei_loop 0 ip src off n tot s = Block s"
| "writei_loop (Suc k) ip src off n tot s =
     (if tot < n then
        bind (bmap ip (off div 1024) s) (\<lambda>addr s.
        if addr = 0 then Ok (tot, off) s
        else
          bind (bread (i_dev (inodes s ip)) addr s) (\<lambda>bp s.
          let m = min (n - tot) (1024 - off mod 1024) in
          bind (either_copyin src (unat m) s) (\<lambda>(r, bs) s.
          let s = set_data bp (splice (b_data (bufs s bp)) (unat (off mod 1024)) bs) s in
          if r = - 1 then bind (brelse bp s) (\<lambda>_ s. Ok (tot, off) s)
          else
            bind (log_write bp s) (\<lambda>_ s.
            bind (brelse bp s) (\<lambda>_ s.
            writei_loop k ip (src_add src (unat m)) (off + m) n (tot + m) s)))))
      else Ok (tot, off) s)"

definition writei :: "nat \<Rightarrow> ksrc \<Rightarrow> u32 \<Rightarrow> u32 \<Rightarrow> kstate \<Rightarrow> int kres" where
  "writei ip src off n s =
     (if off > i_size (inodes s ip) \<or> off + n < off then Ok (- 1) s
      else if unat (off + n) > (NDIRECT + NINDIRECT) * BSIZE then Ok (- 1) s
      else
        bind (writei_loop (Suc (unat n)) ip src off n 0 s) (\<lambda>(tot, off) s.
        let s = (if off > i_size (inodes s ip) then upd_inode ip (\<lambda>x. x\<lparr>i_size := off\<rparr>) s else s) in
        bind (iupdate ip s) (\<lambda>_ s.
        Ok (sint tot) s)))"

section \<open>Directories\<close>

text \<open>\<open>strncmp\<close> and \<open>strncpy\<close> on byte lists; a list stands for its bytes followed by zeros.\<close>

definition chr_at :: "byte list \<Rightarrow> nat \<Rightarrow> byte" where
  "chr_at xs i = (if i < length xs then xs ! i else 0)"

primrec strncmp_list :: "nat \<Rightarrow> byte list \<Rightarrow> byte list \<Rightarrow> int" where
  "strncmp_list 0 p q = 0"
| "strncmp_list (Suc n) p q =
     (if chr_at p 0 \<noteq> 0 \<and> chr_at p 0 = chr_at q 0 then strncmp_list n (tl p) (tl q)
      else uint (chr_at p 0) - uint (chr_at q 0))"

definition strncpy_list :: "byte list \<Rightarrow> nat \<Rightarrow> byte list" where
  "strncpy_list t n = take n (takeWhile (\<lambda>c. c \<noteq> 0) t @ replicate n 0)"

definition namecmp :: "byte list \<Rightarrow> byte list \<Rightarrow> int" where
  "namecmp p q = strncmp_list DIRSIZ p q"

definition de_inum :: "byte list \<Rightarrow> u16" where "de_inum de = get16 de 0"
definition de_name :: "byte list \<Rightarrow> byte list" where "de_name de = slice de 2 DIRSIZ"

definition mk_dirent :: "byte list \<Rightarrow> u16 \<Rightarrow> byte list" where
  "mk_dirent name inum = bytes_of 2 inum @ strncpy_list name DIRSIZ"

text \<open>The result of \<open>dirlookup\<close>: the inode, and the offset of the entry.\<close>

primrec dirlookup_loop :: "nat \<Rightarrow> nat \<Rightarrow> byte list \<Rightarrow> u32 \<Rightarrow> kstate \<Rightarrow> (nat \<times> u32) option kres" where
  "dirlookup_loop 0 dp name off s = Block s"
| "dirlookup_loop (Suc k) dp name off s =
     (if off < i_size (inodes s dp) then
        bind (readi dp LocalDst off 16 s) (\<lambda>(r, de) s.
        if r \<noteq> 16 then Panic ''dirlookup read''
        else if de_inum de = 0 then dirlookup_loop k dp name (off + 16) s
        else if namecmp name (de_name de) = 0 then
          bind (iget (i_dev (inodes s dp)) (ucast (de_inum de)) s) (\<lambda>ip s. Ok (Some (ip, off)) s)
        else dirlookup_loop k dp name (off + 16) s)
      else Ok None s)"

definition dirlookup :: "nat \<Rightarrow> byte list \<Rightarrow> kstate \<Rightarrow> (nat \<times> u32) option kres" where
  "dirlookup dp name s =
     (if i_type (inodes s dp) \<noteq> T_DIR then Panic ''dirlookup not DIR''
      else dirlookup_loop (unat (i_size (inodes s dp)) div 16 + 2) dp name 0 s)"

text \<open>The search of \<open>dirlink\<close> for an unused entry: its offset, or the size of the directory.\<close>

primrec dirlink_scan :: "nat \<Rightarrow> nat \<Rightarrow> u32 \<Rightarrow> kstate \<Rightarrow> u32 kres" where
  "dirlink_scan 0 dp off s = Block s"
| "dirlink_scan (Suc k) dp off s =
     (if off < i_size (inodes s dp) then
        bind (readi dp LocalDst off 16 s) (\<lambda>(r, de) s.
        if r \<noteq> 16 then Panic ''dirlink read''
        else if de_inum de = 0 then Ok off s
        else dirlink_scan k dp (off + 16) s)
      else Ok off s)"

definition dirlink :: "nat \<Rightarrow> byte list \<Rightarrow> u32 \<Rightarrow> kstate \<Rightarrow> int kres" where
  "dirlink dp name inum s =
     bind (dirlookup dp name s) (\<lambda>f s.
     case f of
       Some (ip, _) \<Rightarrow> bind (iput ip s) (\<lambda>_ s. Ok (- 1) s)
     | None \<Rightarrow>
         bind (dirlink_scan (unat (i_size (inodes s dp)) div 16 + 2) dp 0 s) (\<lambda>off s.
         bind (writei dp (LocalSrc (mk_dirent name (ucast inum))) off 16 s) (\<lambda>r s.
         Ok (if r \<noteq> 16 then - 1 else 0) s)))"

section \<open>Paths\<close>

abbreviation (input) SLASH :: byte where "SLASH \<equiv> 0x2F"

definition skipelem :: "byte list \<Rightarrow> (byte list \<times> byte list) option" where
  "skipelem path =
     (let path = dropWhile (\<lambda>c. c = SLASH) path in
      if path = [] then None
      else
        let elem = takeWhile (\<lambda>c. c \<noteq> SLASH) path;
            rest = dropWhile (\<lambda>c. c = SLASH) (drop (length elem) path) in
        Some (rest, if length elem \<ge> DIRSIZ then take DIRSIZ elem else elem))"

primrec namex_loop :: "nat \<Rightarrow> nat \<Rightarrow> byte list \<Rightarrow> bool \<Rightarrow> byte list \<Rightarrow> kstate
    \<Rightarrow> (nat option \<times> byte list) kres" where
  "namex_loop 0 ip path parent name s = Block s"
| "namex_loop (Suc k) ip path parent name s =
     (case skipelem path of
        None \<Rightarrow>
          if parent then bind (iput ip s) (\<lambda>_ s. Ok (None, name) s) else Ok (Some ip, name) s
      | Some (path, name) \<Rightarrow>
          bind (ilock ip s) (\<lambda>_ s.
          if i_type (inodes s ip) \<noteq> T_DIR then
            bind (iunlockput ip s) (\<lambda>_ s. Ok (None, name) s)
          else if parent \<and> path = [] then
            bind (iunlock ip s) (\<lambda>_ s. Ok (Some ip, name) s)
          else
            bind (dirlookup ip name s) (\<lambda>f s.
            case f of
              None \<Rightarrow> bind (iunlockput ip s) (\<lambda>_ s. Ok (None, name) s)
            | Some (next, _) \<Rightarrow>
                bind (iunlockput ip s) (\<lambda>_ s. namex_loop k next path parent name s))))"

definition namex :: "byte list \<Rightarrow> bool \<Rightarrow> kstate \<Rightarrow> (nat option \<times> byte list) kres" where
  "namex path parent s =
     bind (if path \<noteq> [] \<and> hd path = SLASH then iget ROOTDEV ROOTINO s
           else case cur s of
             None \<Rightarrow> Panic ''kerneltrap''
           | Some p \<Rightarrow>
               (case p_cwd (procs s p) of None \<Rightarrow> Panic ''kerneltrap'' | Some c \<Rightarrow> idup c s)) (\<lambda>ip s.
     namex_loop (Suc (length path)) ip path parent [] s)"

definition namei :: "byte list \<Rightarrow> kstate \<Rightarrow> nat option kres" where
  "namei path s = bind (namex path False s) (\<lambda>(ip, _) s. Ok ip s)"

definition nameiparent :: "byte list \<Rightarrow> kstate \<Rightarrow> (nat option \<times> byte list) kres" where
  "nameiparent path s = namex path True s"

end
