(* ===== verification/Console.thy ===== *)
theory Console
  imports Proc
begin

text \<open>
  The console and the serial line: \<^verbatim>\<open>kernel/console.c\<close> and \<^verbatim>\<open>kernel/uart.c\<close>. The bytes written
  to the transmit register are the list \<open>uart_out\<close>, the bytes waiting in the receiver the
  list \<open>uart_in\<close>. \<open>uart_idle\<close> is the bit \<open>LSR_TX_IDLE\<close>; the device clears it when a byte is
  written to the transmit register and sets it when the byte has been sent, so the wait in
  \<open>uartputc_sync\<close> ends.
\<close>

abbreviation (input) INPUT_BUF_SIZE :: nat where "INPUT_BUF_SIZE \<equiv> 128"

section \<open>kernel/uart.c\<close>

definition write_thr :: "byte \<Rightarrow> kstate \<Rightarrow> kstate" where
  "write_thr c s = s\<lparr>uart_out := uart_out s @ [c], uart_idle := False\<rparr>"

text \<open>The loop of \<open>uartwrite\<close> with the bytes still to be sent; a sleeper that is woken runs it
  again.\<close>

primrec uartwrite_loop :: "byte list \<Rightarrow> kstate \<Rightarrow> unit kres" where
  "uartwrite_loop [] s = release L_tx s"
| "uartwrite_loop (c # cs) s =
     (if tx_busy s then sleep Ch_tx_chan L_tx s
      else uartwrite_loop cs ((write_thr c s)\<lparr>tx_busy := True\<rparr>))"

definition uartwrite :: "byte list \<Rightarrow> kstate \<Rightarrow> unit kres" where
  "uartwrite cs s = bind (acquire L_tx s) (\<lambda>_ s. uartwrite_loop cs s)"

definition uartputc_sync :: "byte \<Rightarrow> kstate \<Rightarrow> kstate" where
  "uartputc_sync c s = write_thr c s"

definition uartgetc :: "kstate \<Rightarrow> byte option \<times> kstate" where
  "uartgetc s = (case uart_in s of [] \<Rightarrow> (None, s) | c # cs \<Rightarrow> (Some c, s\<lparr>uart_in := cs\<rparr>))"

section \<open>kernel/console.c\<close>

text \<open>\<open>consputc\<close> of a character, and of \<open>BACKSPACE\<close>.\<close>

definition consputc :: "byte \<Rightarrow> kstate \<Rightarrow> kstate" where
  "consputc c s = uartputc_sync c s"

definition consputc_backspace :: "kstate \<Rightarrow> kstate" where
  "consputc_backspace s = uartputc_sync 8 (uartputc_sync 32 (uartputc_sync 8 s))"

primrec consolewrite_loop :: "nat \<Rightarrow> ksrc \<Rightarrow> int \<Rightarrow> int \<Rightarrow> kstate \<Rightarrow> int kres" where
  "consolewrite_loop 0 src n i s = Block s"
| "consolewrite_loop (Suc k) src n i s =
     (if i < n then
        let nn = (if 32 > n - i then n - i else 32) in
        bind (either_copyin (src_add src (nat i)) (nat nn) s) (\<lambda>(r, buf) s.
        if r = - 1 then Ok i s
        else bind (uartwrite buf s) (\<lambda>_ s. consolewrite_loop k src n (i + nn) s))
      else Ok i s)"

definition consolewrite :: "ksrc \<Rightarrow> int \<Rightarrow> kstate \<Rightarrow> int kres" where
  "consolewrite src n s = consolewrite_loop (Suc (nat n)) src n 0 s"

abbreviation upd_cons :: "(console \<Rightarrow> console) \<Rightarrow> kstate \<Rightarrow> kstate" where
  "upd_cons f s \<equiv> s\<lparr>cons := f (cons s)\<rparr>"

text \<open>The loop of \<open>consoleread\<close>; a sleeper that is woken runs it again with the same \<open>dst\<close> and
  \<open>n\<close>.\<close>

primrec consoleread_loop :: "nat \<Rightarrow> kdst \<Rightarrow> int \<Rightarrow> int \<Rightarrow> kstate \<Rightarrow> int kres" where
  "consoleread_loop 0 dst n target s = Block s"
| "consoleread_loop (Suc k) dst n target s =
     (if n > 0 then
        if cons_r (cons s) = cons_w (cons s) then
          (case cur s of
             None \<Rightarrow> Panic ''kerneltrap''
           | Some p \<Rightarrow>
               bind (killed p s) (\<lambda>b s.
               if b then bind (release L_cons s) (\<lambda>_ s. Ok (- 1) s)
               else sleep Ch_cons_r L_cons s))
        else
          let c = cons_buf (cons s) (unat (cons_r (cons s) mod 128));
              s = upd_cons (\<lambda>x. x\<lparr>cons_r := cons_r x + 1\<rparr>) s in
          if c = 4 then
            let s = (if n < target then upd_cons (\<lambda>x. x\<lparr>cons_r := cons_r x - 1\<rparr>) s else s) in
            bind (release L_cons s) (\<lambda>_ s. Ok (target - n) s)
          else
            bind (either_copyout dst [c] s) (\<lambda>r s.
            if r = - 1 then bind (release L_cons s) (\<lambda>_ s. Ok (target - n) s)
            else if c = 10 then bind (release L_cons s) (\<lambda>_ s. Ok (target - (n - 1)) s)
            else consoleread_loop k (dst_add dst 1) (n - 1) target s)
      else bind (release L_cons s) (\<lambda>_ s. Ok (target - n) s))"

definition consoleread :: "kdst \<Rightarrow> int \<Rightarrow> kstate \<Rightarrow> int kres" where
  "consoleread dst n s =
     bind (acquire L_cons s) (\<lambda>_ s. consoleread_loop (Suc (nat n)) dst n n s)"

text \<open>The erase loop of control-u.\<close>

primrec kill_line :: "nat \<Rightarrow> kstate \<Rightarrow> kstate" where
  "kill_line 0 s = s"
| "kill_line (Suc k) s =
     (let x = cons s in
      if cons_e x \<noteq> cons_w x \<and> cons_buf x (unat ((cons_e x - 1) mod 128)) \<noteq> 10
      then kill_line k (consputc_backspace (upd_cons (\<lambda>x. x\<lparr>cons_e := cons_e x - 1\<rparr>) s))
      else s)"

definition consoleintr :: "byte \<Rightarrow> kstate \<Rightarrow> unit kres" where
  "consoleintr c s =
     bind (acquire L_cons s) (\<lambda>_ s.
     bind (if c = 16 then Ok () (procdump s)
           else if c = 21 then Ok () (kill_line (unat (cons_e (cons s) - cons_w (cons s))) s)
           else if c = 8 \<or> c = 0x7F then
             Ok () (if cons_e (cons s) \<noteq> cons_w (cons s)
                    then consputc_backspace (upd_cons (\<lambda>x. x\<lparr>cons_e := cons_e x - 1\<rparr>) s) else s)
           else if c \<noteq> 0 \<and> cons_e (cons s) - cons_r (cons s) < 128 then
             let c = (if c = 13 then 10 else c);
                 s = upd_cons (\<lambda>x. x\<lparr>cons_buf := (cons_buf x)(unat (cons_e x mod 128) := c),
                       cons_e := cons_e x + 1\<rparr>) (consputc c s) in
             if c = 10 \<or> c = 4 \<or> cons_e (cons s) - cons_r (cons s) = 128
             then wakeup Ch_cons_r (upd_cons (\<lambda>x. x\<lparr>cons_w := cons_e x\<rparr>) s)
             else Ok () s
           else Ok () s) (\<lambda>_ s.
     release L_cons s))"

primrec uartintr_loop :: "nat \<Rightarrow> kstate \<Rightarrow> unit kres" where
  "uartintr_loop 0 s = Block s"
| "uartintr_loop (Suc k) s =
     (case uartgetc s of
        (None, s) \<Rightarrow> Ok () s
      | (Some c, s) \<Rightarrow> bind (consoleintr c s) (\<lambda>_ s. uartintr_loop k s))"

definition uartintr :: "kstate \<Rightarrow> unit kres" where
  "uartintr s =
     bind (acquire L_tx s) (\<lambda>_ s.
     bind (if uart_idle s then wakeup Ch_tx_chan (s\<lparr>tx_busy := False\<rparr>) else Ok () s) (\<lambda>_ s.
     bind (release L_tx s) (\<lambda>_ s.
     uartintr_loop (Suc (length (uart_in s))) s)))"

end
