(* ===== verification/File.thy ===== *)
theory File
  imports Fs Console
begin

text \<open>
  Open files and pipes: \<^verbatim>\<open>kernel/file.c\<close> and \<^verbatim>\<open>kernel/pipe.c\<close>. A file is an index into the table
  \<open>files\<close>; a pipe lives in the page it was allocated in, \<open>pipes pi\<close> is the structure at page
  \<open>pi\<close>. The device switch has one entry, the console.
\<close>

abbreviation (input) CONSOLE :: u16 where "CONSOLE \<equiv> 1"

abbreviation upd_file :: "nat \<Rightarrow> (kfile \<Rightarrow> kfile) \<Rightarrow> kstate \<Rightarrow> kstate" where
  "upd_file f g s \<equiv> s\<lparr>files := (files s)(f := g (files s f))\<rparr>"

abbreviation upd_pipe :: "addr \<Rightarrow> (pipe \<Rightarrow> pipe) \<Rightarrow> kstate \<Rightarrow> kstate" where
  "upd_pipe pi g s \<equiv> s\<lparr>pipes := (pipes s)(pi := g (pipes s pi))\<rparr>"

section \<open>Reference counts\<close>

definition filealloc :: "kstate \<Rightarrow> nat option kres" where
  "filealloc s =
     bind (acquire L_ftable s) (\<lambda>_ s.
     case List.find (\<lambda>f. f_ref (files s f) = 0) [0..<NFILE] of
       Some f \<Rightarrow>
         bind (release L_ftable (upd_file f (\<lambda>x. x\<lparr>f_ref := 1\<rparr>) s)) (\<lambda>_ s. Ok (Some f) s)
     | None \<Rightarrow> bind (release L_ftable s) (\<lambda>_ s. Ok None s))"

definition filedup :: "nat \<Rightarrow> kstate \<Rightarrow> nat kres" where
  "filedup f s =
     bind (acquire L_ftable s) (\<lambda>_ s.
     if f_ref (files s f) < 1 then Panic ''filedup''
     else
       bind (release L_ftable (upd_file f (\<lambda>x. x\<lparr>f_ref := f_ref x + 1\<rparr>) s)) (\<lambda>_ s. Ok f s))"

section \<open>Pipes\<close>

definition pipeclose :: "addr \<Rightarrow> bool \<Rightarrow> kstate \<Rightarrow> unit kres" where
  "pipeclose pi writable s =
     bind (acquire (L_pipe pi) s) (\<lambda>_ s.
     bind (if writable then wakeup (Ch_nread pi) (upd_pipe pi (\<lambda>x. x\<lparr>pi_writeopen := False\<rparr>) s)
           else wakeup (Ch_nwrite pi) (upd_pipe pi (\<lambda>x. x\<lparr>pi_readopen := False\<rparr>) s)) (\<lambda>_ s.
     if \<not> pi_readopen (pipes s pi) \<and> \<not> pi_writeopen (pipes s pi) then
       bind (release (L_pipe pi) s) (\<lambda>_ s. kfree pi s)
     else release (L_pipe pi) s))"

definition fileclose :: "nat \<Rightarrow> kstate \<Rightarrow> unit kres" where
  "fileclose f s =
     bind (acquire L_ftable s) (\<lambda>_ s.
     if f_ref (files s f) < 1 then Panic ''fileclose''
     else
       let s = upd_file f (\<lambda>x. x\<lparr>f_ref := f_ref x - 1\<rparr>) s in
       if f_ref (files s f) > 0 then release L_ftable s
       else
         let ff = files s f in
         bind (release L_ftable (upd_file f (\<lambda>x. x\<lparr>f_ref := 0, f_type := FD_NONE\<rparr>) s)) (\<lambda>_ s.
         if f_type ff = FD_PIPE then pipeclose (f_pipe ff) (f_writable ff) s
         else if f_type ff = FD_INODE \<or> f_type ff = FD_DEVICE then
           bind (begin_op s) (\<lambda>_ s.
           bind (iput (f_ip ff) s) (\<lambda>_ s.
           end_op s))
         else Ok () s))"

definition pipealloc_bad :: "addr \<Rightarrow> nat option \<Rightarrow> nat option \<Rightarrow> kstate \<Rightarrow> (nat \<times> nat) option kres" where
  "pipealloc_bad pi f0 f1 s =
     bind (if pi \<noteq> 0 then kfree pi s else Ok () s) (\<lambda>_ s.
     bind (case f0 of None \<Rightarrow> Ok () s | Some f \<Rightarrow> fileclose f s) (\<lambda>_ s.
     bind (case f1 of None \<Rightarrow> Ok () s | Some f \<Rightarrow> fileclose f s) (\<lambda>_ s.
     Ok None s)))"

text \<open>The two files of the pipe, or \<open>None\<close> for the return value -1.\<close>

definition pipealloc :: "kstate \<Rightarrow> (nat \<times> nat) option kres" where
  "pipealloc s =
     bind (filealloc s) (\<lambda>f0 s.
     case f0 of
       None \<Rightarrow> pipealloc_bad 0 None None s
     | Some r \<Rightarrow>
         bind (filealloc s) (\<lambda>f1 s.
         case f1 of
           None \<Rightarrow> pipealloc_bad 0 (Some r) None s
         | Some w \<Rightarrow>
             bind (kalloc s) (\<lambda>pi s.
             if pi = 0 then pipealloc_bad 0 (Some r) (Some w) s
             else
               let s = upd_pipe pi (\<lambda>x. x\<lparr>pi_readopen := True, pi_writeopen := True,
                         pi_nwrite := 0, pi_nread := 0\<rparr>) s;
                   s = upd_file r (\<lambda>x. x\<lparr>f_type := FD_PIPE, f_readable := True,
                         f_writable := False, f_pipe := pi\<rparr>) s;
                   s = upd_file w (\<lambda>x. x\<lparr>f_type := FD_PIPE, f_readable := False,
                         f_writable := True, f_pipe := pi\<rparr>) s in
               Ok (Some (r, w)) s)))"

text \<open>The loop of \<open>pipewrite\<close> from byte \<open>i\<close> on; a sleeper that is woken runs it again.\<close>

primrec pipewrite_loop :: "nat \<Rightarrow> addr \<Rightarrow> u64 \<Rightarrow> int \<Rightarrow> int \<Rightarrow> nat \<Rightarrow> kstate \<Rightarrow> int kres" where
  "pipewrite_loop 0 pi addr n i pr s = Block s"
| "pipewrite_loop (Suc k) pi addr n i pr s =
     (if i < n then
        bind (if \<not> pi_readopen (pipes s pi) then Ok True s else killed pr s) (\<lambda>stop s.
        if stop then bind (release (L_pipe pi) s) (\<lambda>_ s. Ok (- 1) s)
        else if pi_nwrite (pipes s pi) = pi_nread (pipes s pi) + 512 then
          bind (wakeup (Ch_nread pi) s) (\<lambda>_ s. sleep (Ch_nwrite pi) (L_pipe pi) s)
        else
          bind (copyin (p_pagetable (procs s pr)) (addr + of_int i) 1 s) (\<lambda>(r, ch) s.
          if r = - 1 then
            bind (wakeup (Ch_nread pi) s) (\<lambda>_ s.
            bind (release (L_pipe pi) s) (\<lambda>_ s. Ok i s))
          else
            pipewrite_loop k pi addr n (i + 1) pr
              (upd_pipe pi (\<lambda>x. x\<lparr>pi_data := (pi_data x)(unat (pi_nwrite x mod 512) := hd ch),
                 pi_nwrite := pi_nwrite x + 1\<rparr>) s)))
      else
        bind (wakeup (Ch_nread pi) s) (\<lambda>_ s.
        bind (release (L_pipe pi) s) (\<lambda>_ s. Ok i s)))"

definition pipewrite :: "addr \<Rightarrow> u64 \<Rightarrow> int \<Rightarrow> kstate \<Rightarrow> int kres" where
  "pipewrite pi addr n s =
     (case cur s of
        None \<Rightarrow> Panic ''kerneltrap''
      | Some pr \<Rightarrow>
          bind (acquire (L_pipe pi) s) (\<lambda>_ s.
          pipewrite_loop (Suc (nat n)) pi addr n 0 pr s))"

primrec piperead_copy :: "nat \<Rightarrow> addr \<Rightarrow> u64 \<Rightarrow> int \<Rightarrow> int \<Rightarrow> nat \<Rightarrow> kstate \<Rightarrow> int kres" where
  "piperead_copy 0 pi addr n i pr s = Block s"
| "piperead_copy (Suc k) pi addr n i pr s =
     (if i < n then
        if pi_nread (pipes s pi) = pi_nwrite (pipes s pi) then Ok i s
        else
          let ch = pi_data (pipes s pi) (unat (pi_nread (pipes s pi) mod 512)) in
          bind (copyout (p_pagetable (procs s pr)) (addr + of_int i) [ch]
                  (upd_pipe pi (\<lambda>x. x\<lparr>pi_nread := pi_nread x + 1\<rparr>) s)) (\<lambda>r s.
          if r = - 1 then Ok i s
          else piperead_copy k pi addr n (i + 1) pr s)
      else Ok i s)"

text \<open>\<open>piperead\<close> with the lock held; a sleeper that is woken runs it again.\<close>

definition piperead_loop :: "addr \<Rightarrow> u64 \<Rightarrow> int \<Rightarrow> nat \<Rightarrow> kstate \<Rightarrow> int kres" where
  "piperead_loop pi addr n pr s =
     (if pi_nread (pipes s pi) = pi_nwrite (pipes s pi) \<and> pi_writeopen (pipes s pi) then
        bind (killed pr s) (\<lambda>b s.
        if b then bind (release (L_pipe pi) s) (\<lambda>_ s. Ok (- 1) s)
        else sleep (Ch_nread pi) (L_pipe pi) s)
      else
        bind (piperead_copy (Suc (nat n)) pi addr n 0 pr s) (\<lambda>i s.
        bind (wakeup (Ch_nwrite pi) s) (\<lambda>_ s.
        bind (release (L_pipe pi) s) (\<lambda>_ s.
        Ok i s))))"

definition piperead :: "addr \<Rightarrow> u64 \<Rightarrow> int \<Rightarrow> kstate \<Rightarrow> int kres" where
  "piperead pi addr n s =
     (case cur s of
        None \<Rightarrow> Panic ''kerneltrap''
      | Some pr \<Rightarrow>
          bind (acquire (L_pipe pi) s) (\<lambda>_ s. piperead_loop pi addr n pr s))"

section \<open>Reading and writing files\<close>

text \<open>The layout of \<open>struct stat\<close>; the four bytes of padding, which the source leaves as they are on
  the stack, are zero.\<close>

definition bytes_stat :: "stat \<Rightarrow> byte list" where
  "bytes_stat st = bytes_of 4 (st_dev st) @ bytes_of 4 (st_ino st) @ bytes_of 2 (st_type st)
     @ bytes_of 2 (st_nlink st) @ replicate 4 0 @ bytes_of 8 (st_size st)"

definition filestat :: "nat \<Rightarrow> u64 \<Rightarrow> kstate \<Rightarrow> int kres" where
  "filestat f addr s =
     (case cur s of
        None \<Rightarrow> Panic ''kerneltrap''
      | Some p \<Rightarrow>
          if f_type (files s f) = FD_INODE \<or> f_type (files s f) = FD_DEVICE then
            bind (ilock (f_ip (files s f)) s) (\<lambda>_ s.
            let st = stati (f_ip (files s f)) s in
            bind (iunlock (f_ip (files s f)) s) (\<lambda>_ s.
            bind (copyout (p_pagetable (procs s p)) addr (bytes_stat st) s) (\<lambda>r s.
            Ok (if r < 0 then - 1 else 0) s)))
          else Ok (- 1) s)"

definition dev_ok :: "u16 \<Rightarrow> bool" where
  "dev_ok major \<longleftrightarrow> \<not> (sint major < 0 \<or> sint major \<ge> int NDEV) \<and> major = CONSOLE"

definition fileread :: "nat \<Rightarrow> u64 \<Rightarrow> int \<Rightarrow> kstate \<Rightarrow> int kres" where
  "fileread f addr n s =
     (if \<not> f_readable (files s f) then Ok (- 1) s
      else case f_type (files s f) of
        FD_PIPE \<Rightarrow> piperead (f_pipe (files s f)) addr n s
      | FD_DEVICE \<Rightarrow>
          if \<not> dev_ok (f_major (files s f)) then Ok (- 1) s
          else consoleread (UserDst addr) n s
      | FD_INODE \<Rightarrow>
          let ip = f_ip (files s f) in
          bind (ilock ip s) (\<lambda>_ s.
          bind (readi ip (UserDst addr) (f_off (files s f)) (of_int n) s) (\<lambda>(r, _) s.
          let s = (if r > 0 then upd_file f (\<lambda>x. x\<lparr>f_off := f_off x + of_int r\<rparr>) s else s) in
          bind (iunlock ip s) (\<lambda>_ s.
          Ok r s)))
      | FD_NONE \<Rightarrow> Panic ''fileread'')"

primrec filewrite_loop :: "nat \<Rightarrow> nat \<Rightarrow> u64 \<Rightarrow> int \<Rightarrow> int \<Rightarrow> kstate \<Rightarrow> int kres" where
  "filewrite_loop 0 f addr n i s = Block s"
| "filewrite_loop (Suc k) f addr n i s =
     (if i < n then
        let n1 = min (n - i) 3072; ip = f_ip (files s f) in
        bind (begin_op s) (\<lambda>_ s.
        bind (ilock ip s) (\<lambda>_ s.
        bind (writei ip (UserSrc (addr + of_int i)) (f_off (files s f)) (of_int n1) s) (\<lambda>r s.
        let s = (if r > 0 then upd_file f (\<lambda>x. x\<lparr>f_off := f_off x + of_int r\<rparr>) s else s) in
        bind (iunlock ip s) (\<lambda>_ s.
        bind (end_op s) (\<lambda>_ s.
        if r \<noteq> n1 then Ok i s
        else filewrite_loop k f addr n (i + r) s)))))
      else Ok i s)"

definition filewrite :: "nat \<Rightarrow> u64 \<Rightarrow> int \<Rightarrow> kstate \<Rightarrow> int kres" where
  "filewrite f addr n s =
     (if \<not> f_writable (files s f) then Ok (- 1) s
      else case f_type (files s f) of
        FD_PIPE \<Rightarrow> pipewrite (f_pipe (files s f)) addr n s
      | FD_DEVICE \<Rightarrow>
          if \<not> dev_ok (f_major (files s f)) then Ok (- 1) s
          else consolewrite (UserSrc addr) n s
      | FD_INODE \<Rightarrow>
          bind (filewrite_loop (Suc (nat n)) f addr n 0 s) (\<lambda>i s.
          Ok (if i = n then n else - 1) s)
      | FD_NONE \<Rightarrow> Panic ''filewrite'')"

end
