(* ===== verification/PageTable.thy ===== *)
theory PageTable
  imports Vm
begin

text \<open>
  What the page tables of \<^verbatim>\<open>kernel/vm.c\<close> mean. \<open>pset\<close> is the set of pages a table consists of,
  \<open>tree\<close> says that no page occurs twice in it, and \<open>tr\<close> is the translation it defines: the
  valid leaf entry for a virtual address. The lemmas follow \<open>walk\<close>, which may extend the
  table by pages of the allocator, and \<open>mappages\<close>.
\<close>

unbundle bit_operations_syntax

section \<open>Entries\<close>

definition pte_valid :: "u64 \<Rightarrow> bool" where
  "pte_valid e \<longleftrightarrow> e AND PTE_V \<noteq> 0"

definition px :: "nat \<Rightarrow> u64 \<Rightarrow> nat" where
  "px l va = unat (PX l va)"

definition entry :: "memory \<Rightarrow> addr \<Rightarrow> nat \<Rightarrow> u64" where
  "entry m pt i = load64 m (pte_at pt (of_nat i))"

definition same_page :: "memory \<Rightarrow> memory \<Rightarrow> addr \<Rightarrow> bool" where
  "same_page m m' p \<longleftrightarrow> (\<forall>i < 4096. m' (p + of_nat i) = m (p + of_nat i))"

lemma px_less [simp]: "px l va < 512"
proof -
  have "PX l va \<le> 0x1FF" unfolding PX_def by (rule word_and_le1)
  then show ?thesis by (simp add: px_def word_le_nat_alt)
qed

lemma PX_px: "PX l va = of_nat (px l va)"
  by (simp add: px_def)

lemma px_unat: "px l va = unat va div 2 ^ (12 + 9 * l) mod 512"
proof -
  have "(0x1FF :: u64) = mask 9" by (simp add: mask_eq_exp_minus_1)
  then have "PX l va = take_bit 9 (drop_bit (12 + 9 * l) va)" by (simp add: PX_def take_bit_eq_mask)
  moreover have "unat (drop_bit (12 + 9 * l) va) = drop_bit (12 + 9 * l) (unat va)"
    unfolding unsigned_drop_bit_eq using unat_less_exp [of va] by (simp add: take_bit_nat_eq_self)
  ultimately have "px l va = take_bit 9 (drop_bit (12 + 9 * l) (unat va))"
    by (simp add: px_def unsigned_take_bit_eq)
  then show ?thesis by (simp only: take_bit_eq_mod drop_bit_eq_div) simp
qed

lemma entry_addr: "pte_at pt (of_nat i) + of_nat k = pt + of_nat (8 * i + k)"
  by (simp add: add.assoc)

lemma entry_same: "same_page m m' pt \<Longrightarrow> i < 512 \<Longrightarrow> entry m' pt i = entry m pt i"
  unfolding entry_def
proof (rule load64_cong)
  fix k :: nat assume "same_page m m' pt" "i < 512" "k < 8"
  moreover from this have "8 * i + k < 4096" by simp
  ultimately have "m' (pt + of_nat (8 * i + k)) = m (pt + of_nat (8 * i + k))"
    unfolding same_page_def by blast
  then show "m' (pte_at pt (of_nat i) + of_nat k) = m (pte_at pt (of_nat i) + of_nat k)"
    by (simp only: entry_addr)
qed

lemma store_entry:
  assumes "i < 512" and "j < 512"
  shows "entry (store64 m (pte_at pt (of_nat i)) w) pt j = (if i = j then w else entry m pt j)"
proof (cases "i = j")
  case False
  have "load64 (store64 m (pte_at pt (of_nat i)) w) (pte_at pt (of_nat j)) = load64 m (pte_at pt (of_nat j))"
  proof (rule load64_store64_other)
    fix a b :: nat assume ab: "a < 8" "b < 8"
    have "8 * j + b \<noteq> 8 * i + a" using False ab by presburger
    moreover have "8 * j + b < 2 ^ LENGTH(64)" "8 * i + a < 2 ^ LENGTH(64)" using assms ab by simp_all
    ultimately have "pt + of_nat (8 * j + b) \<noteq> pt + of_nat (8 * i + a)"
      by (simp only: word_offset_eq_iff not_False_eq_True)
    then show "pte_at pt (of_nat j) + of_nat b \<noteq> pte_at pt (of_nat i) + of_nat a"
      unfolding entry_addr .
  qed
  with False show ?thesis by (simp add: entry_def)
qed (simp add: entry_def)

lemma store_same_page:
  assumes "pt mod 4096 = 0" and "q mod 4096 = 0" and "q \<noteq> pt" and "i < 512"
  shows "same_page m (store64 m (pte_at pt (of_nat i)) w) q"
  unfolding same_page_def store64_def
proof (intro allI impI mem_write_outside)
  fix k j assume "k < (4096 :: nat)" and "j < length (bytes_of 8 w)"
  then have "k < 4096" "8 * i + j < 4096" using assms(4) by simp_all
  with assms have "q + of_nat k \<noteq> pt + of_nat (8 * i + j)" by (intro page_disjoint)
  then show "q + of_nat k \<noteq> pte_at pt (of_nat i) + of_nat j" unfolding entry_addr .
qed

lemma memset_same_page:
  "p mod 4096 = 0 \<Longrightarrow> q mod 4096 = 0 \<Longrightarrow> q \<noteq> p \<Longrightarrow> same_page m (memset m p c PGSIZE) q"
  using in_page_other by (auto simp: same_page_def memset_page)

lemma same_page_refl [simp]: "same_page m m p" by (simp add: same_page_def)

lemma same_page_trans: "same_page m m' p \<Longrightarrow> same_page m' m'' p \<Longrightarrow> same_page m m'' p"
  by (simp add: same_page_def)

lemma entry_zero:
  assumes "i < 512"
  shows "entry (memset m p 0 PGSIZE) p i = 0"
proof -
  have "memset m p 0 PGSIZE (pte_at p (of_nat i) + of_nat k) = 0" if "k < 8" for k
  proof -
    have "in_page p (p + of_nat (8 * i + k))" 
      unfolding in_page_iff using assms that by (intro exI [of _ "8 * i + k"]) simp
    then show ?thesis by (simp only: entry_addr memset_page) simp
  qed
  then have "mem_read (memset m p 0 PGSIZE) (pte_at p (of_nat i)) 8 = replicate 8 0"
    by (intro nth_equalityI) simp_all
  then show ?thesis by (simp add: entry_def load64_def numeral_eq_Suc)
qed

lemma take_bit_word_self: "w < 2 ^ n \<Longrightarrow> n < LENGTH('a) \<Longrightarrow> take_bit n w = w" for w :: "'a::len word"
  by (simp add: take_bit_eq_mod mod_word_less)

lemma PTE2PA_PA2PTE:
  assumes "p mod 4096 = 0" and "p < 2 ^ 56" and "f < 1024"
  shows "PTE2PA (PA2PTE p OR f) = p"
proof (rule bit_word_eqI)
  fix n assume n: "n < LENGTH(64)"
  have "take_bit 12 p = 0" using assms(1) by (simp add: take_bit_eq_mod)
  then have lo: "\<not> bit p n" if "n < 12" using that by (metis bit_take_bit_iff bit_0_eq bot_apply bot_bool_def)
  have hi: "\<not> bit p n" if "56 \<le> n"
  proof -
    have "take_bit 56 p = p" using assms(2) by (simp add: take_bit_word_self)
    then show ?thesis using that by (metis bit_take_bit_iff not_le)
  qed
  have "take_bit 10 f = f" using assms(3) by (simp add: take_bit_word_self)
  then have "\<not> bit f k" if "10 \<le> k" for k using that by (metis bit_take_bit_iff not_le)
  then show "bit (PTE2PA (PA2PTE p OR f)) n = bit p n"
    using n lo hi by (cases "n < 12") (auto simp: PTE2PA_def PA2PTE_def bit_simps)
qed

lemma pte_valid_zero [simp]: "\<not> pte_valid 0" by (simp add: pte_valid_def)

lemma pte_valid_or: "pte_valid (e OR PTE_V)"
  by (simp add: pte_valid_def word_bw_comms word_ao_dist)

section \<open>Tables\<close>

primrec pset :: "nat \<Rightarrow> memory \<Rightarrow> addr \<Rightarrow> addr set" where
  "pset 0 m pt = {pt}"
| "pset (Suc l) m pt =
     insert pt (\<Union>i \<in> {i. i < 512 \<and> pte_valid (entry m pt i)}. pset l m (PTE2PA (entry m pt i)))"

primrec tree :: "nat \<Rightarrow> memory \<Rightarrow> addr \<Rightarrow> bool" where
  "tree 0 m pt \<longleftrightarrow> True"
| "tree (Suc l) m pt \<longleftrightarrow>
     (\<forall>i < 512. pte_valid (entry m pt i) \<longrightarrow>
        tree l m (PTE2PA (entry m pt i)) \<and> pt \<notin> pset l m (PTE2PA (entry m pt i)))
     \<and> (\<forall>i < 512. \<forall>j < 512. i \<noteq> j \<and> pte_valid (entry m pt i) \<and> pte_valid (entry m pt j) \<longrightarrow>
          pset l m (PTE2PA (entry m pt i)) \<inter> pset l m (PTE2PA (entry m pt j)) = {})"

primrec leafpg :: "nat \<Rightarrow> memory \<Rightarrow> addr \<Rightarrow> u64 \<Rightarrow> addr option" where
  "leafpg 0 m pt va = Some pt"
| "leafpg (Suc l) m pt va =
     (let e = entry m pt (px (Suc l) va) in if pte_valid e then leafpg l m (PTE2PA e) va else None)"

definition tr :: "nat \<Rightarrow> memory \<Rightarrow> addr \<Rightarrow> u64 \<Rightarrow> u64 option" where
  "tr l m pt va =
     (case leafpg l m pt va of
        None \<Rightarrow> None
      | Some q \<Rightarrow> let e = entry m q (px 0 va) in if pte_valid e then Some e else None)"

lemma tr_Suc:
  "tr (Suc l) m pt va =
     (let e = entry m pt (px (Suc l) va) in if pte_valid e then tr l m (PTE2PA e) va else None)"
  by (simp add: tr_def Let_def)

lemma pset_root [simp]: "pt \<in> pset l m pt" by (cases l) simp_all

lemma pset_child:
  "i < 512 \<Longrightarrow> pte_valid (entry m pt i) \<Longrightarrow> pset l m (PTE2PA (entry m pt i)) \<subseteq> pset (Suc l) m pt"
  by auto

lemma leafpg_in: "leafpg l m pt va = Some q \<Longrightarrow> q \<in> pset l m pt"
proof (induction l arbitrary: pt)
  case (Suc l)
  then have v: "pte_valid (entry m pt (px (Suc l) va))"
    and "leafpg l m (PTE2PA (entry m pt (px (Suc l) va))) va = Some q"
    by (simp_all add: Let_def split: if_splits)
  then show ?case using Suc.IH pset_child [OF px_less v, of l] by blast
qed simp

text \<open>A table only depends on its own pages.\<close>

lemma table_cong:
  "(\<And>p. p \<in> pset l m pt \<Longrightarrow> same_page m m' p) \<Longrightarrow>
   pset l m' pt = pset l m pt \<and> tree l m' pt = tree l m pt
   \<and> leafpg l m' pt va = leafpg l m pt va \<and> tr l m' pt va = tr l m pt va"
proof (induction l arbitrary: pt)
  case 0
  then show ?case by (simp add: tr_def entry_same)
next
  case (Suc l)
  have e: "entry m' pt i = entry m pt i" if "i < 512" for i
    using entry_same [OF Suc.prems that, of pt] by simp
  have IH: "pset l m' (PTE2PA (entry m pt i)) = pset l m (PTE2PA (entry m pt i))"
      "tree l m' (PTE2PA (entry m pt i)) = tree l m (PTE2PA (entry m pt i))"
      "leafpg l m' (PTE2PA (entry m pt i)) va = leafpg l m (PTE2PA (entry m pt i)) va"
      "tr l m' (PTE2PA (entry m pt i)) va = tr l m (PTE2PA (entry m pt i)) va"
    if "i < 512" "pte_valid (entry m pt i)" for i
    using Suc.IH [of "PTE2PA (entry m pt i)"] Suc.prems pset_child [OF that, of l] by blast+
  show ?case by (auto simp: e IH Let_def tr_Suc)
qed


text \<open>Different addresses below \<open>MAXVA\<close> have different leaf entries.\<close>

lemma leafpg_inj:
  "tree l m pt \<Longrightarrow> leafpg l m pt va = Some q \<Longrightarrow> leafpg l m pt va' = Some q \<Longrightarrow> 0 < k \<Longrightarrow> k \<le> l \<Longrightarrow> px k va = px k va'"
proof (induction l arbitrary: pt)
  case (Suc l)
  let ?i = "px (Suc l) va" and ?j = "px (Suc l) va'"
  from Suc.prems have v: "pte_valid (entry m pt ?i)" "pte_valid (entry m pt ?j)"
    and q: "leafpg l m (PTE2PA (entry m pt ?i)) va = Some q" "leafpg l m (PTE2PA (entry m pt ?j)) va' = Some q"
    by (auto simp: Let_def split: if_splits)
  have "?i = ?j"
  proof (rule ccontr)
    assume "?i \<noteq> ?j"
    then have "pset l m (PTE2PA (entry m pt ?i)) \<inter> pset l m (PTE2PA (entry m pt ?j)) = {}"
      using Suc.prems(1) v by simp
    then show False using q leafpg_in by blast
  qed
  moreover have "px k va = px k va'" if "k \<le> l"
    using Suc.IH [of "PTE2PA (entry m pt ?i)"] Suc.prems(1,4) v(1) q that \<open>?i = ?j\<close> by simp
  ultimately show ?case using Suc.prems(5) by (cases "k = Suc l") auto
qed simp

lemma page_of_px:
  assumes "va < MAXVA"
  shows "unat va div 4096 = px 0 va + 512 * px 1 va + 262144 * px 2 va"
proof -
  have "unat va div 4096 < 134217728" using assms by (simp add: word_less_nat_alt)
  moreover define x where "x = unat va div 4096"
  ultimately have "x div 512 div 512 < 512" by (simp add: div_mult2_eq [symmetric])
  moreover have "x mod 512 + 512 * (x div 512 mod 512) + 262144 * (x div 512 div 512) = x"
    using mod_mult_div_eq [of x 512] mod_mult_div_eq [of "x div 512" 512] by linarith
  moreover have "unat va div 2097152 = x div 512" "unat va div 1073741824 = x div 512 div 512"
    by (simp_all add: x_def div_mult2_eq [symmetric])
  ultimately show ?thesis by (simp add: px_unat x_def [symmetric])
qed

lemma px_page: "px l (PGROUNDDOWN va) = px l va"
  by (simp add: px_unat PGROUNDDOWN_unat power_add div_mult2_eq)

lemma same_leaf_same_page:
  assumes "tree 2 m pt" and "leafpg 2 m pt va = Some q" and "leafpg 2 m pt va' = Some q"
    and "px 0 va = px 0 va'" and "va < MAXVA" and "va' < MAXVA"
  shows "unat va div 4096 = unat va' div 4096"
  using leafpg_inj [OF assms(1-3), of 1] leafpg_inj [OF assms(1-3), of 2] assms(4-)
  by (simp add: page_of_px)

text \<open>Writing the entries of a leaf page keeps the shape of the table.\<close>

lemma leaf_store:
  assumes "tree l m pt" and "leafpg l m pt va = Some q"
    and "\<And>p. p \<in> pset l m pt \<Longrightarrow> p \<noteq> q \<Longrightarrow> same_page m m' p"
  shows "pset l m' pt = pset l m pt \<and> tree l m' pt \<and> leafpg l m' pt va' = leafpg l m pt va'"
  using assms
proof (induction l arbitrary: pt)
  case (Suc l)
  let ?c = "\<lambda>i. PTE2PA (entry m pt i)" and ?k = "px (Suc l) va"
  from Suc.prems(2) have v: "pte_valid (entry m pt ?k)" and q: "leafpg l m (?c ?k) va = Some q"
    by (simp_all add: Let_def split: if_splits)
  have k: "q \<in> pset l m (?c ?k)" using q by (rule leafpg_in)
  with Suc.prems(1) v have "pt \<noteq> q" by auto
  then have e: "entry m' pt i = entry m pt i" if "i < 512" for i
    using entry_same [OF Suc.prems(3) that, of pt] by simp
  have sub: "pset l m' (?c i) = pset l m (?c i) \<and> tree l m' (?c i) \<and> leafpg l m' (?c i) va' = leafpg l m (?c i) va'"
    if i: "i < 512" "pte_valid (entry m pt i)" for i
  proof (cases "i = ?k")
    case True
    have "tree l m (?c ?k)" using Suc.prems(1) v by simp
    then show ?thesis unfolding True
      by (rule Suc.IH [OF _ q]) (use Suc.prems(3) pset_child [OF px_less v, of l] in blast)
  next
    case False
    with Suc.prems(1) v i have "pset l m (?c i) \<inter> pset l m (?c ?k) = {}" and t: "tree l m (?c i)" by auto
    then have "\<And>p. p \<in> pset l m (?c i) \<Longrightarrow> same_page m m' p"
      using k Suc.prems(3) pset_child [OF i, of l] by blast
    from table_cong [OF this, where va = va'] t show ?thesis by blast
  qed
  have "tree (Suc l) m pt" by (rule Suc.prems(1))
  then show ?case using sub by (auto simp: e Let_def)
qed simp


section \<open>Extending a table\<close>

lemma zero_table:
  assumes "\<And>i. i < 512 \<Longrightarrow> entry m p i = 0"
  shows "pset l m p = {p} \<and> tree l m p \<and> tr l m p va = None"
  using assms by (cases l) (auto simp: tr_def)

text \<open>
  \<open>grows\<close>: the table at \<open>pt\<close> in memory \<open>m'\<close> is the one in \<open>m\<close> with the pages \<open>N\<close> added, no
  translation changed, and nothing else written.
\<close>

definition grows :: "nat \<Rightarrow> addr \<Rightarrow> memory \<Rightarrow> memory \<Rightarrow> addr set \<Rightarrow> bool" where
  "grows l pt m m' N \<longleftrightarrow>
     tree l m' pt \<and> pset l m' pt = pset l m pt \<union> N \<and> (\<forall>va. tr l m' pt va = tr l m pt va)
     \<and> (\<forall>q. q mod 4096 = 0 \<and> q \<notin> pset l m pt \<union> N \<longrightarrow> same_page m m' q)"

lemma growsD:
  assumes "grows l pt m m' N"
  shows "tree l m' pt" and "pset l m' pt = pset l m pt \<union> N" and "tr l m' pt va = tr l m pt va"
    and "q mod 4096 = 0 \<Longrightarrow> q \<notin> pset l m pt \<Longrightarrow> q \<notin> N \<Longrightarrow> same_page m m' q"
  using assms unfolding grows_def by simp_all

lemma grows_refl: "tree l m pt \<Longrightarrow> grows l pt m m {}"
  by (simp add: grows_def)

lemma grows_trans:
  assumes "grows l pt m m1 N" and "grows l pt m1 m2 N'"
  shows "grows l pt m m2 (N \<union> N')"
  using assms same_page_trans [of m m1 _ m2] unfolding grows_def by (auto simp: Un_assoc)

lemma grows_child:
  assumes t: "tree (Suc l) m pt" and i: "i < 512" "pte_valid (entry m pt i)"
    and g: "grows l (PTE2PA (entry m pt i)) m m' N"
    and al: "\<And>p. p \<in> pset (Suc l) m pt \<Longrightarrow> p mod 4096 = 0" and N: "N \<inter> pset (Suc l) m pt = {}"
  shows "grows (Suc l) pt m m' N"
proof -
  let ?c = "\<lambda>i. PTE2PA (entry m pt i)"
  have out: "same_page m m' q" if "q \<in> pset (Suc l) m pt" "q \<notin> pset l m (?c i)" for q
  proof (rule growsD(4) [OF g])
    show "q mod 4096 = 0" by (rule al [OF that(1)])
    show "q \<notin> N" using N that(1) by blast
  qed (rule that(2))
  have e: "entry m' pt j = entry m pt j" if "j < 512" for j
    using entry_same [OF out that, of pt] t i by simp
  have new: "pset l m' (?c i) = pset l m (?c i) \<union> N" "tree l m' (?c i)" "tr l m' (?c i) va = tr l m (?c i) va" for va
    by (simp_all add: growsD [OF g])
  have old: "pset l m' (?c j) = pset l m (?c j) \<and> tree l m' (?c j) = tree l m (?c j)
      \<and> leafpg l m' (?c j) va = leafpg l m (?c j) va \<and> tr l m' (?c j) va = tr l m (?c j) va"
    if j: "j < 512" "pte_valid (entry m pt j)" "j \<noteq> i" for j va
  proof (rule table_cong)
    fix p assume p: "p \<in> pset l m (?c j)"
    with t i j have "p \<notin> pset l m (?c i)" by auto
    with p show "same_page m m' p" using out pset_child [OF j(1,2), of l] by blast
  qed
  have ps: "pset l m' (?c j) = (if j = i then pset l m (?c i) \<union> N else pset l m (?c j))"
    and tj: "tree l m' (?c j)" and trj: "tr l m' (?c j) va = tr l m (?c j) va"
    if "j < 512" "pte_valid (entry m pt j)" for j va
    using new old [OF that, of va] t that by (cases "j = i"; simp)+
  have Nj: "N \<inter> pset l m (?c j) = {}" if "j < 512" "pte_valid (entry m pt j)" for j
    using N pset_child [OF that, of l] by blast
  have "pset (Suc l) m' pt = pset (Suc l) m pt \<union> N"
    using i ps by (auto simp: e split: if_splits)
  moreover have "tree (Suc l) m' pt"
    using t i N Nj by (simp add: e ps tj) blast
  moreover have "tr (Suc l) m' pt va = tr (Suc l) m pt va" for va
    by (simp add: tr_Suc e Let_def trj)
  moreover have "same_page m m' q" if "q mod 4096 = 0" "q \<notin> pset (Suc l) m pt \<union> N" for q
    by (rule growsD(4) [OF g]) (use that pset_child [OF i, of l] in auto)
  ultimately show ?thesis by (simp add: grows_def)
qed

lemma grows_new:
  assumes t: "tree (Suc l) m pt" and i: "i < 512" "\<not> pte_valid (entry m pt i)"
    and al: "\<And>p. p \<in> pset (Suc l) m pt \<Longrightarrow> p mod 4096 = 0"
    and p: "p \<notin> pset (Suc l) m pt" "p mod 4096 = 0" "p < 2 ^ 56"
    and m1: "\<And>q. q mod 4096 = 0 \<Longrightarrow> q \<noteq> p \<Longrightarrow> same_page m m1 q" "\<And>j. j < 512 \<Longrightarrow> entry m1 p j = 0"
    and m': "m' = store64 m1 (pte_at pt (of_nat i)) (PA2PTE p OR PTE_V)"
  shows "grows (Suc l) pt m m' {p} \<and> entry m' pt i = PA2PTE p OR PTE_V \<and> PTE2PA (PA2PTE p OR PTE_V) = p"
proof -
  let ?c = "\<lambda>i. PTE2PA (entry m pt i)"
  have pt: "pt mod 4096 = 0" "pt \<noteq> p" using al [of pt] p(1) by auto
  have s1: "same_page m1 m' q" if "q mod 4096 = 0" "q \<noteq> pt" for q
    unfolding m' by (rule store_same_page) (use pt i that in auto)
  have out: "same_page m m' q" if "q mod 4096 = 0" "q \<noteq> pt" "q \<noteq> p" for q
    by (rule same_page_trans [OF m1(1) s1]) (fact that)+
  have pa: "PTE2PA (PA2PTE p OR PTE_V) = p" by (rule PTE2PA_PA2PTE) (use p in simp_all)
  have e: "entry m' pt j = (if i = j then PA2PTE p OR PTE_V else entry m pt j)" if "j < 512" for j
    unfolding m' store_entry [OF i(1) that] using entry_same [OF m1(1) that] pt by simp
  have "entry m' p j = 0" if "j < 512" for j
    using entry_same [OF s1 that, of p] m1(2) that p pt by simp
  then have z: "pset l m' p = {p}" "tree l m' p" "tr l m' p va = None" for va using zero_table [of m' p l] by auto
  have old: "pset l m' (?c j) = pset l m (?c j) \<and> tree l m' (?c j) = tree l m (?c j)
      \<and> leafpg l m' (?c j) va = leafpg l m (?c j) va \<and> tr l m' (?c j) va = tr l m (?c j) va"
    if j: "j < 512" "pte_valid (entry m pt j)" for j va
  proof (rule table_cong)
    fix q assume q: "q \<in> pset l m (?c j)"
    with t j have "q \<noteq> pt" by auto
    with q show "same_page m m' q" using out al p pset_child [OF j, of l] by blast
  qed
  have inv: "j \<noteq> i" if "pte_valid (entry m pt j)" for j using that i by auto
  note S = e pa z old pte_valid_or
  have "pset (Suc l) m' pt = pset (Suc l) m pt \<union> {p}"
    using i by (auto simp: S split: if_splits dest: inv)
  moreover have "tree (Suc l) m' pt"
    using t p pt by (auto simp: S split: if_splits)
  moreover have "tr (Suc l) m' pt va = tr (Suc l) m pt va" for va
    using i(2) by (auto simp: tr_Suc S Let_def)
  ultimately show ?thesis using e [OF i(1)] pa out pt by (auto simp: grows_def)
qed


section \<open>Walking a table\<close>

lemma kmem_rep_same:
  assumes "kmem_rep s ps" and "\<And>q. q \<in> set ps \<Longrightarrow> same_page (mem s) (mem t) q"
    and "freelist t = freelist s" and "kend t = kend s"
  shows "kmem_rep t ps"
  unfolding kmem_rep_def
proof (intro conjI)
  show "run_list (mem t) (freelist t) ps"
  proof (rule run_list_cong)
    show "run_list (mem s) (freelist t) ps" using assms(1,3) by (simp add: kmem_rep_def)
    show "mem t (q + of_nat i) = mem s (q + of_nat i)" if "q \<in> set ps" "i < 4096" for q i
      using assms(2) [OF that(1)] that(2) by (simp add: same_page_def)
  qed
qed (use assms(1,4) in \<open>simp_all add: kmem_rep_def\<close>)

definition table_ok :: "nat \<Rightarrow> kstate \<Rightarrow> addr \<Rightarrow> addr list \<Rightarrow> bool" where
  "table_ok l s pt ps \<longleftrightarrow>
     kmem_rep s ps \<and> L_kmem \<notin> set (held s) \<and> tree l (mem s) pt
     \<and> pset l (mem s) pt \<inter> set ps = {} \<and> (\<forall>p \<in> pset l (mem s) pt. page_ok (kend s) p)"

lemma table_okD:
  assumes "table_ok l s pt ps"
  shows "kmem_rep s ps" and "L_kmem \<notin> set (held s)" and "tree l (mem s) pt"
    and "pset l (mem s) pt \<inter> set ps = {}" and "p \<in> pset l (mem s) pt \<Longrightarrow> page_ok (kend s) p"
    and "p \<in> pset l (mem s) pt \<Longrightarrow> p mod 4096 = 0" and "p \<in> pset l (mem s) pt \<Longrightarrow> p \<noteq> 0"
  using assms unfolding table_ok_def page_ok_def kmem_rep_def by (auto simp: word_le_nat_alt word_less_nat_alt)

lemma table_ok_child:
  assumes "table_ok (Suc l) s pt ps" and "i < 512" and "pte_valid (entry (mem s) pt i)"
  shows "table_ok l s (PTE2PA (entry (mem s) pt i)) ps"
  using assms pset_child [OF assms(2,3), of l] unfolding table_ok_def by (auto simp: subset_iff)

lemma table_ok_grows:
  assumes "table_ok l s pt ps" and "grows l pt (mem s) (mem t) N" and "kmem_rep t qs" and "set qs \<subseteq> set ps"
    and "N \<subseteq> set ps - set qs" and "kend t = kend s" and "held t = held s"
  shows "table_ok l t pt qs"
proof -
  have "\<forall>p \<in> set ps. page_ok (kend s) p" using assms(1) by (simp add: table_ok_def kmem_rep_def)
  with assms show ?thesis unfolding table_ok_def growsD(2) [OF assms(2)]
    using growsD(1) [OF assms(2)] by auto
qed

lemma walk_new_page:
  assumes ok: "table_ok (Suc l) s pt (p # ps)" and i: "i < 512" "\<not> pte_valid (entry (mem s) pt i)"
  obtains t where "kalloc s = Ok p (s\<lparr>freelist := freelist t, mem := memset (mem s) p 5 PGSIZE\<rparr>)" "p \<noteq> 0"
    "t = s\<lparr>freelist := freelist t, mem := store64 (memset (memset (mem s) p 5 PGSIZE) p 0 PGSIZE)
           (pte_at pt (of_nat i)) (PA2PTE p OR PTE_V)\<rparr>"
    "table_ok (Suc l) t pt ps" "grows (Suc l) pt (mem s) (mem t) {p}"
    "pte_valid (entry (mem t) pt i)" "PTE2PA (entry (mem t) pt i) = p"
proof -
  note D = table_okD [OF ok]
  define t1 where "t1 = s\<lparr>freelist := load64 (mem s) p, mem := memset (mem s) p 5 PGSIZE\<rparr>"
  define m1 where "m1 = memset (memset (mem s) p 5 PGSIZE) p 0 PGSIZE"
  define t where "t = s\<lparr>freelist := load64 (mem s) p, mem := store64 m1 (pte_at pt (of_nat i)) (PA2PTE p OR PTE_V)\<rparr>"
  have K: "kalloc s = Ok p t1" "kmem_rep t1 ps" unfolding t1_def by (rule kalloc_Cons [OF D(1,2)])+
  have P: "page_ok (kend s) p" "p \<notin> set ps" "\<forall>q \<in> set ps. page_ok (kend s) q" "0 < kend s"
    using D(1) by (simp_all add: kmem_rep_def)
  then have p: "p mod 4096 = 0" "p < 2 ^ 56" "p \<noteq> 0" "p \<notin> pset (Suc l) (mem s) pt"
    using D(4) unfolding page_ok_def by (auto simp: word_le_nat_alt word_less_nat_alt)
  have s1: "same_page (mem s) m1 q" if "q mod 4096 = 0" "q \<noteq> p" for q
    unfolding m1_def by (rule same_page_trans [OF memset_same_page memset_same_page]) (use p that in auto)
  have G: "grows (Suc l) pt (mem s) (mem t) {p} \<and> entry (mem t) pt i = PA2PTE p OR PTE_V \<and> PTE2PA (PA2PTE p OR PTE_V) = p"
  proof (rule grows_new [OF D(3) i D(6) p(4,1,2) s1])
    show "entry m1 p j = 0" if "j < 512" for j unfolding m1_def using that by (rule entry_zero)
  qed (simp_all add: t_def)
  have "same_page (mem t1) (mem t) q" if "q \<in> set ps" for q
  proof -
    have q: "q mod 4096 = 0" "q \<noteq> p" "q \<noteq> pt"
      using P that D(4) pset_root [of pt "Suc l" "mem s"] by (auto simp: page_ok_def)
    have "same_page (mem t1) m1 q" unfolding m1_def t1_def using memset_same_page [OF p(1) q(1,2)] by simp
    moreover have "same_page m1 (mem t) q"
      unfolding t_def using store_same_page [OF D(6) [OF pset_root] q(1,3) i(1)] by simp
    ultimately show ?thesis by (rule same_page_trans)
  qed
  then have R: "kmem_rep t ps" by (rule kmem_rep_same [OF K(2)]) (simp_all add: t1_def t_def)
  have "table_ok (Suc l) t pt ps"
    by (rule table_ok_grows [OF ok conjunct1 [OF G] R]) (use P in \<open>auto simp: t_def\<close>)
  then show ?thesis
    by (intro that [of t]) (use K(1) G p pte_valid_or in \<open>simp_all add: t_def t1_def m1_def\<close>)
qed


lemma walk_loop_Suc:
  "walk_loop (Suc l) pt va a s =
     (let i = px (Suc l) va; e = entry (mem s) pt i in
      if pte_valid e then walk_loop l (PTE2PA e) va a s
      else if \<not> a then Ok 0 s
      else
        bind (kalloc s) (\<lambda>p s.
        if p = 0 then Ok 0 s
        else walk_loop l p va a
               (s\<lparr>mem := store64 (memset (mem s) p 0 PGSIZE) (pte_at pt (of_nat i)) (PA2PTE p OR PTE_V)\<rparr>)))"
  unfolding walk_loop.simps Let_def entry_def pte_valid_def PX_px by (simp cong: if_cong)

lemma mem_only:
  assumes "t = s\<lparr>mem := mem t, freelist := freelist t\<rparr>"
  shows "kend t = kend s" and "held t = held s"
  using arg_cong [OF assms, of kend] arg_cong [OF assms, of held] by simp_all

lemma mem_only_trans:
  assumes "t = s\<lparr>mem := mem t, freelist := freelist t\<rparr>" and "u = t\<lparr>mem := mem u, freelist := freelist u\<rparr>"
  shows "u = s\<lparr>mem := mem u, freelist := freelist u\<rparr>"
  by (subst assms(2), subst assms(1)) simp

text \<open>The result of a walk that may allocate: the leaf entry, or 0 with the allocator exhausted.\<close>

definition walked :: "nat \<Rightarrow> addr \<Rightarrow> u64 \<Rightarrow> kstate \<Rightarrow> addr list \<Rightarrow> addr \<Rightarrow> kstate \<Rightarrow> addr list \<Rightarrow> bool" where
  "walked l pt va s ps r t qs \<longleftrightarrow>
     t = s\<lparr>mem := mem t, freelist := freelist t\<rparr> \<and> table_ok l t pt qs \<and> set qs \<subseteq> set ps
     \<and> grows l pt (mem s) (mem t) (set ps - set qs)
     \<and> (r = 0 \<and> qs = [] \<or> r \<noteq> 0 \<and> (\<exists>q. leafpg l (mem t) pt va = Some q \<and> r = pte_at q (of_nat (px 0 va))))"

lemma walked_child:
  assumes ok: "table_ok (Suc l) s pt ps" and v: "pte_valid (entry (mem s) pt (px (Suc l) va))"
    and W: "walked l (PTE2PA (entry (mem s) pt (px (Suc l) va))) va s ps r t qs"
  shows "walked (Suc l) pt va s ps r t qs"
proof -
  note D = table_okD [OF ok]
  let ?N = "set ps - set qs"
  have G: "grows (Suc l) pt (mem s) (mem t) ?N"
    by (rule grows_child [OF D(3) px_less v]) (use W D(4,6) in \<open>auto simp: walked_def\<close>)
  have fields: "kend t = kend s" "held t = held s" using W mem_only unfolding walked_def by blast+
  have T: "table_ok (Suc l) t pt qs"
    by (rule table_ok_grows [OF ok G]) (use W fields in \<open>auto simp: walked_def table_ok_def\<close>)
  have "entry (mem t) pt (px (Suc l) va) = entry (mem s) pt (px (Suc l) va)"
  proof (rule entry_same [OF growsD(4) px_less])
    show "grows l (PTE2PA (entry (mem s) pt (px (Suc l) va))) (mem s) (mem t) ?N" using W by (simp add: walked_def)
    show "pt mod 4096 = 0" using D(6) [OF pset_root] .
    show "pt \<notin> pset l (mem s) (PTE2PA (entry (mem s) pt (px (Suc l) va)))" using D(3) v by simp
    show "pt \<notin> ?N" using D(4) pset_root [of pt "Suc l" "mem s"] by blast
  qed
  with v W T G show ?thesis unfolding walked_def by (auto simp: Let_def)
qed

lemma walked_extend:
  assumes W: "walked l pt va t ps' r u qs" and G: "grows l pt (mem s) (mem t) {p}"
    and t: "t = s\<lparr>mem := mem t, freelist := freelist t\<rparr>" and ps: "set ps = insert p (set ps')" "p \<notin> set ps'"
  shows "walked l pt va s ps r u qs"
proof -
  have "grows l pt (mem s) (mem u) ({p} \<union> (set ps' - set qs))"
    by (rule grows_trans [OF G]) (use W in \<open>simp add: walked_def\<close>)
  moreover have "{p} \<union> (set ps' - set qs) = set ps - set qs"
    using W ps by (auto simp: walked_def)
  moreover have "u = s\<lparr>mem := mem u, freelist := freelist u\<rparr>"
    by (rule mem_only_trans [OF t]) (use W in \<open>simp add: walked_def\<close>)
  ultimately show ?thesis using W ps unfolding walked_def by auto
qed

lemma walk_alloc:
  "table_ok l s pt ps \<Longrightarrow> \<exists>r t qs. walk_loop l pt va True s = Ok r t \<and> walked l pt va s ps r t qs"
proof (induction l arbitrary: s pt ps)
  case 0
  note D = table_okD [OF 0]
  have "pte_at pt (of_nat (px 0 va)) \<noteq> 0"
    using page_disjoint [of pt 0 "8 * px 0 va" 0] D(6,7) [of pt] px_less [of 0 va] by simp
  then have "walked 0 pt va s ps (pte_at pt (of_nat (px 0 va))) s ps"
    using 0 D(3) by (simp add: walked_def grows_def)
  then show ?case by (auto simp: px_def)
next
  case (Suc l)
  let ?i = "px (Suc l) va"
  show ?case
  proof (cases "pte_valid (entry (mem s) pt ?i)")
    case True
    from Suc.IH [OF table_ok_child [OF Suc.prems px_less True]]
    obtain r t qs where "walk_loop l (PTE2PA (entry (mem s) pt ?i)) va True s = Ok r t"
      and "walked l (PTE2PA (entry (mem s) pt ?i)) va s ps r t qs" by blast
    then show ?thesis using walked_child [OF Suc.prems True] True by (auto simp: walk_loop_Suc simp del: walk_loop.simps)
  next
    case False
    show ?thesis
    proof (cases ps)
      case Nil
      then have "kalloc s = Ok 0 s" using table_okD(1,2) [OF Suc.prems] kalloc_Nil by blast
      then have "walk_loop (Suc l) pt va True s = Ok 0 s"
        using False by (simp add: walk_loop_Suc del: walk_loop.simps)
      moreover have "walked (Suc l) pt va s ps 0 s []"
        unfolding walked_def using Suc.prems Nil grows_refl [OF table_okD(3) [OF Suc.prems]] by simp
      ultimately show ?thesis by blast
    next
      case (Cons p ps')
      obtain t where t: "kalloc s = Ok p (s\<lparr>freelist := freelist t, mem := memset (mem s) p 5 PGSIZE\<rparr>)" "p \<noteq> 0"
        "t = s\<lparr>freelist := freelist t, mem := store64 (memset (memset (mem s) p 5 PGSIZE) p 0 PGSIZE)
           (pte_at pt (of_nat ?i)) (PA2PTE p OR PTE_V)\<rparr>"
        "table_ok (Suc l) t pt ps'" "grows (Suc l) pt (mem s) (mem t) {p}"
        "pte_valid (entry (mem t) pt ?i)" "PTE2PA (entry (mem t) pt ?i) = p"
        by (rule walk_new_page [OF Suc.prems [unfolded Cons] px_less False])
      from Suc.IH [OF table_ok_child [OF t(4) px_less t(6)]]
      obtain r u qs where u: "walk_loop l p va True t = Ok r u" "walked l p va t ps' r u qs" unfolding t(7) by blast
      have "walk_loop (Suc l) pt va True s = walk_loop l p va True t"
        using False t(1,2) by (subst t(3)) (simp add: walk_loop_Suc del: walk_loop.simps)
      moreover have "walked (Suc l) pt va s ps r u qs"
      proof (rule walked_extend)
        show "walked (Suc l) pt va t ps' r u qs" by (rule walked_child [OF t(4,6)]) (use u(2) t(7) in simp)
        show "grows (Suc l) pt (mem s) (mem t) {p}" by (rule t(5))
        show "t = s\<lparr>mem := mem t, freelist := freelist t\<rparr>" 
          by (rule trans [OF t(3)]) (simp add: arg_cong [OF t(3), of mem])
        show "set ps = insert p (set ps')" "p \<notin> set ps'"
          using Cons table_okD(1) [OF Suc.prems] by (simp_all add: kmem_rep_def)
      qed
      ultimately show ?thesis using u(1) by auto
    qed
  qed
qed


lemma leaf_nonzero:
  assumes "table_ok l s pt ps" and "leafpg l (mem s) pt va = Some q"
  shows "pte_at q (of_nat (px 0 va)) \<noteq> 0"
  using page_disjoint [of q 0 "8 * px 0 va" 0] table_okD(6,7) [OF assms(1) leafpg_in [OF assms(2)]]
    px_less [of 0 va] by simp

text \<open>One free page per level below the root is enough.\<close>

lemma walk_alloc_enough:
  "table_ok l s pt ps \<Longrightarrow> l \<le> length ps \<Longrightarrow> walk_loop l pt va True s = Ok r t \<Longrightarrow> r \<noteq> 0"
proof (induction l arbitrary: s pt ps)
  case 0
  then show ?case using leaf_nonzero [OF "0.prems"(1)] by (auto simp: PX_px)
next
  case (Suc l)
  let ?i = "px (Suc l) va"
  show ?case
  proof (cases "pte_valid (entry (mem s) pt ?i)")
    case True
    then have "walk_loop l (PTE2PA (entry (mem s) pt ?i)) va True s = Ok r t"
      using Suc.prems(3) by (simp add: walk_loop_Suc del: walk_loop.simps)
    then show ?thesis using Suc.IH [OF table_ok_child [OF Suc.prems(1) px_less True]] Suc.prems(2) by simp
  next
    case False
    obtain p ps' where Cons: "ps = p # ps'" using Suc.prems(2) by (cases ps) auto
    obtain u where u: "kalloc s = Ok p (s\<lparr>freelist := freelist u, mem := memset (mem s) p 5 PGSIZE\<rparr>)" "p \<noteq> 0"
      "u = s\<lparr>freelist := freelist u, mem := store64 (memset (memset (mem s) p 5 PGSIZE) p 0 PGSIZE)
           (pte_at pt (of_nat ?i)) (PA2PTE p OR PTE_V)\<rparr>"
      "table_ok (Suc l) u pt ps'" "pte_valid (entry (mem u) pt ?i)" "PTE2PA (entry (mem u) pt ?i) = p"
      by (rule walk_new_page [OF Suc.prems(1) [unfolded Cons] px_less False])
    have "walk_loop l p va True u = Ok r t"
      using False u(1,2) Suc.prems(3) by (subst u(3)) (simp add: walk_loop_Suc del: walk_loop.simps)
    then show ?thesis using Suc.IH [OF table_ok_child [OF u(4) px_less u(5)]] u(6) Suc.prems(2) Cons by simp
  qed
qed

lemma walk_lookup:
  "walk_loop l pt va False s =
     Ok (case leafpg l (mem s) pt va of None \<Rightarrow> 0 | Some q \<Rightarrow> pte_at q (of_nat (px 0 va))) s"
  by (induction l arbitrary: pt) (simp_all add: walk_loop_Suc PX_px Let_def del: walk_loop.simps(2))

lemma tr_entry:
  "tr l m pt va = Some e \<longleftrightarrow> (\<exists>q. leafpg l m pt va = Some q \<and> entry m q (px 0 va) = e \<and> pte_valid e)"
  by (auto simp: tr_def Let_def split: option.splits)

lemma walkaddr_tr:
  assumes "table_ok 2 s pt ps"
  shows "walkaddr pt va s =
     Ok (if va < MAXVA then
           (case tr 2 (mem s) pt va of
              None \<Rightarrow> 0
            | Some e \<Rightarrow> if e AND PTE_U \<noteq> 0 then PTE2PA e else 0)
         else 0) s"
proof (cases "leafpg 2 (mem s) pt va")
  case (Some q)
  then show ?thesis using leaf_nonzero [OF assms Some]
    by (cases "va < MAXVA") (auto simp: walkaddr_def walk_def walk_lookup tr_def Let_def entry_def pte_valid_def)
qed (simp add: walkaddr_def walk_def walk_lookup tr_def not_less)

lemma px_cong: "unat va div 4096 = unat va' div 4096 \<Longrightarrow> px l va = px l va'"
  by (simp add: px_unat power_add div_mult2_eq)

lemma tr_page:
  assumes "unat va div 4096 = unat va' div 4096"
  shows "leafpg l m pt va = leafpg l m pt va'" and "tr l m pt va = tr l m pt va'"
proof -
  show "leafpg l m pt va = leafpg l m pt va'" for l pt
    by (induction l arbitrary: pt) (simp_all add: px_cong [OF assms] Let_def)
  then show "tr l m pt va = tr l m pt va'" unfolding tr_def px_cong [OF assms] by simp
qed

text \<open>Storing a leaf entry changes the translation of that page and nothing else.\<close>

lemma set_leaf:
  assumes ok: "table_ok l s pt ps" and q: "leafpg l (mem s) pt a = Some q"
    and t: "t = s\<lparr>mem := store64 (mem s) (pte_at q (of_nat (px 0 a))) w\<rparr>"
  shows "table_ok l t pt ps" and "pset l (mem t) pt = pset l (mem s) pt" and "leafpg l (mem t) pt va = leafpg l (mem s) pt va"
    and "p mod 4096 = 0 \<Longrightarrow> p \<noteq> q \<Longrightarrow> same_page (mem s) (mem t) p"
proof -
  note D = table_okD [OF ok]
  have Q: "q \<in> pset l (mem s) pt" by (rule leafpg_in [OF q])
  show out: "same_page (mem s) (mem t) p" if "p mod 4096 = 0" "p \<noteq> q" for p
    unfolding t using store_same_page [OF D(6) [OF Q] that px_less] by simp
  have L: "pset l (mem t) pt = pset l (mem s) pt \<and> tree l (mem t) pt \<and> leafpg l (mem t) pt va = leafpg l (mem s) pt va" for va
    by (rule leaf_store [OF D(3) q]) (use out D(6) in blast)
  then show "pset l (mem t) pt = pset l (mem s) pt" "leafpg l (mem t) pt va = leafpg l (mem s) pt va" by blast+
  have "kmem_rep t ps"
  proof (rule kmem_rep_same [OF D(1)])
    fix p assume "p \<in> set ps"
    then have "p mod 4096 = 0" "p \<noteq> q" using D(1,4) Q by (auto simp: kmem_rep_def page_ok_def)
    then show "same_page (mem s) (mem t) p" by (rule out)
  qed (simp_all add: t)
  with ok L show "table_ok l t pt ps" by (simp add: table_ok_def t)
qed

lemma set_leaf_tr:
  assumes ok: "table_ok 2 s pt ps" and q: "leafpg 2 (mem s) pt a = Some q"
    and t: "t = s\<lparr>mem := store64 (mem s) (pte_at q (of_nat (px 0 a))) w\<rparr>"
    and va: "a < MAXVA" "va < MAXVA"
  shows "tr 2 (mem t) pt va =
     (if unat va div 4096 = unat a div 4096 then (if pte_valid w then Some w else None) else tr 2 (mem s) pt va)"
proof -
  note L = set_leaf(3,4) [OF ok q t]
  have e: "entry (mem t) q j = (if px 0 a = j then w else entry (mem s) q j)" if "j < 512" for j
    unfolding t using store_entry [OF px_less that, of "mem s" q 0 a w] by simp
  show ?thesis
  proof (cases "leafpg 2 (mem s) pt va")
    case None
    then show ?thesis using q tr_page(1) [of va a] by (auto simp: tr_def L(1))
  next
    case (Some q')
    have "unat va div 4096 = unat a div 4096 \<longleftrightarrow> q' = q \<and> px 0 va = px 0 a"
      using same_leaf_same_page [OF table_okD(3) [OF ok] _ q _ va(2,1)] Some q tr_page(1) [of va a 2 "mem s" pt] px_cong [of va a 0]
      by auto
    moreover have "q' mod 4096 = 0" using table_okD(6) [OF ok leafpg_in [OF Some]] .
    ultimately show ?thesis using Some e entry_same [OF L(2) px_less, of q' 0 va]
      by (cases "q' = q") (auto simp: tr_def L(1) Let_def)
  qed
qed


section \<open>Mapping pages\<close>

lemma walk_alloc_tr:
  assumes "table_ok 2 s pt ps" and "a < MAXVA"
  obtains r t qs where "walk pt a True s = Ok r t" "t = s\<lparr>mem := mem t, freelist := freelist t\<rparr>"
    "table_ok 2 t pt qs" "set qs \<subseteq> set ps" "pset 2 (mem t) pt = pset 2 (mem s) pt \<union> (set ps - set qs)"
    "\<And>va. tr 2 (mem t) pt va = tr 2 (mem s) pt va"
    "\<And>q. q mod 4096 = 0 \<Longrightarrow> q \<notin> pset 2 (mem s) pt \<Longrightarrow> q \<notin> set ps \<Longrightarrow> same_page (mem s) (mem t) q"
    "r = 0 \<Longrightarrow> qs = []"
    "r \<noteq> 0 \<Longrightarrow> \<exists>q. leafpg 2 (mem t) pt a = Some q \<and> r = pte_at q (of_nat (px 0 a))"
proof -
  obtain r t qs where w: "walk_loop 2 pt a True s = Ok r t" "walked 2 pt a s ps r t qs"
    using walk_alloc [OF assms(1)] by blast
  then have g: "grows 2 pt (mem s) (mem t) (set ps - set qs)" by (simp add: walked_def)
  show thesis
  proof (rule that [of r t qs])
    show "walk pt a True s = Ok r t" using w(1) assms(2) by (simp add: walk_def)
    show "same_page (mem s) (mem t) q" if "q mod 4096 = 0" "q \<notin> pset 2 (mem s) pt" "q \<notin> set ps" for q
      by (rule growsD(4) [OF g that(1,2)]) (use that(3) in blast)
  qed (use w(2) growsD [OF g] in \<open>auto simp: walked_def\<close>)
qed

text \<open>What mapping \<open>n\<close> pages from \<open>a\<close> to the frames from \<open>pa\<close> does to the translation.\<close>

definition mapped :: "addr \<Rightarrow> u64 \<Rightarrow> nat \<Rightarrow> u64 \<Rightarrow> u64 \<Rightarrow> kstate \<Rightarrow> kstate \<Rightarrow> bool" where
  "mapped pt a n pa perm s t \<longleftrightarrow>
     (\<forall>va < MAXVA. tr 2 (mem t) pt va =
        (let k = unat va div 4096 - unat a div 4096 in
         if unat a div 4096 \<le> unat va div 4096 \<and> k < n
         then Some (PA2PTE (pa + 4096 * of_nat k) OR perm OR PTE_V)
         else tr 2 (mem s) pt va))"


text \<open>\<open>maps\<close>: from \<open>s\<close> to \<open>t\<close> the first \<open>n\<close> pages were mapped, table pages were taken from \<open>ps\<close>, and
  no other page was written.\<close>

definition maps :: "addr \<Rightarrow> u64 \<Rightarrow> nat \<Rightarrow> u64 \<Rightarrow> u64 \<Rightarrow> kstate \<Rightarrow> addr list \<Rightarrow> kstate \<Rightarrow> addr list \<Rightarrow> bool" where
  "maps pt a n pa perm s ps t qs \<longleftrightarrow>
     t = s\<lparr>mem := mem t, freelist := freelist t\<rparr> \<and> table_ok 2 t pt qs \<and> set qs \<subseteq> set ps
     \<and> pset 2 (mem t) pt = pset 2 (mem s) pt \<union> (set ps - set qs) \<and> mapped pt a n pa perm s t
     \<and> (\<forall>q. q mod 4096 = 0 \<and> q \<notin> pset 2 (mem s) pt \<and> q \<notin> set ps \<longrightarrow> same_page (mem s) (mem t) q)"

lemma mapsD:
  assumes "maps pt a n pa perm s ps t qs"
  shows "t = s\<lparr>mem := mem t, freelist := freelist t\<rparr>" and "table_ok 2 t pt qs" and "set qs \<subseteq> set ps"
    and "pset 2 (mem t) pt = pset 2 (mem s) pt \<union> (set ps - set qs)" and "mapped pt a n pa perm s t"
    and "q mod 4096 = 0 \<Longrightarrow> q \<notin> pset 2 (mem s) pt \<Longrightarrow> q \<notin> set ps \<Longrightarrow> same_page (mem s) (mem t) q"
  using assms unfolding maps_def by simp_all

lemma mapped_0: "(\<And>va. tr 2 (mem t) pt va = tr 2 (mem s) pt va) \<Longrightarrow> mapped pt a 0 pa perm s t"
  by (simp add: mapped_def)

lemma mappages_one:
  assumes ok: "table_ok 2 s pt ps" and a: "a < MAXVA" and free: "tr 2 (mem s) pt a = None"
  obtains t qs where "mappages_loop (Suc k) pt a final pa perm s = Ok (- 1) t" "qs = []" "maps pt a 0 pa perm s ps t qs"
  | t qs where "mappages_loop (Suc k) pt a final pa perm s =
      (if a = final then Ok 0 t else mappages_loop k pt (a + 4096) final (pa + 4096) perm t)"
      "maps pt a 1 pa perm s ps t qs"
proof -
  obtain r t qs where w: "walk pt a True s = Ok r t" "t = s\<lparr>mem := mem t, freelist := freelist t\<rparr>"
    "table_ok 2 t pt qs" "set qs \<subseteq> set ps" "pset 2 (mem t) pt = pset 2 (mem s) pt \<union> (set ps - set qs)"
    "\<And>va. tr 2 (mem t) pt va = tr 2 (mem s) pt va"
    "\<And>q. q mod 4096 = 0 \<Longrightarrow> q \<notin> pset 2 (mem s) pt \<Longrightarrow> q \<notin> set ps \<Longrightarrow> same_page (mem s) (mem t) q"
    "r = 0 \<Longrightarrow> qs = []"
    "r \<noteq> 0 \<Longrightarrow> \<exists>q. leafpg 2 (mem t) pt a = Some q \<and> r = pte_at q (of_nat (px 0 a))"
    by (rule walk_alloc_tr [OF ok a]) blast
  show thesis
  proof (cases "r = 0")
    case True
    show thesis
    proof (rule that(1) [of t qs])
      show "maps pt a 0 pa perm s ps t qs" using w(2-7) mapped_0 [of t pt s] by (simp add: maps_def)
    qed (use w(1,8) True in simp_all)
  next
    case False
    then obtain q where q: "leafpg 2 (mem t) pt a = Some q" "r = pte_at q (of_nat (px 0 a))" using w(9) by blast
    let ?w = "PA2PTE pa OR perm OR PTE_V"
    define u where "u = t\<lparr>mem := store64 (mem t) (pte_at q (of_nat (px 0 a))) ?w\<rparr>"
    have nv: "load64 (mem t) r AND PTE_V = 0"
      using free w(6) [of a] q by (auto simp: tr_def Let_def entry_def pte_valid_def split: if_splits)
    note L = set_leaf [OF w(3) q(1) u_def]
    have v: "pte_valid ?w" using pte_valid_or [of "PA2PTE pa OR perm"] by (simp add: or.assoc)
    have M: "mapped pt a 1 pa perm s u"
      unfolding mapped_def using set_leaf_tr [OF w(3) q(1) u_def a] v w(6) by (auto simp: Let_def)
    have "same_page (mem s) (mem u) p" if "p mod 4096 = 0" "p \<notin> pset 2 (mem s) pt" "p \<notin> set ps" for p
    proof (rule same_page_trans [OF w(7) [OF that]])
      have "p \<notin> pset 2 (mem t) pt" using that(2,3) w(5) by blast
      then show "same_page (mem t) (mem u) p" using L(4) [OF that(1)] leafpg_in [OF q(1)] by blast
    qed
    moreover have "u = s\<lparr>mem := mem u, freelist := freelist u\<rparr>"
      by (rule mem_only_trans [OF w(2)]) (simp add: u_def)
    ultimately have "maps pt a 1 pa perm s ps u qs" using L(1,2) M w(4,5) by (auto simp: maps_def)
    moreover have "mappages_loop (Suc k) pt a final pa perm s =
      (if a = final then Ok 0 u else mappages_loop k pt (a + 4096) final (pa + 4096) perm u)"
      using w(1) False nv q(2) by (simp add: u_def Let_def)
    ultimately show thesis by (rule that(2) [rotated])
  qed
qed

lemma maps_trans:
  assumes "maps pt a 1 pa perm s ps t qs" and "maps pt (a + 4096) n (pa + 4096) perm t qs u rs"
    and "unat (a + 4096) = unat a + 4096"
  shows "maps pt a (Suc n) pa perm s ps u rs"
proof -
  have y: "unat (a + 4096) div 4096 = unat a div 4096 + 1" by (simp add: assms(3))
  have "mapped pt a (Suc n) pa perm s u"
    unfolding mapped_def
  proof (intro allI impI)
    fix va :: u64 assume va: "va < MAXVA"
    let ?x = "unat va div 4096" and ?y = "unat a div 4096"
    have T: "tr 2 (mem t) pt va = (if ?x = ?y then Some (PA2PTE pa OR perm OR PTE_V) else tr 2 (mem s) pt va)"
      using assms(1) va by (auto simp: maps_def mapped_def Let_def)
    have U: "tr 2 (mem u) pt va = (if ?y + 1 \<le> ?x \<and> ?x - (?y + 1) < n
        then Some (PA2PTE (pa + 4096 + 4096 * of_nat (?x - (?y + 1))) OR perm OR PTE_V) else tr 2 (mem t) pt va)"
      using assms(2) va unfolding maps_def mapped_def Let_def y by blast
    show "tr 2 (mem u) pt va = (let k = ?x - ?y in if ?y \<le> ?x \<and> k < Suc n
        then Some (PA2PTE (pa + 4096 * of_nat k) OR perm OR PTE_V) else tr 2 (mem s) pt va)"
    proof (cases "?y + 1 \<le> ?x")
      case True
      then have "?x - ?y = Suc (?x - (?y + 1))" by simp
      then show ?thesis using True by (simp add: T U Let_def algebra_simps)
    qed (auto simp: T U Let_def)
  qed
  moreover have "same_page (mem s) (mem u) q" if "q mod 4096 = 0" "q \<notin> pset 2 (mem s) pt" "q \<notin> set ps" for q
  proof (rule same_page_trans [OF mapsD(6) [OF assms(1) that]])
    show "same_page (mem t) (mem u) q"
      by (rule mapsD(6) [OF assms(2) that(1)]) (use mapsD(3,4) [OF assms(1)] that(2,3) in blast)+
  qed
  moreover have "u = s\<lparr>mem := mem u, freelist := freelist u\<rparr>"
    by (rule mem_only_trans [OF mapsD(1) [OF assms(1)] mapsD(1) [OF assms(2)]])
  moreover have "set rs \<subseteq> set ps" "pset 2 (mem u) pt = pset 2 (mem s) pt \<union> (set ps - set rs)"
    using mapsD(3,4) [OF assms(1)] mapsD(3,4) [OF assms(2)] by auto
  ultimately show ?thesis using mapsD(2) [OF assms(2)] by (simp add: maps_def)
qed

lemma mappages_loop_spec:
  assumes "table_ok 2 s pt ps" and "unat a + 4096 * Suc n \<le> 2 ^ 38" and "a mod 4096 = 0"
    and "\<And>va. unat a div 4096 \<le> unat va div 4096 \<Longrightarrow> unat va div 4096 \<le> unat a div 4096 + n \<Longrightarrow> tr 2 (mem s) pt va = None"
  shows "\<exists>r t k qs. mappages_loop (Suc n) pt a (a + 4096 * of_nat n) pa perm s = Ok r t
     \<and> maps pt a k pa perm s ps t qs \<and> (r = 0 \<and> k = Suc n \<or> r = - 1 \<and> k \<le> n \<and> qs = [])"
  using assms
proof (induction n arbitrary: s ps a pa)
  case 0
  then have "a < MAXVA" "tr 2 (mem s) pt a = None" by (simp_all add: word_less_nat_alt)
  then show ?case
  proof (rule mappages_one [OF "0.prems"(1), of a 0 a pa perm])
    fix t qs assume "mappages_loop (Suc 0) pt a a pa perm s = Ok (- 1) t" "qs = []" "maps pt a 0 pa perm s ps t qs"
    then show ?thesis by auto
  next
    fix t qs assume "mappages_loop (Suc 0) pt a a pa perm s =
        (if a = a then Ok 0 t else mappages_loop 0 pt (a + 4096) a (pa + 4096) perm t)"
      and m: "maps pt a 1 pa perm s ps t qs"
    then have "mappages_loop (Suc 0) pt a (a + 4096 * of_nat 0) pa perm s = Ok 0 t" by simp
    with m show ?thesis by (intro exI conjI) (assumption | simp)+
  qed
next
  case (Suc n)
  have a: "a < MAXVA" "tr 2 (mem s) pt a = None" using Suc.prems(2,4) by (simp_all add: word_less_nat_alt)
  have u: "unat (a + 4096) = unat a + 4096" using Suc.prems(2) unat_add_no_wrap [of a 4096] by simp
  then have y: "unat (a + 4096) div 4096 = unat a div 4096 + 1" by simp
  have al: "(a + 4096) mod 4096 = 0" using Suc.prems(3) u by (simp add: page_aligned_iff)
  have f: "a + 4096 + 4096 * of_nat n = a + 4096 * of_nat (Suc n)" by (simp add: algebra_simps)
  have "unat (a + of_nat (4096 * Suc n)) = unat a + 4096 * Suc n"
    by (rule unat_add_no_wrap) (use Suc.prems(2) in simp)
  then have ne: "a \<noteq> a + 4096 * of_nat (Suc n)" by auto
  show ?case
  proof (rule mappages_one [OF Suc.prems(1) a, of "Suc n" "a + 4096 * of_nat (Suc n)" pa perm])
    fix t qs assume "mappages_loop (Suc (Suc n)) pt a (a + 4096 * of_nat (Suc n)) pa perm s = Ok (- 1) t"
      "qs = []" "maps pt a 0 pa perm s ps t qs"
    then show ?thesis by blast
  next
    fix t qs assume e: "mappages_loop (Suc (Suc n)) pt a (a + 4096 * of_nat (Suc n)) pa perm s =
      (if a = a + 4096 * of_nat (Suc n) then Ok 0 t
       else mappages_loop (Suc n) pt (a + 4096) (a + 4096 * of_nat (Suc n)) (pa + 4096) perm t)"
      and m: "maps pt a 1 pa perm s ps t qs"
    have "\<exists>r v k rs. mappages_loop (Suc n) pt (a + 4096) (a + 4096 + 4096 * of_nat n) (pa + 4096) perm t = Ok r v
       \<and> maps pt (a + 4096) k (pa + 4096) perm t qs v rs \<and> (r = 0 \<and> k = Suc n \<or> r = - 1 \<and> k \<le> n \<and> rs = [])"
    proof (rule Suc.IH)
      show "table_ok 2 t pt qs" using m by (simp add: maps_def)
      show "tr 2 (mem t) pt va = None"
        if va: "unat (a + 4096) div 4096 \<le> unat va div 4096" "unat va div 4096 \<le> unat (a + 4096) div 4096 + n" for va
      proof -
        have "va < MAXVA" using va(2) Suc.prems(2) u by (simp add: word_less_nat_alt)
        then show ?thesis using mapsD(5) [OF m] Suc.prems(4) [of va] va unfolding y by (simp add: mapped_def)
      qed
    qed (use Suc.prems(2) u al in simp_all)
    then obtain r v k rs where v: "mappages_loop (Suc n) pt (a + 4096) (a + 4096 * of_nat (Suc n)) (pa + 4096) perm t = Ok r v"
      and M: "maps pt (a + 4096) k (pa + 4096) perm t qs v rs" and R: "r = 0 \<and> k = Suc n \<or> r = - 1 \<and> k \<le> n \<and> rs = []"
      unfolding f by blast
    have "mappages_loop (Suc (Suc n)) pt a (a + 4096 * of_nat (Suc n)) pa perm s = Ok r v"
      unfolding e v using ne by (rule if_not_P)
    moreover have "r = 0 \<and> Suc k = Suc (Suc n) \<or> r = - 1 \<and> Suc k \<le> Suc n \<and> rs = []" using R by auto
    ultimately show ?thesis using maps_trans [OF m M u] by blast
  qed
qed


lemma mappages_maps:
  assumes "table_ok 2 s pt ps" and "va mod 4096 = 0" and "0 < n" and "unat va + 4096 * n \<le> 2 ^ 38"
    and "\<And>a. unat va \<le> unat a \<Longrightarrow> unat a < unat va + 4096 * n \<Longrightarrow> tr 2 (mem s) pt a = None"
  shows "\<exists>r t k qs. mappages pt va (of_nat (4096 * n)) pa perm s = Ok r t
     \<and> maps pt va k pa perm s ps t qs \<and> (r = 0 \<and> k = n \<or> r = - 1 \<and> k < n \<and> qs = [])"
proof -
  obtain k where n: "n = Suc k" using assms(3) by (cases n) auto
  have sz: "unat (of_nat (4096 * n) :: u64) = 4096 * n" by (rule unat_offset) (use assms(4) in simp)
  have al: "unat va mod 4096 = 0" using assms(2) by (simp add: page_aligned_iff)
  have free: "tr 2 (mem s) pt a = None"
    if "unat va div 4096 \<le> unat a div 4096" "unat a div 4096 \<le> unat va div 4096 + k" for a
    by (rule assms(5)) (use that al n div_mult_mod_eq [of "unat va" 4096] div_mult_mod_eq [of "unat a" 4096]
      mod_less_divisor [of 4096 "unat a"] in linarith)+
  from mappages_loop_spec [OF assms(1) assms(4) [unfolded n] assms(2) free, of pa perm]
  have "\<exists>r t k' qs. mappages_loop n pt va (va + 4096 * of_nat k) pa perm s = Ok r t
      \<and> maps pt va k' pa perm s ps t qs \<and> (r = 0 \<and> k' = n \<or> r = - 1 \<and> k' < n \<and> qs = [])"
    unfolding n less_Suc_eq_le .
  moreover have "(of_nat (4096 * n) :: u64) mod 4096 = 0" "(of_nat (4096 * n) :: u64) \<noteq> 0"
    unfolding page_aligned_iff sz using sz assms(3) by (simp, metis mult_eq_0_iff neq0_conv unat_0 zero_neq_numeral)
  moreover have fin: "va + of_nat (4096 * n) - 4096 = va + 4096 * of_nat k" by (simp add: n algebra_simps)
  ultimately show ?thesis unfolding mappages_def fin sz using assms(2) by simp
qed

lemma mappages_enough:
  assumes "table_ok 2 s pt ps" and "va mod 4096 = 0" and "va < MAXVA" and "tr 2 (mem s) pt va = None" and "2 \<le> length ps"
  shows "\<exists>t. mappages pt va 4096 pa perm s = Ok 0 t"
proof -
  have "mappages pt va 4096 pa perm s = mappages_loop (Suc 0) pt va va pa perm s"
    using assms(2) by (simp add: mappages_def)
  moreover obtain r u where w: "walk_loop 2 pt va True s = Ok r u" using walk_alloc [OF assms(1)] by blast
  ultimately show ?thesis
    using mappages_one [OF assms(1,3,4), of 0 va pa perm] walk_alloc_enough [OF assms(1,5) w] assms(3)
    by (auto simp: walk_def split: if_splits)
qed

text \<open>A state with an empty page table at 0x1000 and the free pages 0x3000 and 0x2000.\<close>

definition vm0 :: kstate where
  "vm0 = (zero_state 1 (\<lambda>_. []))\<lparr>freelist := 0x3000, mem := store64 (\<lambda>_. 0) 0x3000 0x2000\<rparr>"

lemma vm0_zero:
  assumes "p mod 4096 = 0" "p \<noteq> 0x3000" "i < 512"
  shows "entry (mem vm0) p i = 0"
proof -
  have z: "load64 (\<lambda>_. 0) a = 0" for a by (simp add: load64_def mem_read_def upt_rec)
  show ?thesis
    using entry_same [OF store_same_page [of "0x3000" p 0 "\<lambda>_. 0" "0x2000"]] assms
    by (simp add: vm0_def zero_state_def entry_def z)
qed

lemma vm0_ok: "table_ok 2 vm0 0x1000 [0x3000, 0x2000]"
proof -
  have "entry (mem vm0) 0x1000 i = 0" if "i < 512" for i using that by (simp add: vm0_zero)
  then have "pset 2 (mem vm0) 0x1000 = {0x1000}" "tree 2 (mem vm0) 0x1000" using zero_table by auto
  moreover have "kmem_rep vm0 [0x3000, 0x2000]"
    using vm0_zero [of "0x2000" 0] by (simp add: kmem_rep_def vm0_def zero_state_def page_ok_def entry_def)
  ultimately show ?thesis by (simp add: table_ok_def vm0_def zero_state_def page_ok_def)
qed

lemma vm0_tr: "tr 2 (mem vm0) 0x1000 va = None"
  using vm0_zero zero_table [of "mem vm0" "0x1000" 2] by simp

text \<open>C3: Mapping pages installs exactly the requested translations. For an aligned range below
  \<open>MAXVA\<close> with nothing mapped in it, \<open>mappages\<close> returns: with 0 when every page of the range
  is now translated to its frame with the requested permissions, or with -1 when the allocator ran
  out of pages, in which case a proper prefix of the range is mapped. No other translation changes,
  the table stays a tree of distinct pages, its new pages are exactly the pages that left the free
  list, and no other page is written.\<close>

theorem mappages_correct:
  assumes "table_ok 2 s pt ps" and "va mod 4096 = 0" and "0 < n" and "unat va + 4096 * n \<le> 2 ^ 38"
    and "\<And>a. unat va \<le> unat a \<Longrightarrow> unat a < unat va + 4096 * n \<Longrightarrow> tr 2 (mem s) pt a = None"
  shows "\<exists>r t k qs. mappages pt va (of_nat (4096 * n)) pa perm s = Ok r t
     \<and> maps pt va k pa perm s ps t qs \<and> (r = 0 \<and> k = n \<or> r = - 1 \<and> k < n \<and> qs = [])"
  using assms by (rule mappages_maps)

theorem mappages_correct_witness:
  "\<exists>r t k qs. mappages 0x1000 0x4000 (of_nat (4096 * 1)) 0x5000 (PTE_R OR PTE_U) vm0 = Ok r t
     \<and> maps 0x1000 0x4000 k 0x5000 (PTE_R OR PTE_U) vm0 [0x3000, 0x2000] t qs
     \<and> (r = 0 \<and> k = 1 \<or> r = - 1 \<and> k < 1 \<and> qs = [])"
  by (rule mappages_correct [OF vm0_ok]) (simp_all add: vm0_tr)

text \<open>C16: An address in a range that was mapped with user permission is translated to the
  byte at the same offset of its frame: \<open>walkaddr\<close> returns the frame the caller passed to
  \<open>mappages\<close>.\<close>

theorem mappages_walkaddr:
  assumes "table_ok 2 s pt ps" and "va mod 4096 = 0" and "unat va + 4096 * n \<le> 2 ^ 38"
    and "\<And>a. unat va \<le> unat a \<Longrightarrow> unat a < unat va + 4096 * n \<Longrightarrow> tr 2 (mem s) pt a = None"
    and "mappages pt va (of_nat (4096 * n)) pa perm s = Ok 0 t"
    and "pa mod 4096 = 0" and "unat pa + 4096 * n \<le> 2 ^ 56" and "perm < 1024" and "perm AND PTE_U \<noteq> 0"
    and "off < 4096 * n"
  shows "walkaddr pt (va + of_nat off) t = Ok (pa + of_nat (4096 * (off div 4096))) t"
proof -
  have "0 < n" using assms(10) by (cases n) auto
  then obtain qs where M: "maps pt va n pa perm s ps t qs"
    using mappages_maps [OF assms(1,2) _ assms(3,4), of pa perm] assms(5) by auto
  let ?k = "off div 4096" and ?va = "va + of_nat off"
  have k: "?k < n" using assms(10) by (simp add: div_less_iff_less_mult mult.commute)
  have u: "unat ?va = unat va + off" by (rule unat_add_no_wrap) (use assms(3,10) in simp)
  have d: "unat ?va div 4096 = unat va div 4096 + ?k"
    using assms(2) unfolding u page_aligned_iff by (metis add.commute div_plus_div_distrib_dvd_right mod_0_imp_dvd)
  have va: "?va < MAXVA" using u assms(3,10) by (simp add: word_less_nat_alt)
  let ?p = "pa + of_nat (4096 * ?k)"
  have T: "tr 2 (mem t) pt ?va = Some (PA2PTE ?p OR (perm OR PTE_V))"
    using mapsD(5) [OF M, unfolded mapped_def Let_def, rule_format, OF va] k unfolding d by (simp add: or.assoc)
  have "unat ?p = unat pa + 4096 * ?k" by (rule unat_add_no_wrap) (use assms(7) k in simp)
  then have p: "?p mod 4096 = 0" "?p < 2 ^ 56"
    using assms(6,7) k unfolding page_aligned_iff by (simp_all add: word_less_nat_alt)
  have "perm OR PTE_V < 1024" using assms(8) OR_upper [of "uint perm" 10 1] by (simp add: word_less_alt unsigned_or_eq)
  from PTE2PA_PA2PTE [OF p this] have "PTE2PA (PA2PTE ?p OR (perm OR PTE_V)) = ?p" .
  moreover have "(PA2PTE ?p OR (perm OR PTE_V)) AND PTE_U \<noteq> 0" using assms(9) by (simp add: word_ao_dist or_eq_0_iff)
  ultimately show ?thesis unfolding walkaddr_tr [OF mapsD(2) [OF M]] T using va by simp
qed

theorem mappages_walkaddr_witness:
  "\<exists>t. mappages 0x1000 0x4000 (of_nat (4096 * 1)) 0x5000 (PTE_R OR PTE_U) vm0 = Ok 0 t
     \<and> walkaddr 0x1000 (0x4000 + of_nat 8) t = Ok (0x5000 + of_nat (4096 * (8 div 4096))) t"
proof -
  obtain t where t: "mappages 0x1000 0x4000 (of_nat (4096 * 1)) 0x5000 (PTE_R OR PTE_U) vm0 = Ok 0 t"
    using mappages_enough [OF vm0_ok, of "0x4000" "0x5000" "PTE_R OR PTE_U"] by (auto simp: vm0_tr)
  have "walkaddr 0x1000 (0x4000 + of_nat 8) t = Ok (0x5000 + of_nat (4096 * (8 div 4096))) t"
    by (rule mappages_walkaddr [OF vm0_ok _ _ _ t]) (simp_all add: vm0_tr)
  with t show ?thesis by blast
qed

end
