(* ===== verification/UserMem.thy ===== *)
theory UserMem
  imports PageTable
begin

text \<open>
  The memory of a process as its program sees it. \<open>uview\<close> gives the byte at each user address:
  the byte of the mapped frame, or zero where the page has not been allocated yet but starts below
  the size of the process. \<open>vmfault\<close> keeps this view, \<open>copyout\<close> updates it and \<open>copyin\<close> reads it.
\<close>

unbundle bit_operations_syntax

section \<open>Addresses and pages\<close>

lemma MAXVA_page: "va < MAXVA \<longleftrightarrow> unat va div 4096 < 67108864"
  by (simp add: word_less_nat_alt div_less_iff_less_mult)

lemma page_start:
  assumes "a mod 4096 = 0" and "unat va div 4096 = unat a div 4096"
  shows "PGROUNDDOWN va = a"
proof -
  have "unat (PGROUNDDOWN va) = unat a"
    using assms div_mult_mod_eq [of "unat a" 4096] unfolding page_aligned_iff PGROUNDDOWN_unat by simp
  then show ?thesis by (simp add: word_unat_eq_iff)
qed

lemma PGROUNDDOWN_page: "unat (PGROUNDDOWN va) div 4096 = unat va div 4096"
  by (simp add: PGROUNDDOWN_unat)

lemma PGROUNDDOWN_aligned: "PGROUNDDOWN va mod 4096 = 0"
  by (simp add: page_aligned_iff PGROUNDDOWN_unat)

section \<open>Pages outside the table\<close>

text \<open>\<open>same_but m s t\<close>: from \<open>s\<close> to \<open>t\<close> only page \<open>m\<close> of the memory and the free list may change.\<close>

definition same_but :: "addr \<Rightarrow> kstate \<Rightarrow> kstate \<Rightarrow> bool" where
  "same_but m s t \<longleftrightarrow> t = s\<lparr>mem := mem t, freelist := freelist t\<rparr>
     \<and> (\<forall>q. q mod 4096 = 0 \<and> q \<noteq> m \<longrightarrow> same_page (mem s) (mem t) q)"

lemma same_butD:
  assumes "same_but m s t"
  shows "t = s\<lparr>mem := mem t, freelist := freelist t\<rparr>" and "q mod 4096 = 0 \<Longrightarrow> q \<noteq> m \<Longrightarrow> same_page (mem s) (mem t) q"
  using assms unfolding same_but_def by simp_all

lemma same_but_table:
  assumes ok: "table_ok l s pt ps" and b: "same_but m s t" and m: "m \<notin> pset l (mem s) pt" and r: "kmem_rep t qs"
    and qs: "set qs \<inter> pset l (mem s) pt = {}"
  shows "table_ok l t pt qs" and "pset l (mem t) pt = pset l (mem s) pt" and "tr l (mem t) pt va = tr l (mem s) pt va"
proof -
  note D = table_okD [OF ok]
  have "same_page (mem s) (mem t) p" if "p \<in> pset l (mem s) pt" for p
    by (rule same_butD(2) [OF b D(6) [OF that]]) (use m that in blast)
  from table_cong [OF this] have T: "pset l (mem t) pt = pset l (mem s) pt" "tree l (mem t) pt"
    "tr l (mem t) pt va = tr l (mem s) pt va" for va using D(3) by blast+
  then show "pset l (mem t) pt = pset l (mem s) pt" "tr l (mem t) pt va = tr l (mem s) pt va" by blast+
  show "table_ok l t pt qs"
    using ok T(1,2) r qs mem_only [OF same_butD(1) [OF b]] unfolding table_ok_def by auto
qed

lemma kalloc_table:
  assumes ok: "table_ok l s pt (m # ps)"
  obtains t where "kalloc s = Ok m t" "same_but m s t" "table_ok l t pt ps" "pset l (mem t) pt = pset l (mem s) pt"
    "\<And>va. tr l (mem t) pt va = tr l (mem s) pt va" "m \<noteq> 0" "m \<notin> pset l (mem s) pt" "m \<notin> set ps" "page_ok (kend s) m"
proof -
  note D = table_okD [OF ok]
  have P: "page_ok (kend s) m" "m \<notin> set ps" "0 < kend s" "m \<notin> pset l (mem s) pt"
    using D(1,4) by (auto simp: kmem_rep_def)
  define t where "t = s\<lparr>freelist := load64 (mem s) m, mem := memset (mem s) m 5 PGSIZE\<rparr>"
  have K: "kalloc s = Ok m t" "kmem_rep t ps" unfolding t_def by (rule kalloc_Cons [OF D(1,2)])+
  have b: "same_but m s t"
    using P(1) memset_same_page [of m _ "mem s" 5] unfolding same_but_def t_def page_ok_def by simp
  have "set ps \<inter> pset l (mem s) pt = {}" using D(4) by auto
  note T = same_but_table [OF ok b P(4) K(2) this]
  show thesis by (rule that [OF K(1) b T]) (use P in \<open>auto simp: page_ok_def\<close>)
qed

lemma kfree_table:
  assumes ok: "table_ok l s pt ps" and m: "page_ok (kend s) m" "m \<notin> pset l (mem s) pt" "m \<notin> set ps"
  obtains t where "kfree m s = Ok () t" "same_but m s t" "table_ok l t pt (m # ps)"
    "pset l (mem t) pt = pset l (mem s) pt" "\<And>va. tr l (mem t) pt va = tr l (mem s) pt va"
proof -
  note D = table_okD [OF ok]
  define t where "t = s\<lparr>mem := store64 (memset (mem s) m 1 PGSIZE) m (freelist s), freelist := m\<rparr>"
  have K: "kfree m s = Ok () t" "kmem_rep t (m # ps)" unfolding t_def by (rule kfree_Cons [OF D(1,2) m(1,3)])+
  have b: "same_but m s t" unfolding same_but_def
  proof (intro conjI allI impI)
    fix q :: addr assume q: "q mod 4096 = 0 \<and> q \<noteq> m"
    have a: "m mod 4096 = 0" using m(1) by (simp add: page_ok_def)
    show "same_page (mem s) (mem t) q"
      using same_page_trans [OF memset_same_page store_same_page, of m q m 0 "mem s" 1 "freelist s"] q a by (simp add: t_def)
  qed (simp add: t_def)
  have "set (m # ps) \<inter> pset l (mem s) pt = {}" using D(4) m(2) by auto
  note T = same_but_table [OF ok b m(2) K(2) this]
  show thesis by (rule that [OF K(1) b T])
qed

text \<open>Filling a page that is neither in the table nor free.\<close>

lemma fill_table:
  assumes ok: "table_ok l s pt ps" and m: "m \<notin> pset l (mem s) pt" "m \<notin> set ps"
    and b: "same_but m s t" "freelist t = freelist s"
  shows "table_ok l t pt ps" and "pset l (mem t) pt = pset l (mem s) pt" and "tr l (mem t) pt va = tr l (mem s) pt va"
proof -
  note D = table_okD [OF ok]
  have "kmem_rep t ps"
  proof (rule kmem_rep_same [OF D(1)])
    fix q assume "q \<in> set ps"
    then have "q mod 4096 = 0" "q \<noteq> m" using D(1) m(2) by (auto simp: kmem_rep_def page_ok_def)
    then show "same_page (mem s) (mem t) q" by (rule same_butD(2) [OF b(1)])
  qed (use b mem_only [OF same_butD(1) [OF b(1)]] in simp_all)
  note T = same_but_table [OF ok b(1) m(1) this]
  show "table_ok l t pt ps" "pset l (mem t) pt = pset l (mem s) pt" "tr l (mem t) pt va = tr l (mem s) pt va"
    by (rule T, use D(4) in blast)+
qed

lemma memset_same_but: "m mod 4096 = 0 \<Longrightarrow> same_but m s (s\<lparr>mem := memset (mem s) m c PGSIZE\<rparr>)"
  by (simp add: same_but_def memset_same_page)

section \<open>The view of the program\<close>

definition uframe :: "memory \<Rightarrow> addr \<Rightarrow> u64 \<Rightarrow> addr option" where
  "uframe m pt va =
     (if va < MAXVA then
        (case tr 2 m pt va of None \<Rightarrow> None | Some e \<Rightarrow> if e AND PTE_U \<noteq> 0 then Some (PTE2PA e) else None)
      else None)"

definition uview :: "kstate \<Rightarrow> addr \<Rightarrow> u64 \<Rightarrow> u64 \<Rightarrow> byte option" where
  "uview s pt sz va =
     (case uframe (mem s) pt va of
        Some f \<Rightarrow> Some (mem s (f + of_nat (unat va mod 4096)))
      | None \<Rightarrow> if va < MAXVA \<and> PGROUNDDOWN va < sz \<and> tr 2 (mem s) pt va = None then Some 0 else None)"

definition frames_ok :: "kstate \<Rightarrow> addr \<Rightarrow> addr list \<Rightarrow> bool" where
  "frames_ok s pt ps \<longleftrightarrow>
     (\<forall>va f. uframe (mem s) pt va = Some f \<longrightarrow> f \<notin> pset 2 (mem s) pt \<and> f \<notin> set ps \<and> f \<noteq> 0)
     \<and> (\<forall>va va' f. uframe (mem s) pt va = Some f \<and> uframe (mem s) pt va' = Some f \<longrightarrow>
          unat va div 4096 = unat va' div 4096)"

definition keeps_frames :: "addr \<Rightarrow> kstate \<Rightarrow> kstate \<Rightarrow> bool" where
  "keeps_frames pt s t \<longleftrightarrow> (\<forall>va < MAXVA. \<forall>e. tr 2 (mem s) pt va = Some e \<longrightarrow> tr 2 (mem t) pt va = Some e)"

definition space_ok :: "kstate \<Rightarrow> nat \<Rightarrow> addr \<Rightarrow> addr list \<Rightarrow> bool" where
  "space_ok s p pt ps \<longleftrightarrow>
     cur s = Some p \<and> p_pagetable (procs s p) = pt \<and> p_sz (procs s p) \<le> MAXVA
     \<and> table_ok 2 s pt ps \<and> frames_ok s pt ps"

lemma PTE2PA_aligned [simp]: "PTE2PA e mod 4096 = 0"
proof -
  have "take_bit 12 (PTE2PA e) = 0" by (rule bit_word_eqI) (simp add: PTE2PA_def bit_simps)
  then show ?thesis by (simp add: take_bit_eq_mod)
qed

lemma keeps_framesD: "keeps_frames pt s t \<Longrightarrow> uframe (mem s) pt va = Some f \<Longrightarrow> uframe (mem t) pt va = Some f"
  by (auto simp: keeps_frames_def uframe_def split: if_splits option.splits)

lemma keeps_refl [simp]: "keeps_frames pt s s"
  by (simp add: keeps_frames_def)

lemma keeps_trans: "keeps_frames pt s t \<Longrightarrow> keeps_frames pt t u \<Longrightarrow> keeps_frames pt s u"
  by (simp add: keeps_frames_def)

lemma uframe_aligned: "uframe m pt va = Some f \<Longrightarrow> f mod 4096 = 0"
  by (auto simp: uframe_def split: if_splits option.splits)


lemma uview_frame: "uframe (mem s) pt va = Some f \<Longrightarrow> uview s pt sz va = Some (mem s (f + of_nat (unat va mod 4096)))"
  by (simp add: uview_def)

lemma same_page_byte: "same_page m m' f \<Longrightarrow> m' (f + of_nat (unat va mod 4096)) = m (f + of_nat (unat va mod 4096))"
  by (simp add: same_page_def)

lemma uframe_cong: "(\<And>va. va < MAXVA \<Longrightarrow> tr 2 m' pt va = tr 2 m pt va) \<Longrightarrow> uframe m' pt va = uframe m pt va"
  by (simp add: uframe_def)

text \<open>When neither the translations nor the frames change, the view stays.\<close>

lemma keeps_tr: "(\<And>va. va < MAXVA \<Longrightarrow> tr 2 (mem t) pt va = tr 2 (mem s) pt va) \<Longrightarrow> keeps_frames pt s t"
  by (simp add: keeps_frames_def)

lemma view_same:
  assumes "\<And>va. va < MAXVA \<Longrightarrow> tr 2 (mem t) pt va = tr 2 (mem s) pt va"
    and "\<And>va f. uframe (mem s) pt va = Some f \<Longrightarrow> same_page (mem s) (mem t) f"
  shows "uview t pt sz = uview s pt sz"
proof
  fix va
  show "uview t pt sz va = uview s pt sz va"
    using assms same_page_byte [of "mem s" "mem t" _ va]
    by (cases "uframe (mem s) pt va") (auto simp: uview_def uframe_cong [OF assms(1)])
qed

lemma mem_only_proc:
  assumes "t = s\<lparr>mem := mem t, freelist := freelist t\<rparr>"
  shows "cur t = cur s" and "procs t = procs s"
  using arg_cong [OF assms, of cur] arg_cong [OF assms, of procs] by simp_all

lemma frames_same:
  assumes "frames_ok s pt ps" and "\<And>va. va < MAXVA \<Longrightarrow> tr 2 (mem t) pt va = tr 2 (mem s) pt va"
    and "pset 2 (mem t) pt \<union> set qs \<subseteq> pset 2 (mem s) pt \<union> set ps"
  shows "frames_ok t pt qs"
proof -
  have u: "uframe (mem t) pt va = uframe (mem s) pt va" for va by (rule uframe_cong) (rule assms(2))
  show ?thesis using assms(1,3) unfolding frames_ok_def u by blast
qed

text \<open>A mapping that failed before its first page leaves the address space as it was.\<close>

lemma maps_none:
  assumes ok: "space_ok s p pt ps" and M: "maps pt a 0 pa perm s ps t qs"
  shows "space_ok t p pt qs" and "uview t pt sz = uview s pt sz" and "va < MAXVA \<Longrightarrow> tr 2 (mem t) pt va = tr 2 (mem s) pt va"
    and "uframe (mem t) pt va = uframe (mem s) pt va"
proof -
  note D = mapsD [OF M]
  show tt: "tr 2 (mem t) pt va = tr 2 (mem s) pt va" if "va < MAXVA" for va
    using D(5) that by (simp add: mapped_def)
  show "uframe (mem t) pt va = uframe (mem s) pt va" by (rule uframe_cong [OF tt])
  have "frames_ok t pt qs" by (rule frames_same [of s pt ps]) (use ok tt D(3,4) in \<open>auto simp: space_ok_def\<close>)
  then show "space_ok t p pt qs" using ok D(2) mem_only_proc [OF D(1)] by (simp add: space_ok_def)
  show "uview t pt sz = uview s pt sz"
  proof (rule view_same [OF tt])
    fix va f assume f: "uframe (mem s) pt va = Some f"
    then have "f \<notin> pset 2 (mem s) pt" "f \<notin> set ps" using ok unfolding space_ok_def frames_ok_def by blast+
    then show "same_page (mem s) (mem t) f" by (rule D(6) [OF uframe_aligned [OF f]])
  qed
qed

lemma same_but_space:
  assumes ok: "space_ok s p pt ps" and b: "same_but m s t" and m: "(\<forall>va. uframe (mem s) pt va \<noteq> Some m)"
    and T: "table_ok 2 t pt qs" "pset 2 (mem t) pt = pset 2 (mem s) pt" "\<And>va. tr 2 (mem t) pt va = tr 2 (mem s) pt va"
    and qs: "\<forall>f \<in> set qs. (\<forall>va. uframe (mem s) pt va \<noteq> Some f)"
  shows "space_ok t p pt qs" and "uview t pt sz = uview s pt sz"
proof -
  note u = uframe_cong [where m = "mem s" and m' = "mem t", OF T(3)]
  have "frames_ok t pt qs" using ok qs unfolding space_ok_def frames_ok_def u T(2) by blast
  then show "space_ok t p pt qs"
    using ok T(1) mem_only_proc [OF same_butD(1) [OF b]] by (simp add: space_ok_def)
  show "uview t pt sz = uview s pt sz"
  proof (rule view_same [OF T(3)])
    fix va f assume f: "uframe (mem s) pt va = Some f"
    then have "f \<noteq> m" using m by auto
    then show "same_page (mem s) (mem t) f" by (rule same_butD(2) [OF b uframe_aligned [OF f]])
  qed
qed

text \<open>Mapping a zeroed page where the view was lazy zero.\<close>

lemma map_zero_page:
  assumes ok: "space_ok s p pt ps" and M: "maps pt a 1 m perm s ps t qs" and a: "a mod 4096 = 0" "a < MAXVA" "a < p_sz (procs s p)"
    and free: "tr 2 (mem s) pt a = None" and perm: "perm AND PTE_U \<noteq> 0" "perm OR PTE_V < 1024"
    and m: "page_ok (kend s) m" "m \<noteq> 0" "m \<notin> pset 2 (mem s) pt" "m \<notin> set ps" "(\<forall>va. uframe (mem s) pt va \<noteq> Some m)"
      "\<And>i. i < 4096 \<Longrightarrow> mem s (m + of_nat i) = 0"
  shows "space_ok t p pt qs" and "uview t pt (p_sz (procs s p)) = uview s pt (p_sz (procs s p))"
    and "unat va div 4096 = unat a div 4096 \<Longrightarrow> uframe (mem t) pt va = Some m" and "keeps_frames pt s t"
proof -
  note D = mapsD [OF M] and S = ok [unfolded space_ok_def]
  let ?e = "PA2PTE m OR perm OR PTE_V" and ?in = "\<lambda>va. unat va div 4096 = unat a div 4096"
  have lt: "va < MAXVA" if "?in va" for va
    using that a(2) unfolding MAXVA_page by simp
  have T: "tr 2 (mem t) pt va = (if ?in va then Some ?e else tr 2 (mem s) pt va)" if "va < MAXVA" for va
    using D(5) that by (auto simp: mapped_def Let_def)
  have e: "?e AND PTE_U \<noteq> 0" "PTE2PA ?e = m"
    using perm(1) PTE2PA_PA2PTE [of m "perm OR PTE_V"] perm(2) m(1)
    by (simp_all add: word_ao_dist or_eq_0_iff or.assoc page_ok_def word_less_nat_alt)
  have U: "uframe (mem t) pt va = (if ?in va then Some m else uframe (mem s) pt va)" for va
    using e lt by (simp add: uframe_def T)
  then show "?in va \<Longrightarrow> uframe (mem t) pt va = Some m" by simp
  have "tr 2 (mem s) pt va = None" if "?in va" for va using free tr_page(2) [OF that] by simp
  then show "keeps_frames pt s t" by (auto simp: keeps_frames_def T)
  have F: "f \<notin> pset 2 (mem s) pt" "f \<notin> set ps" "f \<noteq> 0" if "uframe (mem s) pt va = Some f" for va f
    using S that unfolding frames_ok_def by blast+
  have m5: "uframe (mem s) pt va \<noteq> Some m" for va using m(5) by blast
  have "frames_ok t pt qs" unfolding frames_ok_def U D(4)
    using F m(2-4) m5 D(3) S unfolding frames_ok_def by (auto split: if_splits)
  then show "space_ok t p pt qs" using S D(2) mem_only_proc [OF D(1)] by (simp add: space_ok_def)
  show "uview t pt (p_sz (procs s p)) = uview s pt (p_sz (procs s p))"
  proof
    fix va
    show "uview t pt (p_sz (procs s p)) va = uview s pt (p_sz (procs s p)) va"
    proof (cases "?in va")
      case True
      have "same_page (mem s) (mem t) m" by (rule D(6)) (use m in \<open>simp_all add: page_ok_def\<close>)
      then have "mem t (m + of_nat (unat va mod 4096)) = 0" using m(6) by (simp add: same_page_def)
      moreover have "tr 2 (mem s) pt va = None" using free tr_page(2) [OF True] by simp
      moreover have "PGROUNDDOWN va = a" by (rule page_start [OF a(1) True])
      ultimately show ?thesis using True a lt by (simp add: uview_def U) (simp add: uframe_def)
    next
      case False
      show ?thesis
      proof (cases "uframe (mem s) pt va")
        case None
        then show ?thesis using False T [of va] by (cases "va < MAXVA") (simp_all add: uview_def U)
      next
        case (Some f)
        have "same_page (mem s) (mem t) f" by (rule D(6)) (use F [OF Some] uframe_aligned [OF Some] in simp_all)
        then show ?thesis using Some False same_page_byte by (simp add: uview_def U)
      qed
    qed
  qed
qed


section \<open>Lazy allocation\<close>

text \<open>\<open>faulted\<close>: what \<open>vmfault\<close> at \<open>va\<close> may have done between \<open>s\<close> and \<open>t\<close>.\<close>

definition faulted :: "nat \<Rightarrow> addr \<Rightarrow> u64 \<Rightarrow> kstate \<Rightarrow> addr list \<Rightarrow> u64 \<Rightarrow> kstate \<Rightarrow> addr list \<Rightarrow> bool" where
  "faulted p pt va s ps r t qs \<longleftrightarrow>
     t = s\<lparr>mem := mem t, freelist := freelist t\<rparr> \<and> space_ok t p pt qs \<and> keeps_frames pt s t
     \<and> uview t pt (p_sz (procs s p)) = uview s pt (p_sz (procs s p))
     \<and> (if r = 0 then (\<forall>va' < MAXVA. tr 2 (mem t) pt va' = tr 2 (mem s) pt va')
                       \<and> (va < p_sz (procs s p) \<and> tr 2 (mem s) pt va = None \<longrightarrow> length ps < 3)
         else va < p_sz (procs s p) \<and> uframe (mem t) pt va = Some r \<and> (\<exists>e. tr 2 (mem t) pt va = Some e \<and> e AND PTE_W \<noteq> 0))"

lemma ismapped_tr:
  assumes "table_ok 2 s pt ps" and "va < MAXVA"
  shows "ismapped pt va s = Ok (tr 2 (mem s) pt va \<noteq> None) s"
proof (cases "leafpg 2 (mem s) pt va")
  case (Some q)
  then show ?thesis using leaf_nonzero [OF assms(1) Some] assms(2)
    by (auto simp: ismapped_def walk_def walk_lookup tr_def Let_def entry_def pte_valid_def)
qed (use assms(2) in \<open>simp add: ismapped_def walk_def walk_lookup tr_def\<close>)

text \<open>A page taken from the allocator and filled by its new owner changes nothing of the address space.\<close>

lemma alloc_filled:
  assumes ok: "space_ok s p pt (m # ps)" and k: "kalloc s = Ok m s1"
    and s2: "same_but m s1 s2" "freelist s2 = freelist s1"
  shows "space_ok s2 p pt ps" and "uview s2 pt sz = uview s pt sz" and "tr 2 (mem s2) pt va = tr 2 (mem s) pt va"
    and "s2 = s\<lparr>mem := mem s2, freelist := freelist s2\<rparr>" and "m \<noteq> 0" and "m \<notin> pset 2 (mem s2) pt" and "m \<notin> set ps"
    and "page_ok (kend s2) m" and "(\<forall>va. uframe (mem s2) pt va \<noteq> Some m)"
proof -
  note S = ok [unfolded space_ok_def]
  have T: "table_ok 2 s pt (m # ps)" using S by blast
  obtain t1 where K: "kalloc s = Ok m t1" "same_but m s t1" "table_ok 2 t1 pt ps" "pset 2 (mem t1) pt = pset 2 (mem s) pt"
    "\<And>va. tr 2 (mem t1) pt va = tr 2 (mem s) pt va" "m \<noteq> 0" "m \<notin> pset 2 (mem s) pt" "m \<notin> set ps" "page_ok (kend s) m"
    by (rule kalloc_table [OF T]) blast
  have t1: "t1 = s1" using k K(1) by simp
  note K = K(2-) [unfolded t1]
  have F: "\<forall>f \<in> set (m # ps). (\<forall>va. uframe (mem s) pt va \<noteq> Some f)"
    using S unfolding frames_ok_def by blast
  then have nf: "(\<forall>va. uframe (mem s) pt va \<noteq> Some m)" and fs: "\<forall>f \<in> set ps. (\<forall>va. uframe (mem s) pt va \<noteq> Some f)"
    by simp_all
  note S1 = same_but_space [OF ok K(1) nf K(2-4) fs]
  have u1: "uframe (mem s1) pt = uframe (mem s) pt" by (rule ext, rule uframe_cong [OF K(4)])
  have m1: "m \<notin> pset 2 (mem s1) pt" using K(3,6) by simp
  note F2 = fill_table [OF K(2) m1 K(7) s2]
  note S2 = same_but_space [OF S1(1) s2(1) _ F2, unfolded u1, OF nf fs]
  show T2: "tr 2 (mem s2) pt va = tr 2 (mem s) pt va" for va using F2(3) K(4) by simp
  show only: "s2 = s\<lparr>mem := mem s2, freelist := freelist s2\<rparr>"
    by (rule mem_only_trans [OF same_butD(1) [OF K(1)] same_butD(1) [OF s2(1)]])
  show "space_ok s2 p pt ps" "uview s2 pt sz = uview s pt sz" using S2 S1(2) by simp_all
  show "m \<noteq> 0" "m \<notin> set ps" by (rule K)+
  show "m \<notin> pset 2 (mem s2) pt" "page_ok (kend s2) m" using F2(2) m1 K(8) mem_only [OF only] by simp_all
  have "uframe (mem s2) pt = uframe (mem s) pt" by (rule ext, rule uframe_cong [OF T2])
  then show "(\<forall>va. uframe (mem s2) pt va \<noteq> Some m)" using nf by simp
qed

lemma page_range:
  fixes a va :: u64
  assumes "a mod 4096 = 0" and "unat a \<le> unat va" and "unat va < unat a + 4096"
  shows "unat va div 4096 = unat a div 4096"
proof -
  obtain k where "unat a = 4096 * k" using assms(1) unfolding page_aligned_iff by auto
  then show ?thesis using assms(2,3) by (simp add: div_nat_eqI)
qed

lemma mappages_page:
  assumes ok: "table_ok 2 s pt ps" and a: "a mod 4096 = 0" "a < MAXVA" and free: "tr 2 (mem s) pt a = None"
  obtains t qs where "mappages pt a 4096 pa perm s = Ok 0 t" "maps pt a 1 pa perm s ps t qs"
  | t where "mappages pt a 4096 pa perm s = Ok (- 1) t" "maps pt a 0 pa perm s ps t []" "length ps < 2"
proof -
  have fr: "tr 2 (mem s) pt va = None" if "unat a \<le> unat va" "unat va < unat a + 4096 * 1" for va
    using free tr_page(2) [OF page_range [OF a(1)], of va] that by simp
  have "unat a + 4096 * 1 \<le> 2 ^ 38"
    using a(2) div_mult_mod_eq [of "unat a" 4096] a(1) unfolding MAXVA_page page_aligned_iff by simp
  from mappages_maps [OF ok a(1) zero_less_one this fr, of pa perm]
  obtain r t k qs where M: "mappages pt a 4096 pa perm s = Ok r t" "maps pt a k pa perm s ps t qs"
    "r = 0 \<and> k = 1 \<or> r = - 1 \<and> k < 1 \<and> qs = []" by auto
  show thesis
  proof (cases "r = 0")
    case True
    then show thesis using that(1) M by simp
  next
    case False
    then have "\<not> 2 \<le> length ps" using mappages_enough [OF ok a free, of pa perm] M(1) by auto
    then show thesis using that(2) M False by simp
  qed
qed

lemma vmfault_map:
  assumes ok: "space_ok s p pt (m # ps)" and a: "a mod 4096 = 0" "a < p_sz (procs s p)" and free: "tr 2 (mem s) pt a = None"
    and k: "kalloc s = Ok m s1"
  shows "\<exists>r t qs. bind (mappages pt a 4096 m (PTE_W OR PTE_U OR PTE_R) (s1\<lparr>mem := memset (mem s1) m 0 PGSIZE\<rparr>))
      (\<lambda>r s. if r \<noteq> 0 then bind (kfree m s) (\<lambda>_ s. Ok 0 s) else Ok m s) = Ok r t \<and> faulted p pt a s (m # ps) r t qs"
proof -
  define s2 where "s2 = s1\<lparr>mem := memset (mem s1) m 0 PGSIZE\<rparr>"
  let ?perm = "PTE_W OR PTE_U OR PTE_R :: u64"
  have S: "cur s = Some p" "p_sz (procs s p) \<le> MAXVA" "page_ok (kend s) m"
    using ok by (simp_all add: space_ok_def table_ok_def kmem_rep_def)
  then have m: "m mod 4096 = 0" by (simp add: page_ok_def)
  have A: "a < MAXVA" using S(2) a(2) by (auto intro: less_le_trans)
  have b: "same_but m s1 s2" "freelist s2 = freelist s1" unfolding s2_def by (rule memset_same_but [OF m]) simp
  note F = alloc_filled [OF ok k b]
  note fields = mem_only_proc [OF F(4)]
  have T: "table_ok 2 s2 pt ps" using F(1) by (simp add: space_ok_def)
  have fa: "tr 2 (mem s2) pt a = None" using free F(3) by simp
  show ?thesis
  proof (rule mappages_page [OF T a(1) A fa, of m ?perm])
    fix t qs assume M: "mappages pt a 4096 m ?perm s2 = Ok 0 t" and M1: "maps pt a 1 m ?perm s2 ps t qs"
    have z: "mem s2 (m + of_nat i) = 0" if "i < 4096" for i
      using that by (auto simp: s2_def memset_page in_page_iff)
    have as: "a < p_sz (procs s2 p)" using a(2) fields by simp
    have pm: "?perm AND PTE_U \<noteq> 0" "?perm OR PTE_V < 1024" by simp_all
    note Z = map_zero_page [OF F(1) M1 a(1) A as fa pm F(8,5,6,7,9) z]
    have "tr 2 (mem t) pt a = Some (PA2PTE m OR ?perm OR PTE_V)"
      using mapsD(5) [OF M1] A by (simp add: mapped_def)
    moreover have "(PA2PTE m OR ?perm OR PTE_V) AND PTE_W \<noteq> 0" by (simp add: word_ao_dist or_eq_0_iff)
    moreover have "t = s\<lparr>mem := mem t, freelist := freelist t\<rparr>" by (rule mem_only_trans [OF F(4) mapsD(1) [OF M1]])
    moreover have "keeps_frames pt s t" by (rule keeps_trans [OF keeps_tr [OF F(3)] Z(4)])
    ultimately have "faulted p pt a s (m # ps) m t qs"
      unfolding faulted_def using Z F(2,5) a(2) fields by simp
    with M show ?thesis by (auto simp: s2_def)
  next
    fix t assume M: "mappages pt a 4096 m ?perm s2 = Ok (- 1) t" and M0: "maps pt a 0 m ?perm s2 ps t []" and "length ps < 2"
    note N = maps_none [OF F(1) M0] and D = mapsD [OF M0]
    have Tt: "table_ok 2 t pt []" using N(1) by (simp add: space_ok_def)
    have m': "page_ok (kend t) m" "m \<notin> pset 2 (mem t) pt" "m \<notin> set []"
      using F(6,7,8) D(4) mem_only [OF D(1)] by auto
    obtain u where K: "kfree m t = Ok () u" "same_but m t u" "table_ok 2 u pt [m]"
      "pset 2 (mem u) pt = pset 2 (mem t) pt" "\<And>va. tr 2 (mem u) pt va = tr 2 (mem t) pt va"
      by (rule kfree_table [OF Tt m']) blast
    have nf: "\<forall>va. uframe (mem t) pt va \<noteq> Some m" using F(9) N(4) by simp
    then have "\<forall>f \<in> set [m]. \<forall>va. uframe (mem t) pt va \<noteq> Some f" by simp
    note U = same_but_space [OF N(1) K(2) nf K(3-5) this]
    have "u = s\<lparr>mem := mem u, freelist := freelist u\<rparr>"
      by (rule mem_only_trans [OF F(4) mem_only_trans [OF D(1) same_butD(1) [OF K(2)]]])
    moreover have "keeps_frames pt s u" by (rule keeps_tr) (simp add: K(5) N(3) F(3))
    ultimately have "faulted p pt a s (m # ps) 0 u [m]"
      unfolding faulted_def using U N(2,3) F(2,3) K(5) \<open>length ps < 2\<close> by simp
    then show ?thesis using M K(1) by (auto simp: s2_def)
  qed
qed


lemma uframe_page: "unat va div 4096 = unat va' div 4096 \<Longrightarrow> uframe m pt va = uframe m pt va'"
  unfolding uframe_def MAXVA_page using tr_page(2) [of va va' 2 m pt] by simp

lemma faulted_page:
  assumes "faulted p pt (PGROUNDDOWN va) s ps r t qs" and "va < p_sz (procs s p)"
  shows "faulted p pt va s ps r t qs"
proof -
  note P = PGROUNDDOWN_page [of va]
  have "unat (PGROUNDDOWN va) \<le> unat va" by (simp add: PGROUNDDOWN_unat div_times_less_eq_dividend)
  then have "PGROUNDDOWN va < p_sz (procs s p)" using assms(2) by (simp add: word_less_nat_alt)
  then show ?thesis using assms
    unfolding faulted_def uframe_page [OF P, symmetric] tr_page(2) [OF P, symmetric] by simp
qed

lemma vmfault_faulted:
  assumes ok: "space_ok s p pt ps"
  shows "\<exists>r t qs. vmfault pt va s = Ok r t \<and> faulted p pt va s ps r t qs"
proof -
  note S = ok [unfolded space_ok_def]
  have refl: "faulted p pt va s ps 0 s ps" if "p_sz (procs s p) \<le> va \<or> tr 2 (mem s) pt va \<noteq> None \<or> ps = []"
    using ok that by (auto simp: faulted_def)
  show ?thesis
  proof (cases "p_sz (procs s p) \<le> va")
    case True
    then have "vmfault pt va s = Ok 0 s" using S by (simp add: vmfault_def)
    then show ?thesis using refl True by blast
  next
    case False
    let ?a = "PGROUNDDOWN va"
    have va: "va < p_sz (procs s p)" using False by simp
    then have "va < MAXVA" using S by (auto intro: less_le_trans)
    then have A: "?a < MAXVA" by (simp only: MAXVA_page PGROUNDDOWN_page)
    have as: "?a < p_sz (procs s p)"
    proof -
      have "unat ?a \<le> unat va" by (simp add: PGROUNDDOWN_unat div_times_less_eq_dividend)
      then show ?thesis using va by (simp add: word_less_nat_alt)
    qed
    have tra: "tr 2 (mem s) pt ?a = tr 2 (mem s) pt va" by (rule tr_page(2) [OF PGROUNDDOWN_page])
    have T: "table_ok 2 s pt ps" using S by blast
    have eq: "vmfault pt va s = (if tr 2 (mem s) pt va \<noteq> None then Ok 0 s else
       bind (kalloc s) (\<lambda>m s1. if m = 0 then Ok 0 s1
         else bind (mappages (p_pagetable (procs s1 p)) ?a 4096 m (PTE_W OR PTE_U OR PTE_R) (s1\<lparr>mem := memset (mem s1) m 0 PGSIZE\<rparr>))
           (\<lambda>r s. if r \<noteq> 0 then bind (kfree m s) (\<lambda>_ s. Ok 0 s) else Ok m s)))"
      using S False ismapped_tr [OF T A] tra by (simp add: vmfault_def Let_def)
    show ?thesis
    proof (cases "tr 2 (mem s) pt va = None")
      case True
      show ?thesis
      proof (cases ps)
        case Nil
        then have "kalloc s = Ok 0 s" using T kalloc_Nil by (simp add: table_ok_def)
        then show ?thesis using eq True refl Nil by auto
      next
        case (Cons m ps')
        obtain s1 where K: "kalloc s = Ok m s1" "same_but m s s1" "m \<noteq> 0"
          by (rule kalloc_table [OF T [unfolded Cons]])
        have pp: "p_pagetable (procs s1 p) = pt"
          unfolding mem_only_proc(2) [OF same_butD(1) [OF K(2)]] using S by blast
        have "tr 2 (mem s) pt ?a = None" using tra True by simp
        from vmfault_map [OF ok [unfolded Cons] PGROUNDDOWN_aligned as this K(1)]
        obtain r t qs where R: "bind (mappages pt ?a 4096 m (PTE_W OR PTE_U OR PTE_R) (s1\<lparr>mem := memset (mem s1) m 0 PGSIZE\<rparr>))
           (\<lambda>r s. if r \<noteq> 0 then bind (kfree m s) (\<lambda>_ s. Ok 0 s) else Ok m s) = Ok r t" "faulted p pt ?a s ps r t qs"
          unfolding Cons by blast
        have "vmfault pt va s = Ok r t" unfolding eq K(1) bind_Ok pp R(1) using True K(3) by simp
        then show ?thesis using faulted_page [OF R(2) va] by blast
      qed
    qed (use eq refl in auto)
  qed
qed


section \<open>Copying\<close>

definition upd :: "(u64 \<Rightarrow> byte option) \<Rightarrow> u64 \<Rightarrow> byte list \<Rightarrow> u64 \<Rightarrow> byte option" where
  "upd v dst bs va =
     (if unat dst \<le> unat va \<and> unat va < unat dst + length bs then Some (bs ! (unat va - unat dst)) else v va)"

lemma upd_Nil [simp]: "upd v dst [] = v"
  by (rule ext) (auto simp: upd_def)

lemma upd_append:
  assumes "unat dst' = unat dst + length xs"
  shows "upd (upd v dst xs) dst' ys = upd v dst (xs @ ys)"
  by (rule ext) (auto simp: upd_def assms nth_append diff_diff_left)

lemma walkaddr_uframe:
  assumes "table_ok 2 s pt ps"
  shows "walkaddr pt va s = Ok (case uframe (mem s) pt va of None \<Rightarrow> 0 | Some f \<Rightarrow> f) s"
  unfolding walkaddr_tr [OF assms] uframe_def by (auto split: option.splits)

lemma page_write_same:
  assumes "f mod 4096 = 0" and "off + length bs \<le> 4096" and "q mod 4096 = 0" and "q \<noteq> f"
  shows "same_page m (mem_write m (f + of_nat off) bs) q"
  unfolding same_page_def
proof (intro allI impI mem_write_outside)
  fix i j assume i: "i < (4096 :: nat)" and j: "j < length bs"
  then have "q + of_nat i \<noteq> f + of_nat (off + j)"
    by (intro page_disjoint) (use assms in auto)
  then show "q + of_nat i \<noteq> f + of_nat off + of_nat j" by (simp add: add.assoc)
qed

lemma page_write_nth:
  assumes "off + length bs \<le> 4096" and "i < 4096"
  shows "mem_write m (f + of_nat off) bs (f + of_nat i) =
     (if off \<le> i \<and> i < off + length bs then bs ! (i - off) else m (f + of_nat i))"
proof (cases "off \<le> i \<and> i < off + length bs")
  case True
  then have "f + of_nat i = f + of_nat off + of_nat (i - off)" by (simp add: of_nat_diff)
  moreover have "i - off < length bs" "length bs \<le> 2 ^ 64" using True assms by auto
  ultimately show ?thesis using True mem_write_inside [of bs "i - off" m "f + of_nat off"] by simp
next
  case False
  have "mem_write m (f + of_nat off) bs (f + of_nat i) = m (f + of_nat i)"
  proof (rule mem_write_outside)
    fix j assume j: "j < length bs"
    then have "i \<noteq> off + j" using False by auto
    then have "f + of_nat i \<noteq> f + of_nat (off + j)"
      using word_offset_eq_iff [of i "off + j" f] assms j by simp
    then show "f + of_nat i \<noteq> f + of_nat off + of_nat j" by (simp add: add.assoc)
  qed
  then show ?thesis using False by auto
qed

lemma same_page_arith:
  fixes a b n :: nat
  assumes "b div 4096 = a div 4096"
  shows "a \<le> b \<longleftrightarrow> a mod 4096 \<le> b mod 4096" and "b < a + n \<longleftrightarrow> b mod 4096 < a mod 4096 + n"
    and "b - a = b mod 4096 - a mod 4096"
proof -
  define k where "k = a div 4096 * 4096"
  have a: "a = k + a mod 4096" and b: "b = k + b mod 4096"
    unfolding k_def using assms div_mult_mod_eq [of b 4096] by simp_all
  define x y where "x = a mod 4096" and "y = b mod 4096"
  have "a = k + x" "b = k + y" using a b by (simp_all add: x_def y_def)
  then have "(a \<le> b) = (x \<le> y)" "(b < a + n) = (y < x + n)" "b - a = y - x" by auto
  then show "a \<le> b \<longleftrightarrow> a mod 4096 \<le> b mod 4096" "b < a + n \<longleftrightarrow> b mod 4096 < a mod 4096 + n"
    "b - a = b mod 4096 - a mod 4096" by (simp_all add: x_def y_def)
qed

lemma page_span:
  fixes a b n :: nat
  assumes "a \<le> b" and "b < a + n" and "a mod 4096 + n \<le> 4096"
  shows "b div 4096 = a div 4096"
proof (rule div_nat_eqI)
  show "4096 * (a div 4096) \<le> b" "b < 4096 * Suc (a div 4096)"
    using assms mult_div_mod_eq [of 4096 a] unfolding mult_Suc_right by linarith+
qed

lemma write_frame:
  assumes ok: "space_ok s p pt ps" and f: "uframe (mem s) pt dst = Some f"
    and n: "unat dst mod 4096 + length bs \<le> 4096"
    and t: "t = s\<lparr>mem := mem_write (mem s) (f + of_nat (unat dst mod 4096)) bs\<rparr>"
  shows "space_ok t p pt ps" and "tr 2 (mem t) pt va = tr 2 (mem s) pt va" and "uview t pt sz = upd (uview s pt sz) dst bs"
proof -
  note S = ok [unfolded space_ok_def]
  have T: "table_ok 2 s pt ps" using S by blast
  have F: "f \<notin> pset 2 (mem s) pt" "f \<notin> set ps" using S f unfolding frames_ok_def by blast+
  have b: "same_but f s t" "freelist t = freelist s"
    unfolding same_but_def t using page_write_same [OF uframe_aligned [OF f] n] by simp_all
  note FT = fill_table [OF T F b]
  show tt: "tr 2 (mem t) pt va = tr 2 (mem s) pt va" for va by (rule FT)
  have u: "uframe (mem t) pt va = uframe (mem s) pt va" for va by (rule uframe_cong [OF tt])
  have "frames_ok t pt ps" by (rule frames_same [of s pt ps]) (use S tt FT(2) in auto)
  then show "space_ok t p pt ps"
    using S FT(1) mem_only_proc [OF same_butD(1) [OF b(1)]] by (simp add: space_ok_def)
  show "uview t pt sz = upd (uview s pt sz) dst bs"
  proof
    fix va :: u64
    let ?o = "unat dst mod 4096" and ?i = "unat va mod 4096"
    show "uview t pt sz va = upd (uview s pt sz) dst bs va"
    proof (cases "unat va div 4096 = unat dst div 4096")
      case True
      then have fv: "uframe (mem s) pt va = Some f" using f uframe_page by metis
      note A = same_page_arith [OF True]
      have "uview t pt sz va = Some (mem t (f + of_nat ?i))" using fv u by (simp add: uview_frame)
      also have "\<dots> = upd (uview s pt sz) dst bs va"
        using page_write_nth [OF n, of ?i "mem s" f] fv unfolding upd_def A by (simp add: uview_frame t)
      finally show ?thesis .
    next
      case False
      then have "\<not> (unat dst \<le> unat va \<and> unat va < unat dst + length bs)"
        using page_span n by blast
      moreover have "uview t pt sz va = uview s pt sz va"
      proof (cases "uframe (mem s) pt va")
        case (Some g)
        then have "g \<noteq> f" using S f False unfolding frames_ok_def by blast
        then have "same_page (mem s) (mem t) g" by (rule same_butD(2) [OF b(1) uframe_aligned [OF Some]])
        then show ?thesis using Some u same_page_byte by (simp add: uview_frame)
      qed (simp add: uview_def u tt)
      ultimately show ?thesis by (auto simp: upd_def)
    qed
  qed
qed


definition writable :: "memory \<Rightarrow> addr \<Rightarrow> u64 \<Rightarrow> bool" where
  "writable m pt va \<longleftrightarrow> uframe m pt va \<noteq> None \<and> (\<exists>e. tr 2 m pt va = Some e \<and> e AND PTE_W \<noteq> 0)"

lemma keeps_writable: "keeps_frames pt s t \<Longrightarrow> writable (mem s) pt va \<Longrightarrow> writable (mem t) pt va"
  by (auto simp: keeps_frames_def writable_def uframe_def split: if_splits)

text \<open>\<open>copied\<close>: the first \<open>k\<close> bytes of \<open>src\<close> have reached the view at \<open>dst\<close>, and nothing else changed in it.\<close>

definition copied :: "nat \<Rightarrow> addr \<Rightarrow> u64 \<Rightarrow> byte list \<Rightarrow> nat \<Rightarrow> kstate \<Rightarrow> kstate \<Rightarrow> addr list \<Rightarrow> bool" where
  "copied p pt dst src k s t qs \<longleftrightarrow>
     t = s\<lparr>mem := mem t, freelist := freelist t\<rparr> \<and> space_ok t p pt qs \<and> keeps_frames pt s t
     \<and> uview t pt (p_sz (procs s p)) = upd (uview s pt (p_sz (procs s p))) dst (take k src)"

lemma space_table: "space_ok s p pt ps \<Longrightarrow> table_ok 2 s pt ps"
  by (simp add: space_ok_def)

lemma uframe_nonzero: "space_ok s p pt ps \<Longrightarrow> uframe (mem s) pt va = Some f \<Longrightarrow> f \<noteq> 0"
  unfolding space_ok_def frames_ok_def by blast

lemma uframe_walk:
  assumes ok: "table_ok 2 s pt ps" and f: "uframe (mem s) pt va = Some f"
  obtains q e where "walk pt va False s = Ok q s" "q \<noteq> 0" "load64 (mem s) q = e" "tr 2 (mem s) pt va = Some e"
proof -
  obtain e where e: "tr 2 (mem s) pt va = Some e" and va: "va < MAXVA"
    using f by (auto simp: uframe_def split: option.splits if_splits)
  then obtain q where q: "leafpg 2 (mem s) pt va = Some q" "entry (mem s) q (px 0 va) = e"
    by (auto simp: tr_entry)
  show thesis
    by (rule that [of "pte_at q (of_nat (px 0 va))" e])
      (use q e va leaf_nonzero [OF ok q(1)] in \<open>simp_all add: walk_def walk_lookup entry_def not_le\<close>)
qed

lemma offset_in_page: "unat (dst - PGROUNDDOWN dst) = unat dst mod 4096" "dst - PGROUNDDOWN dst = of_nat (unat dst mod 4096)"
proof -
  have le: "PGROUNDDOWN dst \<le> dst" by (simp add: word_le_nat_alt PGROUNDDOWN_unat div_times_less_eq_dividend)
  show u: "unat (dst - PGROUNDDOWN dst) = unat dst mod 4096"
    using unat_sub [OF le] by (simp add: PGROUNDDOWN_unat minus_div_mult_eq_mod)
  show "dst - PGROUNDDOWN dst = of_nat (unat dst mod 4096)" unfolding u [symmetric] by simp
qed

lemma next_page:
  assumes "dst < MAXVA"
  shows "unat (PGROUNDDOWN dst + 4096) = unat dst + (4096 - unat dst mod 4096)"
proof -
  have "unat (PGROUNDDOWN dst) + 4096 = unat dst + (4096 - unat dst mod 4096)"
    unfolding PGROUNDDOWN_unat
    using div_mult_mod_eq [of "unat dst" 4096] mod_less_divisor [of 4096 "unat dst"] by linarith
  moreover have "unat (PGROUNDDOWN dst + of_nat 4096) = unat (PGROUNDDOWN dst) + 4096"
    using assms by (intro unat_add_no_wrap) (simp add: PGROUNDDOWN_unat word_less_nat_alt)
  ultimately show ?thesis by simp
qed


text \<open>One round of \<open>copyout\<close>, once the frame has been found.\<close>

lemma copyout_round:
  assumes ok: "space_ok s p pt ps" and f: "uframe (mem s) pt (PGROUNDDOWN dst) = Some f" and src: "src \<noteq> []"
  defines "n \<equiv> min (PGSIZE - unat dst mod 4096) (length src)"
  obtains t where "t = s\<lparr>mem := mem_write (mem s) (f + (dst - PGROUNDDOWN dst)) (take n src)\<rparr>"
    "space_ok t p pt ps" "\<And>va. tr 2 (mem t) pt va = tr 2 (mem s) pt va"
    "uview t pt sz = upd (uview s pt sz) dst (take n src)" "0 < n" "n \<le> length src" "dst < MAXVA"
proof -
  have f': "uframe (mem s) pt dst = Some f" using f uframe_page [OF PGROUNDDOWN_page] by simp
  then have "dst < MAXVA" by (auto simp: uframe_def split: if_splits)
  moreover define t where "t = s\<lparr>mem := mem_write (mem s) (f + of_nat (unat dst mod 4096)) (take n src)\<rparr>"
  moreover have "unat dst mod 4096 + length (take n src) \<le> 4096"
    using mod_less_divisor [of 4096 "unat dst"] by (simp add: n_def)
  moreover note W = write_frame [OF ok f' this t_def]
  moreover have "0 < n" "n \<le> length src" using src mod_less_divisor [of 4096 "unat dst"] by (auto simp: n_def)
  ultimately show thesis by (intro that [of t]) (simp_all add: offset_in_page W)
qed

lemma writable_cong:
  "(\<And>va. tr 2 m' pt va = tr 2 m pt va) \<Longrightarrow> writable m' pt va = writable m pt va"
  unfolding writable_def by (simp add: uframe_cong [where m = m and m' = m'])

text \<open>The outcome of a copy to user space: complete, or stopped before a page that was not mapped writable.\<close>

definition copyout_ok :: "nat \<Rightarrow> addr \<Rightarrow> u64 \<Rightarrow> byte list \<Rightarrow> kstate \<Rightarrow> int kres \<Rightarrow> bool" where
  "copyout_ok p pt dst src s m \<longleftrightarrow>
     (\<exists>r t qs k. m = Ok r t \<and> copied p pt dst src k s t qs
        \<and> (r = 0 \<and> k = length src
           \<or> r = - 1 \<and> k < length src \<and> (\<exists>i < length src. \<not> writable (mem s) pt (dst + of_nat i))))"

lemma copied_step:
  assumes t: "t = s\<lparr>mem := m'\<rparr>" and v: "uview t pt (p_sz (procs s p)) = upd (uview s pt (p_sz (procs s p))) dst (take n src)"
    and c: "copied p pt (PGROUNDDOWN dst + 4096) (drop n src) k t u qs"
    and n: "n = min (PGSIZE - unat dst mod 4096) (length src)" and d: "dst < MAXVA" and kf: "keeps_frames pt s t"
  shows "copied p pt dst src (n + k) s u qs"
proof -
  have pr: "procs t = procs s" by (simp add: t)
  have "take k (drop n src) = [] \<or> unat (PGROUNDDOWN dst + 4096) = unat dst + length (take n src)"
    using next_page [OF d] by (cases "PGSIZE - unat dst mod 4096 \<le> length src") (simp_all add: n min_def)
  then have "upd (upd v dst (take n src)) (PGROUNDDOWN dst + 4096) (take k (drop n src)) = upd v dst (take (n + k) src)" for v
    using upd_append [of "PGROUNDDOWN dst + 4096" dst "take n src" v "take k (drop n src)"] by (auto simp: take_add)
  moreover have "u = s\<lparr>mem := mem u, freelist := freelist u\<rparr>"
    by (rule mem_only_trans [of t]) (use c in \<open>simp_all add: t copied_def\<close>)
  ultimately show ?thesis using c v keeps_trans [OF kf] by (simp add: copied_def pr)
qed

lemma copyout_continue:
  assumes IH: "\<And>dst src s ps. space_ok s p pt ps \<Longrightarrow> length src < fuel \<Longrightarrow> copyout_ok p pt dst src s (copyout_loop fuel pt dst src s)"
    and ok: "space_ok s p pt ps" and f: "uframe (mem s) pt (PGROUNDDOWN dst) = Some f" and src: "src \<noteq> []" "length src < Suc fuel"
  shows "copyout_ok p pt dst src s (bind (walk pt (PGROUNDDOWN dst) False s) (\<lambda>pte s.
            if pte = 0 then Panic ''kerneltrap''
            else if load64 (mem s) pte AND PTE_W = 0 then Ok (- 1) s
            else let n = min (PGSIZE - unat (dst - PGROUNDDOWN dst)) (length src) in
              copyout_loop fuel pt (PGROUNDDOWN dst + 4096) (drop n src)
                (s\<lparr>mem := mem_write (mem s) (f + (dst - PGROUNDDOWN dst)) (take n src)\<rparr>)))"
proof -
  obtain q e where w: "walk pt (PGROUNDDOWN dst) False s = Ok q s" "q \<noteq> 0" "load64 (mem s) q = e"
    "tr 2 (mem s) pt (PGROUNDDOWN dst) = Some e"
    by (rule uframe_walk [OF space_table [OF ok] f])
  have td: "tr 2 (mem s) pt dst = Some e" using w(4) tr_page(2) [OF PGROUNDDOWN_page] by simp
  define n where "n = min (PGSIZE - unat dst mod 4096) (length src)"
  show ?thesis
  proof (cases "e AND PTE_W = 0")
    case True
    have "copied p pt dst src 0 s s ps" using ok by (simp add: copied_def)
    moreover have "\<not> writable (mem s) pt (dst + of_nat 0)" using td True by (simp add: writable_def)
    ultimately show ?thesis unfolding copyout_ok_def w(1) using w True src(1) by (force simp: length_greater_0_conv)
  next
    case False
    obtain t where t: "t = s\<lparr>mem := mem_write (mem s) (f + (dst - PGROUNDDOWN dst)) (take n src)\<rparr>"
      "space_ok t p pt ps" "\<And>va. tr 2 (mem t) pt va = tr 2 (mem s) pt va"
      "uview t pt (p_sz (procs s p)) = upd (uview s pt (p_sz (procs s p))) dst (take n src)" "0 < n" "n \<le> length src" "dst < MAXVA"
      unfolding n_def by (rule copyout_round [OF ok f src(1), of "p_sz (procs s p)"]) blast
    have "length (drop n src) < fuel" using t(5,6) src by auto
    from IH [OF t(2) this, of "PGROUNDDOWN dst + 4096"]
    obtain r u qs k where u: "copyout_loop fuel pt (PGROUNDDOWN dst + 4096) (drop n src) t = Ok r u"
      "copied p pt (PGROUNDDOWN dst + 4096) (drop n src) k t u qs"
      "r = 0 \<and> k = length (drop n src) \<or> r = - 1 \<and> k < length (drop n src)
         \<and> (\<exists>i < length (drop n src). \<not> writable (mem t) pt (PGROUNDDOWN dst + 4096 + of_nat i))"
      unfolding copyout_ok_def by blast
    have c: "copied p pt dst src (n + k) s u qs" by (rule copied_step [OF t(1,4) u(2) n_def t(7) keeps_tr [OF t(3)]])
    have "\<exists>i < length src. \<not> writable (mem s) pt (dst + of_nat i)" if r0: "r \<noteq> 0"
    proof -
      obtain i where i: "i < length (drop n src)" "\<not> writable (mem t) pt (PGROUNDDOWN dst + 4096 + of_nat i)"
        using u(3) r0 by auto
      then have "n = 4096 - unat dst mod 4096" by (auto simp: n_def)
      then have "PGROUNDDOWN dst + 4096 = dst + of_nat n"
        using next_page [OF t(7)] unat_add_no_wrap [of dst n] t(7) by (simp add: word_unat_eq_iff word_less_nat_alt)
      then have "\<not> writable (mem s) pt (dst + of_nat (n + i))"
        using i(2) writable_cong [OF t(3)] by (simp add: add.assoc)
      moreover have "n + i < length src" using i(1) by simp
      ultimately show ?thesis by blast
    qed
    then have "r = 0 \<and> n + k = length src
       \<or> r = - 1 \<and> n + k < length src \<and> (\<exists>i < length src. \<not> writable (mem s) pt (dst + of_nat i))"
      using u(3) t(6) by auto
    then have "copyout_ok p pt dst src s (Ok r u)" unfolding copyout_ok_def using c by blast
    then show ?thesis using w False u(1) by (simp add: offset_in_page(1) n_def [symmetric] t(1) [symmetric] Let_def)
  qed
qed

lemma copyout_loop_copied:
  "space_ok s p pt ps \<Longrightarrow> length src < fuel \<Longrightarrow> copyout_ok p pt dst src s (copyout_loop fuel pt dst src s)"
proof (induction fuel arbitrary: dst src s ps)
  case (Suc fuel)
  let ?va0 = "PGROUNDDOWN dst"
  note ok = Suc.prems(1)
  have stay: "copyout_ok p pt dst src s (Ok (- 1) t)"
    if "src \<noteq> []" "uframe (mem s) pt ?va0 = None" "copied p pt dst src 0 s t qs" for t qs
  proof -
    have "\<not> writable (mem s) pt (dst + of_nat 0)"
      using that(2) uframe_page [OF PGROUNDDOWN_page] by (simp add: writable_def)
    then show ?thesis unfolding copyout_ok_def using that(1,3) by (force simp: length_greater_0_conv)
  qed
  have refl: "copied p pt dst src 0 s s ps" using ok by (simp add: copied_def)
  let ?body = "\<lambda>f s. bind (walk pt ?va0 False s) (\<lambda>pte s.
            if pte = 0 then Panic ''kerneltrap''
            else if load64 (mem s) pte AND PTE_W = 0 then Ok (- 1) s
            else let n = min (PGSIZE - unat (dst - ?va0)) (length src) in
              copyout_loop fuel pt (?va0 + 4096) (drop n src)
                (s\<lparr>mem := mem_write (mem s) (f + (dst - ?va0)) (take n src)\<rparr>))"
  have cont: "copyout_ok p pt dst src s (?body f s)"
    if "space_ok s p pt ps" "uframe (mem s) pt ?va0 = Some f" "src \<noteq> []" for s ps f
    by (rule copyout_continue [OF _ that Suc.prems(2)]) (rule Suc.IH)
  show ?case
  proof (cases "src = []")
    case True
    then show ?thesis using refl by (auto simp: copyout_ok_def)
  next
    case ne: False
    show ?thesis
    proof (cases "uframe (mem s) pt ?va0")
      case (Some f)
      then have "copyout_loop (Suc fuel) pt dst src s = ?body f s"
        using ne uframe_nonzero [OF ok Some]
        by (auto simp: walkaddr_uframe [OF space_table [OF ok]] Let_def uframe_def split: if_splits)
      moreover have "copyout_ok p pt dst src s (?body f s)" by (rule cont [OF ok Some ne])
      ultimately show ?thesis by (simp only:)
    next
      case None
      obtain r t qs where F: "vmfault pt ?va0 s = Ok r t" "faulted p pt ?va0 s ps r t qs"
        using vmfault_faulted [OF ok] by blast
      have eq: "copyout_loop (Suc fuel) pt dst src s =
          (if MAXVA \<le> ?va0 then Ok (- 1) s else if r = 0 then Ok (- 1) t else ?body r t)"
        using ne None F(1) by (simp add: walkaddr_uframe [OF space_table [OF ok]] Let_def)
      have t: "t = s\<lparr>mem := mem t, freelist := freelist t\<rparr>" "space_ok t p pt qs"
        "uview t pt (p_sz (procs s p)) = uview s pt (p_sz (procs s p))" "keeps_frames pt s t"
        using F(2) by (simp_all add: faulted_def)
      show ?thesis
      proof (cases "MAXVA \<le> ?va0 \<or> r = 0")
        case True
        have "copied p pt dst src 0 s t qs" using t by (simp add: copied_def)
        then show ?thesis using eq True stay [OF ne None] refl by auto
      next
        case False
        then have "uframe (mem t) pt ?va0 = Some r" using F(2) by (simp add: faulted_def)
        from cont [OF t(2) this ne] obtain r' u us k where u: "?body r t = Ok r' u" "copied p pt dst src k t u us"
          "r' = 0 \<and> k = length src \<or> r' = - 1 \<and> k < length src" unfolding copyout_ok_def by blast
        have "copied p pt dst src k s u us"
          using u(2) t(1,3) mem_only_trans [OF t(1)] mem_only_proc(2) [OF t(1)] keeps_trans [OF t(4)]
          by (auto simp: copied_def)
        moreover have "\<not> writable (mem s) pt (dst + of_nat 0)"
          using None uframe_page [OF PGROUNDDOWN_page] by (simp add: writable_def)
        ultimately have "copyout_ok p pt dst src s (?body r t)"
          unfolding copyout_ok_def u(1) using u(3) ne by (force simp: length_greater_0_conv)
        then show ?thesis using eq False by (simp only: de_Morgan_disj if_False)
      qed
    qed
  qed
qed simp


text \<open>The bytes of a view from an address on.\<close>

definition ubytes :: "(u64 \<Rightarrow> byte option) \<Rightarrow> u64 \<Rightarrow> nat \<Rightarrow> byte list" where
  "ubytes v a n = map (\<lambda>i. the (v (a + of_nat i))) [0..<n]"

definition copyin_ok :: "nat \<Rightarrow> addr \<Rightarrow> byte list \<Rightarrow> u64 \<Rightarrow> nat \<Rightarrow> kstate \<Rightarrow> (int \<times> byte list) kres \<Rightarrow> bool" where
  "copyin_ok p pt acc src len s m \<longleftrightarrow>
     (\<exists>r t qs k. m = Ok (r, acc @ ubytes (uview s pt (p_sz (procs s p))) src k) t
        \<and> t = s\<lparr>mem := mem t, freelist := freelist t\<rparr> \<and> space_ok t p pt qs \<and> keeps_frames pt s t
        \<and> uview t pt (p_sz (procs s p)) = uview s pt (p_sz (procs s p))
        \<and> (\<forall>i < k. uview s pt (p_sz (procs s p)) (src + of_nat i) \<noteq> None)
        \<and> (r = 0 \<and> k = len \<or> r = - 1 \<and> k < len \<and> (\<exists>i < len. uframe (mem s) pt (src + of_nat i) = None)))"

lemma ubytes_add: "ubytes v a (n + k) = ubytes v a n @ ubytes v (a + of_nat n) k"
  by (rule nth_equalityI) (auto simp: ubytes_def nth_append add.assoc)

lemma page_offset_in:
  assumes "i < 4096 - unat src mod 4096" and "src < MAXVA"
  shows "unat (src + of_nat i) div 4096 = unat src div 4096" and "unat (src + of_nat i) mod 4096 = unat src mod 4096 + i"
proof -
  have u: "unat (src + of_nat i) = unat src + i"
    using assms by (intro unat_add_no_wrap) (simp add: word_less_nat_alt)
  show d: "unat (src + of_nat i) div 4096 = unat src div 4096"
    unfolding u by (rule page_span [of _ _ "Suc i"]) (use assms(1) in simp_all)
  show "unat (src + of_nat i) mod 4096 = unat src mod 4096 + i"
    using d div_mult_mod_eq [of "unat (src + of_nat i)" 4096] div_mult_mod_eq [of "unat src" 4096] unfolding u by linarith
qed

lemma read_frame:
  assumes f: "uframe (mem s) pt (PGROUNDDOWN src) = Some f" and n: "n \<le> 4096 - unat src mod 4096"
  shows "mem_read (mem s) (f + (src - PGROUNDDOWN src)) n = ubytes (uview s pt sz) src n"
    and "i < n \<Longrightarrow> uview s pt sz (src + of_nat i) \<noteq> None"
proof -
  have "uframe (mem s) pt src = Some f" using f uframe_page [OF PGROUNDDOWN_page] by simp
  then have "src < MAXVA" by (auto simp: uframe_def split: if_splits)
  then have v: "uview s pt sz (src + of_nat i) = Some (mem s (f + of_nat (unat src mod 4096 + i)))" if "i < n" for i
    using page_offset_in [of i src] that n \<open>uframe (mem s) pt src = Some f\<close> uframe_page [of "src + of_nat i" src "mem s" pt]
    by (simp add: uview_frame)
  then show "i < n \<Longrightarrow> uview s pt sz (src + of_nat i) \<noteq> None" by simp
  show "mem_read (mem s) (f + (src - PGROUNDDOWN src)) n = ubytes (uview s pt sz) src n"
    by (rule nth_equalityI) (simp_all add: ubytes_def v offset_in_page(2) add.assoc)
qed

lemma copyin_continue:
  assumes IH: "\<And>acc src len s ps. space_ok s p pt ps \<Longrightarrow> len < fuel \<Longrightarrow> copyin_ok p pt acc src len s (copyin_loop fuel pt acc src len s)"
    and ok: "space_ok s p pt ps" and f: "uframe (mem s) pt (PGROUNDDOWN src) = Some f" and len: "0 < len" "len < Suc fuel"
  shows "copyin_ok p pt acc src len s (let n = min (PGSIZE - unat (src - PGROUNDDOWN src)) len in
          copyin_loop fuel pt (acc @ mem_read (mem s) (f + (src - PGROUNDDOWN src)) n) (PGROUNDDOWN src + 4096) (len - n) s)"
proof -
  let ?v = "uview s pt (p_sz (procs s p))"
  define n where "n = min (4096 - unat src mod 4096) len"
  have n: "0 < n" "n \<le> len" using len mod_less_divisor [of 4096 "unat src"] by (auto simp: n_def)
  have nn: "n \<le> 4096 - unat src mod 4096" by (simp add: n_def)
  note R = read_frame [OF f nn, where sz = "p_sz (procs s p)"]
  have d: "src < MAXVA" using f uframe_page [OF PGROUNDDOWN_page] by (auto simp: uframe_def split: if_splits)
  have "len - n < fuel" using n len by simp
  from IH [OF ok this, of "acc @ ubytes ?v src n" "PGROUNDDOWN src + 4096"]
  obtain r t qs k where k: "copyin_loop fuel pt (acc @ ubytes ?v src n) (PGROUNDDOWN src + 4096) (len - n) s
        = Ok (r, (acc @ ubytes ?v src n) @ ubytes ?v (PGROUNDDOWN src + 4096) k) t"
    and t: "t = s\<lparr>mem := mem t, freelist := freelist t\<rparr>" "space_ok t p pt qs" "keeps_frames pt s t" "uview t pt (p_sz (procs s p)) = ?v"
    and v: "\<forall>i < k. ?v (PGROUNDDOWN src + 4096 + of_nat i) \<noteq> None"
    and r: "r = 0 \<and> k = len - n \<or> r = - 1 \<and> k < len - n \<and> (\<exists>i < len - n. uframe (mem s) pt (PGROUNDDOWN src + 4096 + of_nat i) = None)"
    unfolding copyin_ok_def by blast
  have nx: "PGROUNDDOWN src + 4096 = src + of_nat n" if "n < len"
  proof -
    have "n = 4096 - unat src mod 4096" using that by (auto simp: n_def)
    then show ?thesis
      using next_page [OF d] unat_add_no_wrap [of src n] d by (simp add: word_unat_eq_iff word_less_nat_alt)
  qed
  have b: "ubytes ?v src n @ ubytes ?v (PGROUNDDOWN src + 4096) k = ubytes ?v src (n + k)"
  proof (cases "n < len")
    case True
    then show ?thesis by (simp add: ubytes_add nx)
  next
    case False
    then have "k = 0" using r n by auto
    then show ?thesis by (simp add: ubytes_def)
  qed
  have "?v (src + of_nat i) \<noteq> None" if "i < n + k" for i
  proof (cases "i < n")
    case False
    then have "n < len" "src + of_nat i = src + of_nat n + of_nat (i - n)" using that r by (auto simp: of_nat_diff)
    then show ?thesis using v [rule_format, of "i - n"] that False nx by simp
  qed (use R(2) in auto)
  moreover have "\<exists>i < len. uframe (mem s) pt (src + of_nat i) = None" if r0: "r \<noteq> 0"
  proof -
    obtain i where i: "i < len - n" "uframe (mem s) pt (PGROUNDDOWN src + 4096 + of_nat i) = None" using r r0 by auto
    then have "uframe (mem s) pt (src + of_nat (n + i)) = None" "n + i < len" using nx by (simp_all add: add.assoc)
    then show ?thesis by blast
  qed
  then have "r = 0 \<and> n + k = len \<or> r = - 1 \<and> n + k < len \<and> (\<exists>i < len. uframe (mem s) pt (src + of_nat i) = None)"
    using r n by auto
  ultimately have "copyin_ok p pt acc src len s (Ok (r, acc @ ubytes ?v src (n + k)) t)"
    unfolding copyin_ok_def using t by blast
  then show ?thesis using k R(1) b
    by (simp add: offset_in_page(1) n_def [symmetric] Let_def)
qed


lemma copyin_ok_fault:
  assumes F: "faulted p pt va0 s ps r t qs" and c: "copyin_ok p pt acc src len t m"
    and None: "uframe (mem s) pt src = None" and len: "0 < len"
  shows "copyin_ok p pt acc src len s m"
proof -
  have t: "t = s\<lparr>mem := mem t, freelist := freelist t\<rparr>" "uview t pt (p_sz (procs s p)) = uview s pt (p_sz (procs s p))"
    "keeps_frames pt s t" using F by (simp_all add: faulted_def)
  have pr: "procs t = procs s" by (rule mem_only_proc [OF t(1)])
  have "\<exists>i < len. uframe (mem s) pt (src + of_nat i) = None" using None len by (intro exI [of _ 0]) simp
  then show ?thesis using c unfolding copyin_ok_def pr t(2) by (blast intro: mem_only_trans [OF t(1)] keeps_trans [OF t(3)])
qed

lemma copyin_loop_ok:
  "space_ok s p pt ps \<Longrightarrow> len < fuel \<Longrightarrow> copyin_ok p pt acc src len s (copyin_loop fuel pt acc src len s)"
proof (induction fuel arbitrary: acc src len s ps)
  case (Suc fuel)
  let ?va0 = "PGROUNDDOWN src"
  note ok = Suc.prems(1)
  let ?body = "\<lambda>f s. let n = min (PGSIZE - unat (src - ?va0)) len in
          copyin_loop fuel pt (acc @ mem_read (mem s) (f + (src - ?va0)) n) (?va0 + 4096) (len - n) s"
  have cont: "copyin_ok p pt acc src len s (?body f s)"
    if "space_ok s p pt ps" "uframe (mem s) pt ?va0 = Some f" "0 < len" for s ps f
    by (rule copyin_continue [OF _ that Suc.prems(2)]) (rule Suc.IH)
  have stop: "copyin_ok p pt acc src len t (Ok (- 1, acc) t)"
    if "space_ok t p pt qs" "uframe (mem t) pt src = None" "0 < len" for t qs
    unfolding copyin_ok_def using that by (intro exI [of _ "- 1"] exI [of _ t] exI [of _ qs] exI [of _ 0]) (auto simp: ubytes_def intro!: exI [of _ 0])
  show ?case
  proof (cases "len = 0")
    case True
    then show ?thesis using ok by (auto simp: copyin_ok_def ubytes_def)
  next
    case False
    then have len: "0 < len" by simp
    show ?thesis
    proof (cases "uframe (mem s) pt ?va0")
      case (Some f)
      then have "copyin_loop (Suc fuel) pt acc src len s = ?body f s"
        using len uframe_nonzero [OF ok Some] by (simp add: walkaddr_uframe [OF space_table [OF ok]] Let_def)
      then show ?thesis using cont [OF ok Some len] by (simp only:)
    next
      case None
      then have n: "uframe (mem s) pt src = None" using uframe_page [OF PGROUNDDOWN_page] by simp
      obtain r t qs where F: "vmfault pt ?va0 s = Ok r t" "faulted p pt ?va0 s ps r t qs"
        using vmfault_faulted [OF ok] by blast
      have eq: "copyin_loop (Suc fuel) pt acc src len s = (if r = 0 then Ok (- 1, acc) t else ?body r t)"
        using len None F(1) by (simp add: walkaddr_uframe [OF space_table [OF ok]] Let_def)
      have t: "space_ok t p pt qs" using F(2) by (simp add: faulted_def)
      show ?thesis
      proof (cases "r = 0")
        case True
        then have "uframe (mem t) pt src = None" using F(2) n by (auto simp: faulted_def uframe_def)
        from copyin_ok_fault [OF F(2) stop [OF t this len] n len] show ?thesis using eq True by simp
      next
        case False
        then have "uframe (mem t) pt ?va0 = Some r" using F(2) by (simp add: faulted_def)
        from copyin_ok_fault [OF F(2) cont [OF t this len] n len] show ?thesis using eq False by (simp only: if_False)
      qed
    qed
  qed
qed simp


section \<open>Properties\<close>

text \<open>A process with an empty address space of 32 KiB, everything in it still to be allocated.\<close>

definition um0 :: kstate where
  "um0 = vm0\<lparr>cur := Some 0, procs := (procs vm0)(0 := (procs vm0 0)\<lparr>p_pagetable := 0x1000, p_sz := 0x8000\<rparr>)\<rparr>"

lemma um0_ok: "space_ok um0 0 0x1000 [0x3000, 0x2000]"
proof -
  have "uframe (mem um0) 0x1000 va = None" for va by (simp add: um0_def uframe_def vm0_tr)
  then have "frames_ok um0 0x1000 [0x3000, 0x2000]" by (simp add: frames_ok_def)
  moreover have "table_ok 2 um0 0x1000 [0x3000, 0x2000]"
    using vm0_ok unfolding table_ok_def kmem_rep_def by (simp add: um0_def)
  ultimately show ?thesis by (simp add: space_ok_def um0_def)
qed

text \<open>C5: Lazy allocation is invisible to the program. \<open>vmfault\<close> at any address returns; the
  program's view of its memory is the same before and after. Where it returns a frame, the page of
  the address, which lies below the process's size, is now mapped to it, writable by the user. Where
  it returns 0, no translation changed, and an unmapped page below the size of the process failed
  only because fewer than three pages were free. The address space invariant (a tree of distinct
  table pages, frames distinct from them, from each other and from the free pages) is kept.\<close>

theorem vmfault_transparent:
  assumes "space_ok s p pt ps"
  shows "\<exists>r t qs. vmfault pt va s = Ok r t \<and> faulted p pt va s ps r t qs"
  using assms by (rule vmfault_faulted)

theorem vmfault_transparent_witness:
  "\<exists>r t qs. vmfault 0x1000 0x4123 um0 = Ok r t \<and> faulted 0 0x1000 0x4123 um0 [0x3000, 0x2000] r t qs"
  by (rule vmfault_transparent [OF um0_ok])

text \<open>C6: \<open>copyout\<close> terminates without a panic and updates the program's view at the destination and
  nowhere else. It returns 0 with the whole source copied, or -1 with a proper prefix copied; it
  never fails when every byte of the destination is mapped writable for the user.\<close>

theorem copyout_updates_view:
  assumes "space_ok s p pt ps"
  shows "copyout_ok p pt dst src s (copyout pt dst src s)"
  unfolding copyout_def by (rule copyout_loop_copied [OF assms]) simp

theorem copyout_updates_view_witness:
  "copyout_ok 0 0x1000 0x4ffe [1, 2, 3, 4] um0 (copyout 0x1000 0x4ffe [1, 2, 3, 4] um0)"
  by (rule copyout_updates_view [OF um0_ok])

text \<open>C17: \<open>copyin\<close> terminates without a panic and returns the bytes of the program's view, which it
  leaves as it is: all of them with 0, or a proper prefix with -1; it never fails when the whole
  source is mapped for the user.\<close>

theorem copyin_reads_view:
  assumes "space_ok s p pt ps"
  shows "copyin_ok p pt [] src len s (copyin pt src len s)"
  unfolding copyin_def by (rule copyin_loop_ok [OF assms]) simp

theorem copyin_reads_view_witness:
  "copyin_ok 0 0x1000 [] 0x4ffe 4 um0 (copyin 0x1000 0x4ffe 4 um0)"
  by (rule copyin_reads_view [OF um0_ok])

text \<open>C19: What \<open>copyout\<close> wrote, \<open>copyin\<close> from the same address reads back.\<close>

theorem copyout_copyin:
  assumes "space_ok s p pt ps" and "unat dst + length src \<le> 2 ^ 64"
    and "copyout pt dst src s = Ok 0 t" and "copyin pt dst (length src) t = Ok (0, bs) u"
  shows "bs = src"
proof -
  have "copyout_ok p pt dst src s (copyout pt dst src s)"
    unfolding copyout_def by (rule copyout_loop_copied [OF assms(1)]) simp
  then obtain qs where c: "copied p pt dst src (length src) s t qs" using assms(3) by (auto simp: copyout_ok_def)
  then have t: "space_ok t p pt qs" "uview t pt (p_sz (procs s p)) = upd (uview s pt (p_sz (procs s p))) dst src"
    "procs t = procs s" using mem_only_proc(2) by (auto simp: copied_def)
  have "copyin_ok p pt [] dst (length src) t (copyin pt dst (length src) t)"
    unfolding copyin_def by (rule copyin_loop_ok [OF t(1)]) simp
  then have bs: "bs = ubytes (uview t pt (p_sz (procs s p))) dst (length src)"
    using assms(4) t(3) by (auto simp: copyin_ok_def)
  show ?thesis
  proof (rule nth_equalityI)
    fix i assume "i < length bs"
    then have i: "i < length src" by (simp add: bs ubytes_def)
    then have "unat (dst + of_nat i) = unat dst + i" using assms(2) by (intro unat_add_no_wrap) simp
    then show "bs ! i = src ! i" using i by (simp add: bs ubytes_def t(2) upd_def)
  qed (simp add: bs ubytes_def)
qed

text \<open>The state \<open>um0\<close> after one page has been mapped at 0x4000.\<close>

lemma um1_exists:
  "\<exists>s qs. space_ok s 0 0x1000 qs \<and> (\<forall>va. unat va div 4096 = 4 \<longrightarrow> writable (mem s) 0x1000 va)"
proof -
  let ?perm = "PTE_W OR PTE_U OR PTE_R :: u64"
  have tr0: "tr 2 (mem um0) 0x1000 va = None" for va by (simp add: um0_def vm0_tr)
  have T: "table_ok 2 um0 0x1000 [0x3000, 0x2000]" by (rule space_table [OF um0_ok])
  obtain s qs where M: "maps 0x1000 0x4000 1 0x5000 ?perm um0 [0x3000, 0x2000] s qs"
    by (rule mappages_page [OF T, of "0x4000" "0x5000" ?perm]) (auto simp: tr0)
  have z: "mem um0 (0x5000 + of_nat i) = 0" if "i < 4096" for i
  proof -
    have "mem um0 (0x5000 + of_nat i) = (\<lambda>_. 0) (0x5000 + of_nat i :: addr)"
      using store_same_page [of "0x3000" "0x5000" 0 "\<lambda>_. 0" "0x2000"] that
      by (simp add: same_page_def um0_def vm0_def zero_state_def)
    then show ?thesis by simp
  qed
  have root: "pset 2 (mem um0) 0x1000 = {0x1000}"
    using zero_table [of "mem um0" "0x1000" 2] by (simp add: um0_def vm0_zero)
  have U: "\<forall>va. uframe (mem um0) 0x1000 va \<noteq> Some 0x5000" by (simp add: uframe_def tr0)
  have pm: "page_ok (kend um0) 0x5000" "(0x5000 :: addr) \<noteq> 0" "0x5000 \<notin> pset 2 (mem um0) 0x1000" "0x5000 \<notin> set [0x3000, 0x2000 :: addr]"
    unfolding root by (simp_all add: um0_def vm0_def zero_state_def page_ok_def)
  have am: "(0x4000 :: u64) mod 4096 = 0" "(0x4000 :: u64) < MAXVA" "0x4000 < p_sz (procs um0 0)"
    "?perm AND PTE_U \<noteq> 0" "?perm OR PTE_V < 1024" by (simp_all add: um0_def)
  note Z = map_zero_page [OF um0_ok M am(1-3) tr0 am(4,5) pm U z]
  have "tr 2 (mem s) 0x1000 va = Some (PA2PTE 0x5000 OR ?perm OR PTE_V)" if "unat va div 4096 = 4" for va
    using mapsD(5) [OF M] that MAXVA_page [of va] by (simp add: mapped_def)
  moreover have "(PA2PTE 0x5000 OR ?perm OR PTE_V) AND PTE_W \<noteq> 0" by (simp add: word_ao_dist or_eq_0_iff)
  moreover have "uframe (mem s) 0x1000 va = Some 0x5000" if "unat va div 4096 = 4" for va
    using Z(3) [where va = va] that by simp
  moreover have "space_ok s 0 0x1000 qs" by (rule Z(1))
  ultimately show ?thesis by (auto simp: writable_def)
qed

theorem copyout_copyin_witness:
  "\<exists>s t u bs. copyout 0x1000 0x4000 [1, 2, 3] s = Ok 0 t \<and> copyin 0x1000 0x4000 3 t = Ok (0, bs) u \<and> bs = [1, 2, 3]"
proof -
  obtain s qs where ok: "space_ok s 0 0x1000 qs" and W: "\<And>va. unat va div 4096 = 4 \<Longrightarrow> writable (mem s) 0x1000 va"
    using um1_exists by blast
  have a: "unat (0x4000 + of_nat i :: u64) div 4096 = 4" if "i < 3" for i
    using that unat_add_no_wrap [of "0x4000 :: u64" i] by simp
  have "copyout_ok 0 0x1000 0x4000 [1, 2, 3] s (copyout 0x1000 0x4000 [1, 2, 3] s)"
    unfolding copyout_def by (rule copyout_loop_copied [OF ok]) simp
  then obtain t ts where t: "copyout 0x1000 0x4000 [1, 2, 3] s = Ok 0 t" "space_ok t 0 0x1000 ts" "keeps_frames 0x1000 s t"
    using W [OF a] by (auto simp: copyout_ok_def copied_def)
  have "uframe (mem t) 0x1000 (0x4000 + of_nat i) \<noteq> None" if "i < 3" for i
    using W [OF a [OF that]] keeps_framesD [OF t(3)] by (auto simp: writable_def)
  moreover have "copyin_ok 0 0x1000 [] 0x4000 3 t (copyin 0x1000 0x4000 3 t)"
    unfolding copyin_def by (rule copyin_loop_ok [OF t(2)]) simp
  ultimately obtain u bs where u: "copyin 0x1000 0x4000 3 t = Ok (0, bs) u"
    unfolding copyin_ok_def by blast
  have "bs = [1, 2, 3]" by (rule copyout_copyin [OF ok _ t(1), of bs u]) (use u in \<open>simp_all add: numeral_3_eq_3\<close>)
  then show ?thesis using t u by blast
qed

text \<open>C30: A size beyond \<open>MAXVA\<close> lets a fault panic the kernel: for an address at or above \<open>MAXVA\<close>
  but below the size of the process \<open>vmfault\<close> reaches the panic of \<open>walk\<close>.\<close>

theorem vmfault_beyond_MAXVA:
  assumes "cur s = Some p" and "MAXVA \<le> va" and "va < p_sz (procs s p)"
  shows "vmfault pt va s = Panic ''walk''"
proof -
  have "MAXVA \<le> PGROUNDDOWN va"
    using assms(2) MAXVA_page [of va] MAXVA_page [of "PGROUNDDOWN va"] unfolding PGROUNDDOWN_page
    by (simp only: not_less [symmetric] simp_thms)
  then show ?thesis using assms by (simp add: vmfault_def ismapped_def walk_def not_le)
qed

theorem vmfault_beyond_MAXVA_witness:
  "vmfault 0x1000 MAXVA (um0\<lparr>procs := (procs um0)(0 := (procs um0 0)\<lparr>p_sz := MAXVA + 1\<rparr>)\<rparr>) = Panic ''walk''"
  by (rule vmfault_beyond_MAXVA [of _ 0]) (simp_all add: um0_def)

end
