(* ===== verification/Fifo.thy ===== *)
theory Fifo
  imports Prelude
begin

text \<open>
  The contract of a ring buffer, which pipes and the descriptor rings of the kernel provide:
  \<open>q\<close> is the queue the buffer holds, of at most \<open>cap\<close> elements.
\<close>

section \<open>Bounded queues\<close>

datatype 'a qop = Enq 'a | Deq

text \<open>A producer and a consumer on one queue, in any order: an element offered to a full queue is
  refused, a request to an empty one yields nothing. The elements accepted, the elements delivered,
  and the final queue.\<close>

fun fifo_run :: "('s \<Rightarrow> bool) \<Rightarrow> ('s \<Rightarrow> bool) \<Rightarrow> ('s \<Rightarrow> 'a) \<Rightarrow> ('a \<Rightarrow> 's \<Rightarrow> 's) \<Rightarrow> ('s \<Rightarrow> 's) \<Rightarrow>
    'a qop list \<Rightarrow> 's \<Rightarrow> 'a list \<times> 'a list \<times> 's" where
  "fifo_run e f h psh pp [] s = ([], [], s)"
| "fifo_run e f h psh pp (Enq a # ops) s =
     (if f s then fifo_run e f h psh pp ops s
      else let (acc, del, t) = fifo_run e f h psh pp ops (psh a s) in (a # acc, del, t))"
| "fifo_run e f h psh pp (Deq # ops) s =
     (if e s then fifo_run e f h psh pp ops s
      else let (acc, del, t) = fifo_run e f h psh pp ops (pp s) in (acc, h s # del, t))"

locale bounded_fifo =
  fixes inv :: "'s \<Rightarrow> bool"
    and q :: "'s \<Rightarrow> 'a list"
    and cap :: nat
    and is_empty :: "'s \<Rightarrow> bool"
    and is_full :: "'s \<Rightarrow> bool"
    and front :: "'s \<Rightarrow> 'a"
    and push :: "'a \<Rightarrow> 's \<Rightarrow> 's"
    and pop :: "'s \<Rightarrow> 's"
  assumes q_bound: "inv s \<Longrightarrow> length (q s) \<le> cap"
    and empty_iff: "inv s \<Longrightarrow> is_empty s \<longleftrightarrow> q s = []"
    and full_iff: "inv s \<Longrightarrow> is_full s \<longleftrightarrow> length (q s) = cap"
    and push_ok: "inv s \<Longrightarrow> \<not> is_full s \<Longrightarrow> inv (push a s) \<and> q (push a s) = q s @ [a]"
    and pop_ok: "inv s \<Longrightarrow> q s = a # as \<Longrightarrow> front s = a \<and> inv (pop s) \<and> q (pop s) = as"
begin

text \<open>Nothing is lost, invented or reordered: what was in the queue and what was accepted is what was
  delivered and what is left.\<close>

lemma fifo_run_spec:
  "inv s \<Longrightarrow> fifo_run is_empty is_full front push pop ops s = (acc, del, t) \<Longrightarrow>
   inv t \<and> q s @ acc = del @ q t \<and> length (q t) \<le> cap"
proof (induction ops arbitrary: s acc del rule: list.induct)
  case Nil
  then show ?case using q_bound by auto
next
  case (Cons op ops)
  show ?case
  proof (cases op)
    case (Enq a)
    show ?thesis
    proof (cases "is_full s")
      case True
      then show ?thesis using Cons Enq by simp
    next
      case False
      obtain acc' del' where r: "fifo_run is_empty is_full front push pop ops (push a s) = (acc', del', t)"
        and "acc = a # acc'" "del = del'"
        using Cons.prems(2) Enq False by (auto split: prod.splits)
      then show ?thesis using Cons.IH [OF _ r] push_ok [OF Cons.prems(1) False, of a] by auto
    qed
  next
    case Deq
    note IH = Cons.IH and inv = Cons.prems(1) and run = Cons.prems(2)
    show ?thesis
    proof (cases "q s")
      case Nil
      then show ?thesis using IH [OF inv] run Deq empty_iff [OF inv] by simp
    next
      case (Cons b bs)
      obtain acc' del' where r: "fifo_run is_empty is_full front push pop ops (pop s) = (acc', del', t)"
        and "acc = acc'" "del = front s # del'"
        using run Deq empty_iff [OF inv] Cons by (auto split: prod.splits)
      then show ?thesis using IH [OF _ r] pop_ok [OF inv Cons] Cons by auto
    qed
  qed
qed

text \<open>Filling and draining: up to the free space, a sequence comes out as it went in.\<close>

lemma push_many:
  "inv s \<Longrightarrow> length (q s) + length xs \<le> cap \<Longrightarrow> inv (fold push xs s) \<and> q (fold push xs s) = q s @ xs"
proof (induction xs arbitrary: s)
  case (Cons x xs)
  then have "\<not> is_full s" using full_iff by simp
  then show ?case using Cons.IH [of "push x s"] Cons.prems push_ok by simp
qed simp

end

end
