(* ===== verification/PipeQueue.thy ===== *)
theory PipeQueue
  imports File UserMem Fifo
begin

text \<open>
  A pipe is a queue of bytes. \<open>pipe_q\<close> is the queue a pipe structure holds: the counters are
  unsigned 32-bit numbers that wrap around, the bytes between them lie in a ring of 512. The
  theorems give every outcome of \<open>pipewrite\<close> and \<open>piperead\<close> in terms of this queue and of the
  view the calling program has of its memory.
\<close>

section \<open>The ring of a pipe\<close>

definition pipe_q :: "pipe \<Rightarrow> byte list" where
  "pipe_q x = map (\<lambda>k. pi_data x (unat ((pi_nread x + of_nat k) mod 512))) [0..<unat (pi_nwrite x - pi_nread x)]"

definition pipe_ok :: "pipe \<Rightarrow> bool" where
  "pipe_ok x \<longleftrightarrow> unat (pi_nwrite x - pi_nread x) \<le> 512"

definition pipe_push :: "byte \<Rightarrow> pipe \<Rightarrow> pipe" where
  "pipe_push b x = x\<lparr>pi_data := (pi_data x)(unat (pi_nwrite x mod 512) := b), pi_nwrite := pi_nwrite x + 1\<rparr>"

definition pipe_pop :: "pipe \<Rightarrow> pipe" where
  "pipe_pop x = x\<lparr>pi_nread := pi_nread x + 1\<rparr>"

definition pipe_front :: "pipe \<Rightarrow> byte" where
  "pipe_front x = pi_data x (unat (pi_nread x mod 512))"

lemma length_pipe_q [simp]: "length (pipe_q x) = unat (pi_nwrite x - pi_nread x)"
  by (simp add: pipe_q_def)

lemma slot_unat: "unat ((a + of_nat k) mod 512) = (unat a + k) mod 512" for a :: u32
proof -
  have "unat (a + of_nat k) = (unat a + k) mod 2 ^ 32"
    by (simp add: unat_word_ariths unat_of_nat take_bit_eq_mod mod_add_right_eq)
  then have "unat ((a + of_nat k) mod 512) = (unat a + k) mod 2 ^ 32 mod 512" by (simp add: unat_mod)
  also have "\<dots> = (unat a + k) mod 512" by (rule mod_mod_cancel) simp
  finally show ?thesis .
qed

lemma slot_inj:
  assumes "i < j" and "j < i + 512"
  shows "(a + i) mod 512 \<noteq> (a + j) mod (512 :: nat)"
proof
  assume "(a + i) mod 512 = (a + j) mod 512"
  then have "512 dvd a + j - (a + i)" using assms(1) by (subst mod_eq_dvd_iff_nat [symmetric]) auto
  then show False using assms by (auto dest: dvd_imp_le)
qed

lemma pipe_count: "pi_nwrite x = pi_nread x + of_nat (length (pipe_q x))"
  by simp

lemma pipe_q_nth: "k < length (pipe_q x) \<Longrightarrow> pipe_q x ! k = pi_data x ((unat (pi_nread x) + k) mod 512)"
  by (simp add: pipe_q_def slot_unat)

interpretation pipe_fifo: bounded_fifo pipe_ok pipe_q 512 "\<lambda>x. pi_nread x = pi_nwrite x"
  "\<lambda>x. pi_nwrite x = pi_nread x + 512" pipe_front pipe_push pipe_pop
proof
  fix x :: pipe assume ok: "pipe_ok x"
  show "length (pipe_q x) \<le> 512" using ok by (simp add: pipe_ok_def)
  show "pi_nread x = pi_nwrite x \<longleftrightarrow> pipe_q x = []"
    using pipe_count [of x] length_pipe_q [of x] by (auto simp flip: length_0_conv simp: unat_eq_0)
  have "pi_nwrite x = pi_nread x + 512" if "length (pipe_q x) = 512"
    using that by (metis of_nat_numeral pipe_count)
  then show "pi_nwrite x = pi_nread x + 512 \<longleftrightarrow> length (pipe_q x) = 512" by auto
next
  fix x :: pipe and a assume ok: "pipe_ok x" and nf: "pi_nwrite x \<noteq> pi_nread x + 512"
  define n where "n = length (pipe_q x)"
  have w: "pi_nwrite x = pi_nread x + of_nat n" using pipe_count [of x] by (simp only: n_def)
  have "n \<le> 512" using ok by (simp add: pipe_ok_def n_def)
  moreover have "n \<noteq> 512" using nf w by auto
  ultimately have n: "n < 512" by simp
  have "pi_nwrite (pipe_push a x) - pi_nread (pipe_push a x) = of_nat (Suc n)" by (simp add: pipe_push_def w)
  then have len: "length (pipe_q (pipe_push a x)) = Suc n" using n by (simp del: of_nat_Suc)
  have "pipe_q (pipe_push a x) = pipe_q x @ [a]"
  proof (rule nth_equalityI)
    fix k assume "k < length (pipe_q (pipe_push a x))"
    then have k: "k < Suc n" using len by simp
    have "pipe_q (pipe_push a x) ! k = pi_data (pipe_push a x) ((unat (pi_nread (pipe_push a x)) + k) mod 512)"
      by (rule pipe_q_nth) (use k len in simp)
    also have "\<dots> = (if k = n then a else pi_data x ((unat (pi_nread x) + k) mod 512))"
      using k n slot_inj [of k n "unat (pi_nread x)"] slot_unat [of "pi_nread x" n] by (auto simp: pipe_push_def w)
    also have "\<dots> = (pipe_q x @ [a]) ! k"
      using k pipe_q_nth [of k x] by (auto simp: nth_append n_def [symmetric] less_Suc_eq simp del: length_pipe_q)
    finally show "pipe_q (pipe_push a x) ! k = (pipe_q x @ [a]) ! k" .
  qed (simp add: len n_def [symmetric] del: length_pipe_q)
  moreover have "pipe_ok (pipe_push a x)" unfolding pipe_ok_def length_pipe_q [symmetric] len using n by simp
  ultimately show "pipe_ok (pipe_push a x) \<and> pipe_q (pipe_push a x) = pipe_q x @ [a]" by blast
next
  fix x :: pipe and b bs assume ok: "pipe_ok x" and q: "pipe_q x = b # bs"
  define n where "n = length bs"
  have len: "length (pipe_q x) = Suc n" unfolding q n_def by simp
  have "length (pipe_q x) \<le> 512" using ok by (simp add: pipe_ok_def)
  then have n: "n < 512" unfolding len by simp
  have w: "pi_nwrite x = pi_nread x + of_nat (Suc n)" using pipe_count [of x] unfolding len .
  have "pi_nwrite (pipe_pop x) - pi_nread (pipe_pop x) = of_nat n" by (simp add: pipe_pop_def w)
  then have len: "length (pipe_q (pipe_pop x)) = n" using n by simp
  have "pipe_q (pipe_pop x) = bs"
  proof (rule nth_equalityI)
    fix k assume k: "k < length (pipe_q (pipe_pop x))"
    have "bs ! k = pipe_q x ! Suc k" by (simp add: q)
    also have "\<dots> = pi_data x ((unat (pi_nread x) + Suc k) mod 512)" by (rule pipe_q_nth) (use k len q n_def in simp)
    also have "\<dots> = pipe_q (pipe_pop x) ! k"
      using slot_unat [of "pi_nread x" "Suc k"] k by (simp add: pipe_q_def pipe_pop_def add.assoc)
    finally show "pipe_q (pipe_pop x) ! k = bs ! k" by simp
  qed (simp add: len n_def del: length_pipe_q)
  moreover have "pipe_front x = b"
    using pipe_q_nth [of 0 x] q slot_unat [of "pi_nread x" 0] by (simp add: pipe_front_def)
  moreover have "pipe_ok (pipe_pop x)" unfolding pipe_ok_def length_pipe_q [symmetric] len using n by simp
  ultimately show "pipe_front x = b \<and> pipe_ok (pipe_pop x) \<and> pipe_q (pipe_pop x) = bs" by blast
qed


section \<open>The state around a pipe\<close>

lemma killed_Ok: "L_proc p \<notin> set (held s) \<Longrightarrow> killed p s = Ok (p_killed (procs s p)) s"
  by (simp add: killed_def Let_def)

lemma space_ok_cong:
  assumes "space_ok s p pt ps" and "mem t = mem s" and "freelist t = freelist s" and "kend t = kend s"
    and "L_kmem \<notin> set (held t)" and "cur t = cur s"
    and "p_pagetable (procs t p) = p_pagetable (procs s p)" and "p_sz (procs t p) = p_sz (procs s p)"
  shows "space_ok t p pt ps"
  using assms unfolding space_ok_def table_ok_def kmem_rep_def frames_ok_def by simp

lemma uview_cong: "mem t = mem s \<Longrightarrow> uview t pt sz = uview s pt sz"
  by (rule ext) (simp only: uview_def)

lemma uview_upd [simp]:
  "uview (s\<lparr>procs := ps\<rparr>) pt sz = uview s pt sz" "uview (s\<lparr>held := h\<rparr>) pt sz = uview s pt sz"
  "uview (s\<lparr>pipes := pp\<rparr>) pt sz = uview s pt sz"
  by (rule uview_cong, simp)+

text \<open>One byte of user memory.\<close>

lemma copyin_byte:
  assumes ok: "space_ok s p pt ps"
  defines "v \<equiv> uview s pt (p_sz (procs s p))"
  obtains t qs b where "copyin pt a 1 s = Ok (0, [b]) t" "v a = Some b"
      "t = s\<lparr>mem := mem t, freelist := freelist t\<rparr>" "space_ok t p pt qs" "keeps_frames pt s t" "uview t pt (p_sz (procs s p)) = v"
  | t qs where "copyin pt a 1 s = Ok (- 1, []) t" "uframe (mem s) pt a = None"
      "t = s\<lparr>mem := mem t, freelist := freelist t\<rparr>" "space_ok t p pt qs" "keeps_frames pt s t" "uview t pt (p_sz (procs s p)) = v"
proof -
  have "copyin_ok p pt [] a 1 s (copyin pt a 1 s)" unfolding copyin_def by (rule copyin_loop_ok [OF ok]) simp
  then obtain r t qs k where c: "copyin pt a 1 s = Ok (r, ubytes v a k) t"
    "t = s\<lparr>mem := mem t, freelist := freelist t\<rparr>" "space_ok t p pt qs" "keeps_frames pt s t" "uview t pt (p_sz (procs s p)) = v"
    "\<forall>i < k. v (a + of_nat i) \<noteq> None"
    "r = 0 \<and> k = 1 \<or> r = - 1 \<and> k < 1 \<and> (\<exists>i < 1. uframe (mem s) pt (a + of_nat i) = None)"
    unfolding copyin_ok_def v_def by auto
  show thesis
  proof (cases "r = 0")
    case True
    then obtain b where "v a = Some b" "k = 1" using c(6,7) by auto
    then show thesis using that(1) [of b t qs] c True by (simp add: ubytes_def)
  next
    case False
    then show thesis using that(2) [of t qs] c by (simp add: ubytes_def)
  qed
qed

text \<open>What the two processes at the ends of a pipe see of the rest of the state.\<close>

definition pframe :: "nat \<Rightarrow> kstate \<Rightarrow> kstate \<Rightarrow> bool" where
  "pframe p s t \<longleftrightarrow> cur t = cur s \<and> kend t = kend s \<and> p_pagetable (procs t p) = p_pagetable (procs s p)
     \<and> p_sz (procs t p) = p_sz (procs s p) \<and> p_killed (procs t p) = p_killed (procs s p)"

section \<open>Writing\<close>

definition write_outcome :: "nat \<Rightarrow> addr \<Rightarrow> addr \<Rightarrow> u64 \<Rightarrow> nat \<Rightarrow> nat \<Rightarrow> kstate \<Rightarrow> int kres \<Rightarrow> bool" where
  "write_outcome p pt pi addr n i s m \<longleftrightarrow>
     (let v = uview s pt (p_sz (procs s p)); q = pipe_q (pipes s pi);
          write_ok = (pi_readopen (pipes s pi) \<and> \<not> p_killed (procs s p)) in
      case m of
        Ok r t \<Rightarrow>
          held t = [] \<and> uview t pt (p_sz (procs s p)) = v \<and> pipe_ok (pipes t pi)
          \<and> (r = - 1 \<and> i < n \<and> pipes t = pipes s \<and> \<not> write_ok
             \<or> (i < n \<longrightarrow> write_ok) \<and> (\<exists>j. i \<le> j \<and> j \<le> n \<and> r = int j \<and> pipe_q (pipes t pi) = q @ ubytes v (addr + of_nat i) (j - i)
                  \<and> (\<forall>x. x \<noteq> p \<and> x < NPROC \<longrightarrow> \<not> (p_state (procs t x) = SLEEPING \<and> p_chan (procs t x) = Some (Ch_nread pi)))
                  \<and> (j < n \<longrightarrow> uframe (mem s) pt (addr + of_nat j) = None)))
      | Block t \<Rightarrow>
          write_ok \<and> uview t pt (p_sz (procs s p)) = v \<and> pipe_ok (pipes t pi)
          \<and> p_state (procs t p) = SLEEPING \<and> p_chan (procs t p) = Some (Ch_nwrite pi) \<and> held t = [L_proc p]
          \<and> (\<forall>x. x \<noteq> p \<and> x < NPROC \<longrightarrow> \<not> (p_state (procs t x) = SLEEPING \<and> p_chan (procs t x) = Some (Ch_nread pi)))
          \<and> (\<exists>j. i \<le> j \<and> j < n \<and> pipe_q (pipes t pi) = q @ ubytes v (addr + of_nat i) (j - i)
               \<and> length (pipe_q (pipes t pi)) = 512)
      | Panic _ \<Rightarrow> False)"


lemma ubytes_Suc: "ubytes v a (Suc n) = the (v a) # ubytes v (a + 1) n"
proof -
  have "ubytes v a 1 = [the (v a)]" by (simp add: ubytes_def)
  then show ?thesis using ubytes_add [of v a 1 n] by simp
qed

lemma write_outcome_step:
  assumes W: "write_outcome p pt pi addr n (Suc i) t m"
    and b: "uview s pt (p_sz (procs s p)) (addr + of_nat i) = Some b"
    and t: "uview t pt (p_sz (procs s p)) = uview s pt (p_sz (procs s p))" "p_sz (procs t p) = p_sz (procs s p)"
      "pipe_q (pipes t pi) = pipe_q (pipes s pi) @ [b]" "keeps_frames pt s t"
      "pi_readopen (pipes t pi)" "\<not> p_killed (procs t p)"
    and s: "pi_readopen (pipes s pi)" "\<not> p_killed (procs s p)"
  shows "write_outcome p pt pi addr n i s m"
proof -
  let ?v = "uview s pt (p_sz (procs s p))"
  have one: "ubytes ?v (addr + of_nat i) (Suc j) = b # ubytes ?v (addr + of_nat (Suc i)) j" for j
    using ubytes_Suc [of ?v "addr + of_nat i" j] b by (simp add: algebra_simps)
  have len: "ubytes ?v (addr + of_nat i) (j - i) = b # ubytes ?v (addr + of_nat (Suc i)) (j - Suc i)" if "Suc i \<le> j" for j
    using one [of "j - Suc i"] that by (simp add: Suc_diff_Suc)
  have un: "uframe (mem s) pt a = None" if "uframe (mem t) pt a = None" for a
    using keeps_framesD [OF t(4)] that by (cases "uframe (mem s) pt a") auto
  show ?thesis
  proof (cases m)
    case (Ok r u)
    then show ?thesis using W t len un s unfolding write_outcome_def Let_def
      by (simp add: t) (metis Suc_leD append.assoc append_Cons append_Nil)
  next
    case (Block u)
    then show ?thesis using W t len s unfolding write_outcome_def Let_def
      by (simp add: t) (metis Suc_leD append.assoc append_Cons append_Nil)
  qed (use W in \<open>simp add: write_outcome_def\<close>)
qed

lemma woken_readers: "x < n \<Longrightarrow> Some x \<noteq> c \<Longrightarrow> \<not> (p_state (woken ch n c ps x) = SLEEPING \<and> p_chan (woken ch n c ps x) = Some ch)"
  by (auto simp: woken_def)


lemma pipewrite_loop_outcome:
  "space_ok s p pt ps \<Longrightarrow> held s = [L_pipe pi] \<Longrightarrow> pipe_ok (pipes s pi) \<Longrightarrow> i \<le> n \<Longrightarrow> n - i < k \<Longrightarrow>
   write_outcome p pt pi addr n i s (pipewrite_loop k pi addr (int n) (int i) p s)"
proof (induction k arbitrary: i s ps)
  case (Suc k)
  note ok = Suc.prems(1) and held = Suc.prems(2) and pok = Suc.prems(3)
  let ?v = "uview s pt (p_sz (procs s p))"
  have S: "cur s = Some p" "p_pagetable (procs s p) = pt" using ok by (simp_all add: space_ok_def)
  have fin: "write_outcome p pt pi addr n i s
      (bind (wakeup (Ch_nread pi) t) (\<lambda>_ s. bind (release (L_pipe pi) s) (\<lambda>_ s. Ok (int i) s)))"
    if t: "t = s\<lparr>mem := mem t, freelist := freelist t\<rparr>" "uview t pt (p_sz (procs s p)) = ?v"
      and u: "i < n \<longrightarrow> uframe (mem s) pt (addr + of_nat i) = None \<and> pi_readopen (pipes s pi) \<and> \<not> p_killed (procs s p)" for t
  proof -
    have f: "held t = [L_pipe pi]" "cur t = Some p" "pipes t = pipes s" "procs t = procs s"
      using arg_cong [OF t(1), of held] arg_cong [OF t(1), of cur] arg_cong [OF t(1), of pipes]
        arg_cong [OF t(1), of procs] held S by simp_all
    show ?thesis using t(2) u f pok Suc.prems(4) woken_readers [of _ NPROC "Some p" "Ch_nread pi" "procs s"]
      by (auto simp: wakeup_Ok no_plocks_def write_outcome_def Let_def uview_def ubytes_def intro!: exI [of _ i])
  qed
  show ?case
  proof (cases "i < n")
    case False
    then have "pipewrite_loop (Suc k) pi addr (int n) (int i) p s =
        bind (wakeup (Ch_nread pi) s) (\<lambda>_ s. bind (release (L_pipe pi) s) (\<lambda>_ s. Ok (int i) s))" by simp
    then show ?thesis using fin [of s] False by simp
  next
    case i: True
    have kl: "killed p s = Ok (p_killed (procs s p)) s" by (rule killed_Ok) (simp add: held)
    show ?thesis
    proof (cases "pi_readopen (pipes s pi) \<and> \<not> p_killed (procs s p)")
      case False
      then have "pipewrite_loop (Suc k) pi addr (int n) (int i) p s = Ok (- 1) (s\<lparr>held := []\<rparr>)"
        using i kl held by auto
      then show ?thesis using False i pok by (auto simp: write_outcome_def Let_def)
    next
      case go: True
      show ?thesis
      proof (cases "pi_nwrite (pipes s pi) = pi_nread (pipes s pi) + 512")
        case True
        let ?t = "s\<lparr>procs := woken (Ch_nread pi) NPROC (cur s) (procs s)\<rparr>"
        have "pipewrite_loop (Suc k) pi addr (int n) (int i) p s = sleep (Ch_nwrite pi) (L_pipe pi) ?t"
          using i kl go True held by (simp add: wakeup_Ok no_plocks_def)
        also have "\<dots> = Block (upd_proc p (\<lambda>q. q\<lparr>p_chan := Some (Ch_nwrite pi), p_state := SLEEPING\<rparr>) (?t\<lparr>held := [L_proc p]\<rparr>))"
          by (rule sleep_Block) (simp_all add: S held)
        finally show ?thesis
          using i pok go True pipe_fifo.full_iff [OF pok] woken_readers [of _ NPROC "Some p" "Ch_nread pi" "procs s"] S
          by (auto simp: write_outcome_def Let_def ubytes_def intro!: exI [of _ i])
      next
        case nf: False
        let ?a = "addr + of_nat i"
        have step: "pipewrite_loop (Suc k) pi addr (int n) (int i) p s =
            bind (copyin pt ?a 1 s) (\<lambda>(r, ch) s.
              if r = - 1 then bind (wakeup (Ch_nread pi) s) (\<lambda>_ s. bind (release (L_pipe pi) s) (\<lambda>_ s. Ok (int i) s))
              else pipewrite_loop k pi addr (int n) (int i + 1) p (upd_pipe pi (pipe_push (hd ch)) s))"
          unfolding pipe_push_def using i kl go nf S by simp
        show ?thesis
        proof (rule copyin_byte [OF ok, of ?a])
          fix t qs b
          assume c: "copyin pt ?a 1 s = Ok (0, [b]) t" "?v ?a = Some b"
            "t = s\<lparr>mem := mem t, freelist := freelist t\<rparr>" "space_ok t p pt qs" "keeps_frames pt s t" "uview t pt (p_sz (procs s p)) = ?v"
          let ?u = "upd_pipe pi (pipe_push b) t"
          have f: "held t = [L_pipe pi]" "pipes t = pipes s" "procs t = procs s"
            using arg_cong [OF c(3), of held] arg_cong [OF c(3), of pipes] arg_cong [OF c(3), of procs] held by simp_all
          note P = pipe_fifo.push_ok [OF pok nf, of b]
          have "write_outcome p pt pi addr n (Suc i) ?u (pipewrite_loop k pi addr (int n) (int (Suc i)) p ?u)"
          proof (rule Suc.IH)
            show "space_ok ?u p pt qs" by (rule space_ok_cong [OF c(4)]) (simp_all add: f)
          qed (use f P i Suc.prems in auto)
          then have "write_outcome p pt pi addr n i s (pipewrite_loop k pi addr (int n) (int (Suc i)) p ?u)"
            by (rule write_outcome_step [OF _ c(2)]) (use c(5,6) f P go in \<open>simp_all add: pipe_push_def keeps_frames_def\<close>)
          then show ?thesis unfolding step c(1) by (simp add: add.commute)
        next
          fix t qs
          assume c: "copyin pt ?a 1 s = Ok (- 1, []) t" "uframe (mem s) pt ?a = None"
            "t = s\<lparr>mem := mem t, freelist := freelist t\<rparr>" "uview t pt (p_sz (procs s p)) = ?v"
          then show ?thesis unfolding step c(1) using fin [OF c(3,4)] go by simp
        qed
      qed
    qed
  qed
qed simp



section \<open>Reading\<close>

lemma copyout_byte:
  assumes ok: "space_ok s p pt ps"
  defines "v \<equiv> uview s pt (p_sz (procs s p))"
  obtains t qs where "copyout pt a [b] s = Ok 0 t" "uview t pt (p_sz (procs s p)) = upd v a [b]"
      "t = s\<lparr>mem := mem t, freelist := freelist t\<rparr>" "space_ok t p pt qs" "keeps_frames pt s t"
  | t qs where "copyout pt a [b] s = Ok (- 1) t" "uview t pt (p_sz (procs s p)) = v" "\<not> writable (mem s) pt a"
      "t = s\<lparr>mem := mem t, freelist := freelist t\<rparr>" "space_ok t p pt qs" "keeps_frames pt s t"
proof -
  have "copyout_ok p pt a [b] s (copyout pt a [b] s)" unfolding copyout_def by (rule copyout_loop_copied [OF ok]) simp
  then obtain r t qs k where c: "copyout pt a [b] s = Ok r t" "copied p pt a [b] k s t qs"
    "r = 0 \<and> k = 1 \<or> r = - 1 \<and> k < 1 \<and> \<not> writable (mem s) pt a"
    unfolding copyout_ok_def by auto
  then show thesis using that [of t qs] by (auto simp: copied_def v_def)
qed

definition read_copied :: "nat \<Rightarrow> addr \<Rightarrow> addr \<Rightarrow> u64 \<Rightarrow> nat \<Rightarrow> nat \<Rightarrow> kstate \<Rightarrow> nat \<Rightarrow> kstate \<Rightarrow> bool" where
  "read_copied p pt pi addr n i s j t \<longleftrightarrow>
     (let q = pipe_q (pipes s pi); v = uview s pt (p_sz (procs s p)) in
      i \<le> j \<and> j \<le> n \<and> j - i \<le> length q \<and> pipe_ok (pipes t pi)
      \<and> uview t pt (p_sz (procs s p)) = upd v (addr + of_nat i) (take (j - i) q)
      \<and> (pipe_q (pipes t pi) = drop (j - i) q \<and> (j = n \<or> j - i = length q)
         \<or> pipe_q (pipes t pi) = drop (Suc j - i) q \<and> j < n \<and> \<not> writable (mem s) pt (addr + of_nat j)))"

lemma read_copied_step:
  assumes R: "read_copied p pt pi addr n (Suc i) t j u" and v: "uview t pt (p_sz (procs s p)) = upd (uview s pt (p_sz (procs s p))) (addr + of_nat i) [b]"
    and k: "keeps_frames pt s t" and sz: "p_sz (procs t p) = p_sz (procs s p)"
    and q: "pipe_q (pipes s pi) = b # bs" "pipe_q (pipes t pi) = bs" and n: "unat addr + n \<le> 2 ^ 64" "i < n"
  shows "read_copied p pt pi addr n i s j u"
proof -
  let ?v = "uview s pt (p_sz (procs s p))"
  have j: "Suc i \<le> j" "j \<le> n" "j - Suc i \<le> length bs" using R q by (simp_all add: read_copied_def Let_def)
  then have d: "j - i = Suc (j - Suc i)" by simp
  have "upd (upd ?v (addr + of_nat i) [b]) (addr + of_nat (Suc i)) (take (j - Suc i) bs) = upd ?v (addr + of_nat i) (b # take (j - Suc i) bs)"
  proof (cases "j = Suc i")
    case False
    then have "unat (addr + of_nat i) = unat addr + i" "unat (addr + of_nat (Suc i)) = unat addr + Suc i"
      using j n by (intro unat_add_no_wrap, simp)+
    then show ?thesis using upd_append [of "addr + of_nat (Suc i)" "addr + of_nat i" "[b]" ?v] by simp
  qed simp
  then have "uview u pt (p_sz (procs s p)) = upd ?v (addr + of_nat i) (take (j - i) (b # bs))"
    using R v q sz d by (simp add: read_copied_def Let_def)
  moreover have "\<not> writable (mem s) pt a" if "\<not> writable (mem t) pt a" for a
    using keeps_writable [OF k] that by blast
  ultimately show ?thesis using R q j d unfolding read_copied_def Let_def by (auto simp: Suc_diff_le)
qed

lemma piperead_copy_outcome:
  "space_ok s p pt ps \<Longrightarrow> L_kmem \<notin> set (held s) \<Longrightarrow> pipe_ok (pipes s pi) \<Longrightarrow> i \<le> n \<Longrightarrow> n - i < k \<Longrightarrow>
   unat addr + n \<le> 2 ^ 64 \<Longrightarrow>
   \<exists>j t. piperead_copy k pi addr (int n) (int i) p s = Ok (int j) t \<and> read_copied p pt pi addr n i s j t
      \<and> t = s\<lparr>mem := mem t, freelist := freelist t, pipes := pipes t\<rparr>"
proof (induction k arbitrary: i s ps)
  case (Suc k)
  note ok = Suc.prems(1) and held = Suc.prems(2) and pok = Suc.prems(3)
  let ?v = "uview s pt (p_sz (procs s p))" and ?q = "pipe_q (pipes s pi)"
  have S: "cur s = Some p" "p_pagetable (procs s p) = pt" using ok by (simp_all add: space_ok_def)
  show ?case
  proof (cases "i < n \<and> ?q \<noteq> []")
    case False
    then have "piperead_copy (Suc k) pi addr (int n) (int i) p s = Ok (int i) s"
      using pipe_fifo.empty_iff [OF pok] by auto
    moreover have "read_copied p pt pi addr n i s i s" using False pok Suc.prems(4) by (auto simp: read_copied_def Let_def)
    ultimately show ?thesis by auto
  next
    case True
    then obtain b bs where q: "?q = b # bs" by (cases ?q) auto
    note P = pipe_fifo.pop_ok [OF pok q]
    let ?s = "upd_pipe pi pipe_pop s" and ?a = "addr + of_nat i"
    have oks: "space_ok ?s p pt ps" by (rule space_ok_cong [OF ok]) (simp_all add: held)
    have step: "piperead_copy (Suc k) pi addr (int n) (int i) p s =
        bind (copyout pt ?a [b] ?s) (\<lambda>r s. if r = - 1 then Ok (int i) s else piperead_copy k pi addr (int n) (int i + 1) p s)"
      using True P S pipe_fifo.empty_iff [OF pok] unfolding pipe_pop_def pipe_front_def by (simp add: Let_def)
    show ?thesis
    proof (rule copyout_byte [OF oks, of ?a b])
      fix t qs
      assume c: "copyout pt ?a [b] ?s = Ok (- 1) t" "uview t pt (p_sz (procs ?s p)) = uview ?s pt (p_sz (procs ?s p))"
        "\<not> writable (mem ?s) pt ?a" "t = ?s\<lparr>mem := mem t, freelist := freelist t\<rparr>"
      have f: "pipes t = (pipes s)(pi := pipe_pop (pipes s pi))" using arg_cong [OF c(4), of pipes] by simp
      have "read_copied p pt pi addr n i s i t"
        using c True P q by (auto simp: read_copied_def Let_def f)
      moreover have "t = s\<lparr>mem := mem t, freelist := freelist t, pipes := pipes t\<rparr>"
        by (rule trans [OF c(4)]) (simp add: f)
      ultimately show ?thesis unfolding step c(1) by auto
    next
      fix t qs
      assume c: "copyout pt ?a [b] ?s = Ok 0 t" "uview t pt (p_sz (procs ?s p)) = upd (uview ?s pt (p_sz (procs ?s p))) ?a [b]"
        "t = ?s\<lparr>mem := mem t, freelist := freelist t\<rparr>" "space_ok t p pt qs" "keeps_frames pt ?s t"
      have f: "pipes t = (pipes s)(pi := pipe_pop (pipes s pi))" "procs t = procs s" "held t = held s"
        using arg_cong [OF c(3), of pipes] arg_cong [OF c(3), of procs] arg_cong [OF c(3), of held] by simp_all
      have "\<exists>j u. piperead_copy k pi addr (int n) (int (Suc i)) p t = Ok (int j) u \<and> read_copied p pt pi addr n (Suc i) t j u
         \<and> u = t\<lparr>mem := mem u, freelist := freelist u, pipes := pipes u\<rparr>"
        by (rule Suc.IH [OF c(4)]) (use f held P True Suc.prems in auto)
      then obtain j u where u: "piperead_copy k pi addr (int n) (int i + 1) p t = Ok (int j) u"
        "read_copied p pt pi addr n (Suc i) t j u" "u = t\<lparr>mem := mem u, freelist := freelist u, pipes := pipes u\<rparr>"
        by (auto simp: add.commute)
      have "read_copied p pt pi addr n i s j u"
      proof (rule read_copied_step [OF u(2)])
        show "uview t pt (p_sz (procs s p)) = upd ?v ?a [b]" using c(2) by simp
        show "keeps_frames pt s t" using c(5) by (simp add: keeps_frames_def)
      qed (use f P q True Suc.prems in auto)
      moreover have "u = s\<lparr>mem := mem u, freelist := freelist u, pipes := pipes u\<rparr>"
        by (rule trans [OF u(3)], subst c(3)) simp
      ultimately show ?thesis unfolding step c(1) using u(1) by auto
    qed
  qed
qed simp


definition read_outcome :: "nat \<Rightarrow> addr \<Rightarrow> addr \<Rightarrow> u64 \<Rightarrow> nat \<Rightarrow> kstate \<Rightarrow> int kres \<Rightarrow> bool" where
  "read_outcome p pt pi addr n s m \<longleftrightarrow>
     (case m of
        Ok r t \<Rightarrow>
          held t = []
          \<and> (r = - 1 \<and> pipes t = pipes s \<and> pipe_q (pipes s pi) = [] \<and> pi_writeopen (pipes s pi) \<and> p_killed (procs s p)
             \<or> (\<exists>j. r = int j \<and> read_copied p pt pi addr n 0 s j t
                  \<and> (pipe_q (pipes s pi) = [] \<longrightarrow> \<not> pi_writeopen (pipes s pi))
                  \<and> (\<forall>x. x \<noteq> p \<and> x < NPROC \<longrightarrow> \<not> (p_state (procs t x) = SLEEPING \<and> p_chan (procs t x) = Some (Ch_nwrite pi)))))
      | Block t \<Rightarrow>
          pipes t = pipes s \<and> pipe_q (pipes s pi) = [] \<and> pi_writeopen (pipes s pi) \<and> \<not> p_killed (procs s p)
          \<and> p_state (procs t p) = SLEEPING \<and> p_chan (procs t p) = Some (Ch_nread pi) \<and> held t = [L_proc p]
      | Panic _ \<Rightarrow> False)"

lemma read_copied_cong:
  "read_copied p pt pi addr n i s j t \<Longrightarrow> mem u = mem t \<Longrightarrow> pipes u = pipes t \<Longrightarrow> read_copied p pt pi addr n i s j u"
  unfolding read_copied_def Let_def by (simp add: uview_cong [of u t])

lemma piperead_loop_outcome:
  assumes ok: "space_ok s p pt ps" and held: "held s = [L_pipe pi]" and pok: "pipe_ok (pipes s pi)" and n: "unat addr + n \<le> 2 ^ 64"
  shows "read_outcome p pt pi addr n s (piperead_loop pi addr (int n) p s)"
proof -
  have S: "cur s = Some p" using ok by (simp add: space_ok_def)
  note e = pipe_fifo.empty_iff [OF pok]
  show ?thesis
  proof (cases "pipe_q (pipes s pi) = [] \<and> pi_writeopen (pipes s pi)")
    case True
    have "piperead_loop pi addr (int n) p s =
        (if p_killed (procs s p) then Ok (- 1) (s\<lparr>held := []\<rparr>) else sleep (Ch_nread pi) (L_pipe pi) s)"
      using True e held killed_Ok [of p s] by (simp add: piperead_loop_def)
    moreover have "sleep (Ch_nread pi) (L_pipe pi) s = (Block (upd_proc p (\<lambda>q. q\<lparr>p_chan := Some (Ch_nread pi), p_state := SLEEPING\<rparr>)
        (s\<lparr>held := [L_proc p]\<rparr>)) :: int kres)"
      by (rule sleep_Block) (simp_all add: S held)
    ultimately show ?thesis using True by (simp add: read_outcome_def)
  next
    case False
    have "L_kmem \<notin> set (held s)" by (simp add: held)
    from piperead_copy_outcome [OF ok this pok _ _ n, of 0 "Suc n"]
    obtain j t where c: "piperead_copy (Suc n) pi addr (int n) 0 p s = Ok (int j) t" "read_copied p pt pi addr n 0 s j t"
      "t = s\<lparr>mem := mem t, freelist := freelist t, pipes := pipes t\<rparr>" by auto
    have f: "held t = [L_pipe pi]" "cur t = Some p" "procs t = procs s"
      using arg_cong [OF c(3), of held] arg_cong [OF c(3), of cur] arg_cong [OF c(3), of procs] held S by simp_all
    let ?u = "t\<lparr>procs := woken (Ch_nwrite pi) NPROC (Some p) (procs s), held := []\<rparr>"
    have "piperead_loop pi addr (int n) p s = Ok (int j) ?u"
      using False e c(1) f by (auto simp: piperead_loop_def wakeup_Ok no_plocks_def)
    moreover have "read_copied p pt pi addr n 0 s j ?u" by (rule read_copied_cong [OF c(2)]) simp_all
    ultimately show ?thesis using False woken_readers [of _ NPROC "Some p" "Ch_nwrite pi" "procs s"]
      by (auto simp: read_outcome_def)
  qed
qed

lemma write_outcome_held: "write_outcome p pt pi addr n i (s\<lparr>held := h\<rparr>) m = write_outcome p pt pi addr n i s m"
  by (cases m) (simp_all add: write_outcome_def Let_def)

lemma read_outcome_held: "read_outcome p pt pi addr n (s\<lparr>held := h\<rparr>) m = read_outcome p pt pi addr n s m"
  by (cases m) (simp_all add: read_outcome_def read_copied_def Let_def)

lemma space_ok_held: "space_ok s p pt ps \<Longrightarrow> L_kmem \<notin> set h \<Longrightarrow> space_ok (s\<lparr>held := h\<rparr>) p pt ps"
  by (rule space_ok_cong) simp_all

lemma unmapped_copyout:
  assumes ok: "space_ok s p pt ps" and v: "uview s pt (p_sz (procs s p)) a = None"
  shows "\<exists>t. copyout pt a [b] s = Ok (- 1) t \<and> t = s\<lparr>mem := mem t, freelist := freelist t\<rparr>"
proof -
  let ?a = "PGROUNDDOWN a"
  have u: "uframe (mem s) pt a = None" using v by (auto simp: uview_def split: option.splits)
  then have u0: "uframe (mem s) pt ?a = None" using uframe_page [OF PGROUNDDOWN_page] by simp
  obtain r t qs where F: "vmfault pt ?a s = Ok r t" "faulted p pt ?a s ps r t qs" using vmfault_faulted [OF ok] by blast
  have "r = 0"
  proof (rule ccontr)
    assume "r \<noteq> 0"
    then have "uframe (mem t) pt a = Some r" using F(2) uframe_page [OF PGROUNDDOWN_page] by (simp add: faulted_def)
    then have "uview t pt (p_sz (procs s p)) a \<noteq> None" by (simp add: uview_def)
    then show False using F(2) v by (simp add: faulted_def)
  qed
  moreover have "t = s\<lparr>mem := mem t, freelist := freelist t\<rparr>" using F(2) by (simp add: faulted_def)
  ultimately show ?thesis
    using u0 F(1) by (auto simp: copyout_def walkaddr_uframe [OF space_table [OF ok]] Let_def numeral_eq_Suc)
qed

section \<open>Properties\<close>

text \<open>A process with an open pipe at page 0x5000 that holds the bytes 7, 8 and 9, with the counters about to
  wrap around.\<close>

definition pp0 :: kstate where
  "pp0 = um0\<lparr>pipes := (pipes um0)(0x5000 := fold pipe_push [7, 8, 9]
     \<lparr>pi_data = (\<lambda>_. 0), pi_nread = - 2, pi_nwrite = - 2, pi_readopen = True, pi_writeopen = True\<rparr>)\<rparr>"

lemma pp0_pipe: "pipe_ok (pipes pp0 0x5000)" "pipe_q (pipes pp0 0x5000) = [7, 8, 9]"
proof -
  let ?x = "\<lparr>pi_data = (\<lambda>_. 0), pi_nread = - 2, pi_nwrite = - 2, pi_readopen = True, pi_writeopen = True\<rparr> :: pipe"
  have "pipe_ok ?x" "pipe_q ?x = []" by (simp_all add: pipe_ok_def pipe_q_def)
  then show "pipe_ok (pipes pp0 0x5000)" "pipe_q (pipes pp0 0x5000) = [7, 8, 9]"
    using pipe_fifo.push_many [of ?x "[7, 8, 9]"] by (simp_all add: pp0_def del: fold_simps)
qed

lemma pp0_ok: "space_ok pp0 0 0x1000 [0x3000, 0x2000]" "held pp0 = []" "cur pp0 = Some 0"
  by (rule space_ok_cong [OF um0_ok]) (simp_all add: pp0_def um0_def vm0_def zero_state_def)

text \<open>C21: A pipe keeps the order of its bytes. For any sequence of writes and reads of single bytes, where
  a full pipe refuses a byte and an empty one gives none, the bytes that were in the pipe followed by
  the bytes accepted are the bytes delivered followed by the bytes left; the pipe never holds more
  than 512, also when its 32-bit counters wrap around.\<close>

theorem pipe_keeps_order:
  assumes "pipe_ok x"
    and "fifo_run (\<lambda>x. pi_nread x = pi_nwrite x) (\<lambda>x. pi_nwrite x = pi_nread x + 512) pipe_front pipe_push pipe_pop ops x = (acc, del, y)"
  shows "pipe_ok y \<and> pipe_q x @ acc = del @ pipe_q y \<and> length (pipe_q y) \<le> 512"
  using assms by (rule pipe_fifo.fifo_run_spec)

theorem pipe_keeps_order_witness:
  "\<exists>acc del y. fifo_run (\<lambda>x. pi_nread x = pi_nwrite x) (\<lambda>x. pi_nwrite x = pi_nread x + 512) pipe_front pipe_push pipe_pop
     [Enq 1, Deq, Enq 2, Deq] (pipes pp0 0x5000) = (acc, del, y) \<and> [7, 8, 9] @ acc = del @ pipe_q y"
proof -
  obtain acc del y where r: "fifo_run (\<lambda>x. pi_nread x = pi_nwrite x) (\<lambda>x. pi_nwrite x = pi_nread x + 512) pipe_front pipe_push pipe_pop
     [Enq 1, Deq, Enq 2, Deq] (pipes pp0 0x5000) = (acc, del, y)" by (rule prod_cases3)
  from pipe_keeps_order [OF pp0_pipe(1) r] show ?thesis using r by (auto simp: pp0_pipe)
qed

text \<open>C7: Every outcome of \<open>pipewrite\<close>. It appends to the queue of the pipe the bytes the caller sees at the
  address, in order, and returns how many: all of them, or those before the first one that is not
  mapped. With the pipe full before the end it goes to sleep on \<open>nwrite\<close>, the queue holding 512 bytes
  and all readers woken. With something to write it returns -1, the pipe unchanged, exactly when the
  read end is closed or the caller has been killed: it neither writes nor sleeps then. It never panics, and holds no lock when it returns.\<close>

theorem pipewrite_outcome:
  assumes "space_ok s p pt ps" and "held s = []" and "pipe_ok (pipes s pi)"
  shows "write_outcome p pt pi addr n 0 s (pipewrite pi addr (int n) s)"
proof -
  let ?s = "s\<lparr>held := [L_pipe pi]\<rparr>"
  have "space_ok ?s p pt ps" by (rule space_ok_held [OF assms(1)]) simp
  then have "write_outcome p pt pi addr n 0 ?s (pipewrite_loop (Suc n) pi addr (int n) (int 0) p ?s)"
    by (rule pipewrite_loop_outcome) (use assms in simp_all)
  moreover have "pipewrite pi addr (int n) s = pipewrite_loop (Suc n) pi addr (int n) 0 p ?s"
    using assms(1,2) by (simp add: pipewrite_def space_ok_def)
  ultimately show ?thesis by (simp add: write_outcome_held)
qed

theorem pipewrite_outcome_witness:
  "write_outcome 0 0x1000 0x5000 0x4000 600 0 pp0 (pipewrite 0x5000 0x4000 (int 600) pp0)"
  by (rule pipewrite_outcome [OF pp0_ok(1,2) pp0_pipe(1)])

text \<open>C9: Every outcome of \<open>piperead\<close>. It takes bytes from the front of the queue and puts them at the
  caller's address, and returns how many: as many as asked for or as the queue holds, and all writers
  are woken; it stops early only at an address that is not mapped writable, and then the byte taken
  for it is lost. With the pipe empty and a writer open it returns -1 if the caller has been killed, and goes to
  sleep on \<open>nread\<close> exactly if it has not; with the pipe empty and the write end closed it returns 0.\<close>

theorem piperead_outcome:
  assumes "space_ok s p pt ps" and "held s = []" and "pipe_ok (pipes s pi)" and "unat addr + n \<le> 2 ^ 64"
  shows "read_outcome p pt pi addr n s (piperead pi addr (int n) s)"
proof -
  let ?s = "s\<lparr>held := [L_pipe pi]\<rparr>"
  have "space_ok ?s p pt ps" by (rule space_ok_held [OF assms(1)]) simp
  then have "read_outcome p pt pi addr n ?s (piperead_loop pi addr (int n) p ?s)"
    by (rule piperead_loop_outcome) (use assms in simp_all)
  moreover have "piperead pi addr (int n) s = piperead_loop pi addr (int n) p ?s"
    using assms(1,2) by (simp add: piperead_def space_ok_def)
  ultimately show ?thesis by (simp add: read_outcome_held)
qed

theorem piperead_outcome_witness:
  "read_outcome 0 0x1000 0x5000 0x4000 600 pp0 (piperead 0x5000 0x4000 (int 600) pp0)"
  by (rule piperead_outcome [OF pp0_ok(1,2) pp0_pipe(1)]) simp

text \<open>C31: A read into memory the caller does not have looks like the end of the pipe and loses a byte: with the
  destination neither mapped nor below the size of the process, \<open>piperead\<close> on a pipe with data returns
  0, and the first byte is gone.\<close>

theorem piperead_loses_byte:
  assumes "space_ok s p pt ps" and "held s = []" and "pipe_ok (pipes s pi)" and "pipe_q (pipes s pi) = b # bs"
    and "uview s pt (p_sz (procs s p)) addr = None" and "0 < n"
  shows "\<exists>t. piperead pi addr (int n) s = Ok 0 t \<and> pipe_q (pipes t pi) = bs"
proof -
  let ?s = "s\<lparr>held := [L_pipe pi]\<rparr>" and ?x = "pipe_pop (pipes s pi)"
  let ?u = "upd_pipe pi pipe_pop ?s"
  note P = pipe_fifo.pop_ok [OF assms(3,4)] and ne = pipe_fifo.empty_iff [OF assms(3)]
  have S: "cur s = Some p" "p_pagetable (procs s p) = pt" using assms(1) by (simp_all add: space_ok_def)
  have "space_ok ?u p pt ps" by (rule space_ok_cong [OF assms(1)]) simp_all
  then obtain t where t: "copyout pt addr [b] ?u = Ok (- 1) t" "t = ?u\<lparr>mem := mem t, freelist := freelist t\<rparr>"
    using unmapped_copyout [of ?u p pt ps addr b] assms(5) by auto
  have f: "held t = [L_pipe pi]" "cur t = Some p" "pipes t pi = ?x"
    using arg_cong [OF t(2), of held] arg_cong [OF t(2), of cur] arg_cong [OF t(2), of pipes] S by simp_all
  have "piperead_copy (Suc n) pi addr (int n) 0 p ?s = Ok 0 t"
    using t(1) P S ne assms(4,6) unfolding pipe_pop_def pipe_front_def by (simp add: Let_def)
  then show ?thesis
    using assms(2,4) S ne f P by (auto simp: piperead_def piperead_loop_def wakeup_Ok no_plocks_def)
qed

theorem piperead_loses_byte_witness:
  "\<exists>t. piperead 0x5000 0x10000 (int 1) pp0 = Ok 0 t \<and> pipe_q (pipes t 0x5000) = [8, 9]"
proof (rule piperead_loses_byte [OF pp0_ok(1,2) pp0_pipe])
  show "uview pp0 0x1000 (p_sz (procs pp0 0)) 0x10000 = None"
    by (simp add: pp0_def um0_def uview_def uframe_def vm0_tr PGROUNDDOWN_def)
qed simp

end
