(* ===== verification/Printf.thy ===== *)
theory Printf
  imports Console
begin

text \<open>
  Formatted output: the kernel's \<^verbatim>\<open>kernel/printf.c\<close> and the user library's \<^verbatim>\<open>user/printf.c\<close>.
  An argument of \<open>printf\<close> is a 64-bit register (\<open>ANum\<close>, of which a conversion reads the part
  its type names) or a string pointer (\<open>AStr\<close>, \<open>None\<close> for null). \<open>fmt_out\<close> gives the characters
  a call prints; the kernel sends them to \<open>consputc\<close>, the library writes them to a descriptor. The
  two formatters have the same conversions and differ in how they print numbers. Reading beyond the arguments given, which
  C leaves undefined, gives zero. \<open>panicking\<close> is 0: only \<open>panic\<close>, which does not return, sets it.
\<close>

unbundle bit_operations_syntax

datatype parg = ANum u64 | AStr "byte list option"

definition bytes_str :: "string \<Rightarrow> byte list" where
  "bytes_str t = map (\<lambda>c. of_nat (of_char c)) t"

definition digits :: "byte list" where
  "digits = bytes_str ''0123456789abcdef''"

definition udigits :: "byte list" where
  "udigits = bytes_str ''0123456789ABCDEF''"

section \<open>Numbers\<close>

text \<open>The digit loop, least significant digit first.\<close>

fun digit_loop :: "byte list \<Rightarrow> nat \<Rightarrow> nat \<Rightarrow> nat \<Rightarrow> byte list" where
  "digit_loop ds 0 base x = []"
| "digit_loop ds (Suc k) base x =
     ds ! (x mod base) # (if x div base \<noteq> 0 then digit_loop ds k base (x div base) else [])"

text \<open>\<open>long long xx\<close> is the word \<open>xx\<close>; its negation wraps.\<close>

definition printint :: "u64 \<Rightarrow> nat \<Rightarrow> bool \<Rightarrow> byte list" where
  "printint xx base sign =
     (let neg = (sign \<and> sint xx < 0);
          x = (if neg then - xx else xx);
          buf = digit_loop digits 64 base (unat x) @ (if neg then [0x2D] else []) in
      rev buf)"

definition printptr :: "u64 \<Rightarrow> byte list" where
  "printptr x =
     [0x30, 0x78] @ map (\<lambda>i. digits ! unat (drop_bit 60 (push_bit (4 * i) x))) [0..<16]"

text \<open>The user library's \<open>printint\<close> keeps the magnitude in a 32-bit variable.\<close>

definition uprintint :: "u64 \<Rightarrow> nat \<Rightarrow> bool \<Rightarrow> byte list" where
  "uprintint xx base sign =
     (let neg = (sign \<and> sint xx < 0);
          x = (if neg then ucast (- xx) else (ucast xx :: u32));
          buf = digit_loop udigits 64 base (unat x) @ (if neg then [0x2D] else []) in
      rev buf)"

definition uprintptr :: "u64 \<Rightarrow> byte list" where
  "uprintptr x =
     [0x30, 0x78] @ map (\<lambda>i. udigits ! unat (drop_bit 60 (push_bit (4 * i) x))) [0..<16]"

section \<open>Formats\<close>

fun arg_num :: "parg list \<Rightarrow> u64" where
  "arg_num (ANum w # _) = w"
| "arg_num _ = 0"

fun arg_str :: "parg list \<Rightarrow> byte list option" where
  "arg_str (AStr t # _) = t"
| "arg_str _ = None"

definition as_int :: "u64 \<Rightarrow> u64" where "as_int w = scast (ucast w :: u32)"
definition as_uint :: "u64 \<Rightarrow> u64" where "as_uint w = ucast (ucast w :: u32)"

abbreviation (input) ch_d :: byte where "ch_d \<equiv> 0x64"
abbreviation (input) ch_l :: byte where "ch_l \<equiv> 0x6C"
abbreviation (input) ch_u :: byte where "ch_u \<equiv> 0x75"
abbreviation (input) ch_x :: byte where "ch_x \<equiv> 0x78"
abbreviation (input) ch_p :: byte where "ch_p \<equiv> 0x70"
abbreviation (input) ch_c :: byte where "ch_c \<equiv> 0x63"
abbreviation (input) ch_s :: byte where "ch_s \<equiv> 0x73"
abbreviation (input) ch_percent :: byte where "ch_percent \<equiv> 0x25"

definition chr0 :: "byte list \<Rightarrow> nat \<Rightarrow> byte" where
  "chr0 xs i = (if i < length xs then xs ! i else 0)"

text \<open>One conversion, with the format behind the percent sign: the output, and how many
  characters of the format it uses; \<open>None\<close> at the end of the format.\<close>

definition conversion :: "(u64 \<Rightarrow> nat \<Rightarrow> bool \<Rightarrow> byte list) \<Rightarrow> (u64 \<Rightarrow> byte list)
    \<Rightarrow> byte list \<Rightarrow> parg list \<Rightarrow> (byte list \<times> nat \<times> bool) option" where
  "conversion pint pptr f args =
     (let c0 = chr0 f 0;
          c1 = (if c0 \<noteq> 0 then chr0 f 1 else 0);
          c2 = (if c1 \<noteq> 0 then chr0 f 2 else 0) in
      if c0 = ch_d then Some (pint (as_int (arg_num args)) 10 True, 1, True)
      else if c0 = ch_l \<and> c1 = ch_d then Some (pint (arg_num args) 10 True, 2, True)
      else if c0 = ch_l \<and> c1 = ch_l \<and> c2 = ch_d then Some (pint (arg_num args) 10 True, 3, True)
      else if c0 = ch_u then Some (pint (as_uint (arg_num args)) 10 False, 1, True)
      else if c0 = ch_l \<and> c1 = ch_u then Some (pint (arg_num args) 10 False, 2, True)
      else if c0 = ch_l \<and> c1 = ch_l \<and> c2 = ch_u then Some (pint (arg_num args) 10 False, 3, True)
      else if c0 = ch_x then Some (pint (as_uint (arg_num args)) 16 False, 1, True)
      else if c0 = ch_l \<and> c1 = ch_x then Some (pint (arg_num args) 16 False, 2, True)
      else if c0 = ch_l \<and> c1 = ch_l \<and> c2 = ch_x then Some (pint (arg_num args) 16 False, 3, True)
      else if c0 = ch_p then Some (pptr (arg_num args), 1, True)
      else if c0 = ch_c then Some ([ucast (arg_num args)], 1, True)
      else if c0 = ch_s then
        Some (case arg_str args of None \<Rightarrow> bytes_str ''(null)''
              | Some t \<Rightarrow> takeWhile (\<lambda>c. c \<noteq> 0) t, 1, True)
      else if c0 = ch_percent then Some ([ch_percent], 1, False)
      else if c0 = 0 then None
      else Some ([ch_percent, c0], 1, False))"

lemma conversion_uses: "conversion pint pptr f args = Some (out, k, b) \<Longrightarrow> 0 < k"
  by (auto simp: conversion_def Let_def split: if_splits)

function fmt_out :: "(u64 \<Rightarrow> nat \<Rightarrow> bool \<Rightarrow> byte list) \<Rightarrow> (u64 \<Rightarrow> byte list)
    \<Rightarrow> byte list \<Rightarrow> parg list \<Rightarrow> byte list" where
  "fmt_out pint pptr [] args = []"
| "fmt_out pint pptr (cx # f) args =
     (if cx = 0 then []
      else if cx \<noteq> ch_percent then cx # fmt_out pint pptr f args
      else case conversion pint pptr f args of
        None \<Rightarrow> []
      | Some (out, k, uses_arg) \<Rightarrow>
          out @ fmt_out pint pptr (drop k f) (if uses_arg then tl args else args))"
  by pat_completeness auto
termination
  by (relation "measure (\<lambda>(_, _, f, _). length f)") (auto dest: conversion_uses)

definition printf :: "byte list \<Rightarrow> parg list \<Rightarrow> kstate \<Rightarrow> int kres" where
  "printf fmt args s =
     bind (acquire L_pr s) (\<lambda>_ s.
     bind (release L_pr (fold consputc (fmt_out printint printptr fmt args) s)) (\<lambda>_ s.
     Ok 0 s))"

text \<open>\<open>vprintf\<close> of \<^verbatim>\<open>user/printf.c\<close>: the bytes it writes to its descriptor.\<close>

definition vprintf :: "byte list \<Rightarrow> parg list \<Rightarrow> byte list" where
  "vprintf fmt args = fmt_out uprintint uprintptr fmt args"

section \<open>Reading numbers back\<close>

text \<open>The value of a numeral over an alphabet of digits.\<close>

definition digit_val_of :: "byte list \<Rightarrow> byte \<Rightarrow> nat" where
  "digit_val_of al b = (case List.find (\<lambda>i. al ! i = b) [0..<16] of Some i \<Rightarrow> i | None \<Rightarrow> 0)"

definition num_val_of :: "byte list \<Rightarrow> nat \<Rightarrow> byte list \<Rightarrow> nat" where
  "num_val_of al base bs = foldl (\<lambda>a b. a * base + digit_val_of al b) 0 bs"

abbreviation digit_val :: "byte \<Rightarrow> nat" where "digit_val \<equiv> digit_val_of digits"
abbreviation num_val :: "nat \<Rightarrow> byte list \<Rightarrow> nat" where "num_val \<equiv> num_val_of digits"

definition alphabet :: "byte list \<Rightarrow> bool" where
  "alphabet al \<longleftrightarrow> distinct al \<and> length al = 16"

lemma digits_list: "digits = [0x30, 0x31, 0x32, 0x33, 0x34, 0x35, 0x36, 0x37, 0x38, 0x39,
    0x61, 0x62, 0x63, 0x64, 0x65, 0x66]"
  by (simp add: digits_def bytes_str_def)

lemma find_nth_distinct:
  assumes "distinct xs" and "i < length xs"
  shows "List.find (\<lambda>j. xs ! j = xs ! i) [0..<length xs] = Some i"
  using assms by (auto simp: find_Some_iff nth_eq_iff_index_eq intro!: exI [of _ i])

lemma alphabets: "alphabet digits" "alphabet udigits"
  by (simp_all add: alphabet_def digits_list udigits_def bytes_str_def)

lemma digit_val_digits:
  assumes "alphabet al" and "i < 16"
  shows "digit_val_of al (al ! i) = i"
  using assms find_nth_distinct [of al i] by (simp add: alphabet_def digit_val_of_def)

lemma unat_of_sint:
  fixes w :: u64
  shows "0 \<le> sint w \<Longrightarrow> unat w = nat (sint w)" and "sint w < 0 \<Longrightarrow> unat (- w) = nat (- sint w)"
proof -
  have r: "- (2 ^ 63) \<le> sint w" "sint w < 2 ^ 63" using sint_range_size [of w] by (simp_all add: word_size)
  have w: "w = word_of_int (sint w)" by simp
  show "unat w = nat (sint w)" if "0 \<le> sint w"
  proof -
    have "uint w = sint w mod 2 ^ 64" by (subst w, subst uint_word_of_int) simp
    with that r(2) show ?thesis by (simp flip: nat_uint_eq)
  qed
  show "unat (- w) = nat (- sint w)" if "sint w < 0"
  proof -
    have "- w = word_of_int (- sint w)" by simp
    then have "uint (- w) = (- sint w) mod 2 ^ 64" by (simp only: uint_word_of_int) simp
    with that r(1) show ?thesis by (simp flip: nat_uint_eq)
  qed
qed

lemma num_val_snoc [simp]: "num_val_of al base (bs @ [b]) = num_val_of al base bs * base + digit_val_of al b"
  by (simp add: num_val_of_def)

lemma digit_loop_val:
  assumes "1 < base" and "base \<le> 16" and al: "alphabet al"
  shows "x < base ^ k \<Longrightarrow> 0 < k \<Longrightarrow> num_val_of al base (rev (digit_loop al k base x)) = x"
proof (induction k arbitrary: x)
  case (Suc k)
  have d: "digit_val_of al (al ! (x mod base)) = x mod base"
    using assms by (intro digit_val_digits al) (meson le_trans less_le_trans mod_less_divisor order_less_trans zero_less_one)
  show ?case
  proof (cases "x div base = 0")
    case True
    then show ?thesis using d assms(1) by (simp add: num_val_of_def div_eq_0_iff)
  next
    case False
    have "x div base < base ^ k" using Suc.prems(1) by (simp add: less_mult_imp_div_less mult.commute)
    moreover from this False have "0 < k" by (cases k) auto
    ultimately show ?thesis using Suc.IH False d by simp
  qed
qed simp

lemma digit_loop_length:
  "x < base ^ n \<Longrightarrow> 0 < n \<Longrightarrow> length (digit_loop ds k base x) \<le> n"
proof (induction k arbitrary: x n)
  case (Suc k)
  show ?case
  proof (cases "x div base = 0")
    case False
    then obtain m where n: "n = Suc m" "0 < m"
      using Suc.prems by (cases n; cases "n - 1") (auto simp: div_eq_0_iff)
    then have "x div base < base ^ m" using Suc.prems(1) by (simp add: less_mult_imp_div_less mult.commute)
    then show ?thesis using Suc.IH [of _ m] n False by simp
  qed (use Suc.prems in simp)
qed simp

lemma digit_loop_set: "0 < base \<Longrightarrow> base \<le> length ds \<Longrightarrow> set (digit_loop ds k base x) \<subseteq> set (take base ds)"
proof (induction ds k base x rule: digit_loop.induct)
  case (2 ds k base x)
  have "x mod base < base" using 2(2) by simp
  then have "take base ds ! (x mod base) \<in> set (take base ds)" using 2(3) by (intro nth_mem) simp
  with 2 show ?case by auto
qed simp

lemma digit_loop_Cons: "0 < k \<Longrightarrow> digit_loop ds k base x \<noteq> []"
  by (cases k) simp_all

lemma digit_loop_last:
  assumes "1 < base" and "base \<le> 16" and al: "alphabet al"
  shows "x < base ^ k \<Longrightarrow> x \<noteq> 0 \<Longrightarrow> digit_val_of al (last (digit_loop al k base x)) \<noteq> 0"
proof (induction k arbitrary: x)
  case (Suc k)
  show ?case
  proof (cases "x div base = 0")
    case True
    then have "x < base" using assms(1) by (simp add: div_eq_0_iff)
    then show ?thesis using True Suc.prems(2) assms(2) digit_val_digits [OF al, of x] by simp
  next
    case False
    have lt: "x div base < base ^ k" using Suc.prems(1) by (simp add: less_mult_imp_div_less mult.commute)
    with False have "0 < k" by (cases k) auto
    with digit_loop_Cons Suc.IH [OF lt False] False show ?thesis by simp
  qed
qed simp

text \<open>What a printed number looks like: its length and its value.\<close>

lemma printint_magnitude:
  assumes b: "base = 10 \<or> base = 16" and x: "x < 2 ^ 64" and al: "alphabet al"
  defines "ds \<equiv> rev (digit_loop al 64 base x)"
  shows "num_val_of al base ds = x" and "ds \<noteq> []" and "set ds \<subseteq> set (take base al)"
    and "x \<noteq> 0 \<Longrightarrow> digit_val_of al (hd ds) \<noteq> 0" and "length ds \<le> 20" and "x \<le> 2 ^ 63 \<Longrightarrow> length ds \<le> 19"
proof -
  have p: "x < base ^ 64"
  proof -
    have "(2::nat) ^ 64 \<le> 10 ^ 64" "(2::nat) ^ 64 \<le> 16 ^ 64" by (rule power_mono; simp)+
    with b x show ?thesis by (elim disjE) simp_all
  qed
  show "num_val_of al base ds = x" using digit_loop_val [of base al x 64] al b p by (auto simp: ds_def)
  show "ds \<noteq> []" using digit_loop_Cons [of 64 al base x] by (simp add: ds_def)
  show "set ds \<subseteq> set (take base al)"
    using digit_loop_set [of base al 64 x] b al by (auto simp: ds_def alphabet_def)
  show "digit_val_of al (hd ds) \<noteq> 0" if "x \<noteq> 0"
    using digit_loop_last [of base al x 64] al b p that by (auto simp: ds_def hd_rev)
  show "length ds \<le> 20"
    unfolding ds_def length_rev by (rule digit_loop_length) (use b x in auto)
  show "length ds \<le> 19" if "x \<le> 2 ^ 63"
    unfolding ds_def length_rev by (rule digit_loop_length) (use b that in auto)
qed

lemma digit_loop_numeral [simp]:
  "digit_loop ds (numeral k) base x =
     ds ! (x mod base) # (if x div base \<noteq> 0 then digit_loop ds (pred_numeral k) base (x div base) else [])"
  by (simp add: numeral_eq_Suc)

section \<open>Properties\<close>

text \<open>C27: The kernel's \<open>printint\<close> prints numbers correctly and within its buffer of 20 bytes: in base
  10 or 16 it prints at most 20 characters, a minus sign exactly when a signed number is
  negative, then digits of the base without a superfluous leading zero whose value is the
  magnitude of the number. This includes the least 64-bit number, whose negation wraps.\<close>

theorem printint_correct:
  assumes "base = 10 \<or> base = 16"
  shows "\<exists>ds. printint xx base sign = (if sign \<and> sint xx < 0 then 0x2D # ds else ds)
     \<and> length (printint xx base sign) \<le> 20 \<and> ds \<noteq> [] \<and> set ds \<subseteq> set (take base digits)
     \<and> num_val base ds = (if sign then nat \<bar>sint xx\<bar> else unat xx)
     \<and> (num_val base ds \<noteq> 0 \<longrightarrow> digit_val (hd ds) \<noteq> 0)"
proof -
  define neg where "neg = (sign \<and> sint xx < 0)"
  define x where "x = unat (if neg then - xx else xx)"
  define ds where "ds = rev (digit_loop digits 64 base x)"
  have x: "x < 2 ^ 64" unfolding x_def using unat_less_exp [of "if neg then - xx else xx"] by simp
  have val: "x = (if sign then nat \<bar>sint xx\<bar> else unat xx)"
    using unat_of_sint [of xx] by (auto simp: x_def neg_def)
  have "neg \<Longrightarrow> x \<le> 2 ^ 63"
    using val sint_range_size [of xx] by (simp add: neg_def word_size)
  moreover have eq: "printint xx base sign = (if neg then 0x2D # ds else ds)"
    by (simp add: printint_def Let_def neg_def [symmetric] ds_def x_def)
  ultimately show ?thesis
    using printint_magnitude [OF assms x alphabets(1), folded ds_def] val neg_def by (intro exI [of _ ds]) auto
qed

theorem printint_correct_witness:
  "(10 = 10 \<or> 10 = (16 :: nat))
     \<and> (\<exists>ds. printint (- 9223372036854775808) 10 True = 0x2D # ds \<and> num_val 10 ds = 9223372036854775808)"
  using printint_correct [of 10 "- 9223372036854775808" True] by (auto simp: sint_sbintrunc_neg)

lemma mod_ucast: "unat (ucast w :: u32) = unat w mod 2 ^ 32" for w :: u64
  by (simp add: unsigned_ucast_eq take_bit_eq_mod)

lemma uprintint_correct:
  assumes "base = 10 \<or> base = 16"
  obtains ds where "uprintint xx base sign = (if sign \<and> sint xx < 0 then 0x2D # ds else ds)"
    and "ds \<noteq> []" and "set ds \<subseteq> set (take base udigits)"
    and "num_val_of udigits base ds = (if sign then nat \<bar>sint xx\<bar> else unat xx) mod 2 ^ 32"
    and "num_val_of udigits base ds \<noteq> 0 \<longrightarrow> digit_val_of udigits (hd ds) \<noteq> 0"
proof -
  define neg where "neg = (sign \<and> sint xx < 0)"
  define x where "x = unat (if neg then ucast (- xx) else (ucast xx :: u32))"
  define ds where "ds = rev (digit_loop udigits 64 base x)"
  have x: "x < 2 ^ 64" unfolding x_def using unat_less_exp [of "if neg then ucast (- xx) else (ucast xx :: u32)"] by simp
  have val: "x = (if sign then nat \<bar>sint xx\<bar> else unat xx) mod 2 ^ 32"
    using unat_of_sint [of xx] unfolding x_def neg_def by (auto simp: mod_ucast)
  have eq: "uprintint xx base sign = (if neg then 0x2D # ds else ds)"
    by (simp add: uprintint_def Let_def neg_def [symmetric] ds_def x_def)
  show thesis
    by (rule that [of ds])
      (use printint_magnitude [OF assms x alphabets(2), folded ds_def] val neg_def eq in auto)
qed

lemma conversions_long:
  assumes "(conv, base, sign) \<in> {(''%ld'', 10, True), (''%lu'', 10, False), (''%lx'', 16, False)}"
  shows "fmt_out pint pptr (bytes_str conv) [ANum w] = pint w base sign" and "base = 10 \<or> base = 16"
  using assms by (auto simp: conversion_def chr0_def bytes_str_def Let_def)

text \<open>C29: The user library's formatter prints long numbers modulo \<open>2 ^ 32\<close>. For \<^verbatim>\<open>%ld\<close>, \<^verbatim>\<open>%lu\<close> and \<^verbatim>\<open>%lx\<close> and every
  64-bit argument, both formatters print the same sign; the kernel's prints the magnitude of the number, the
  library's, which keeps it in a \<open>uint\<close>, the magnitude modulo \<open>2 ^ 32\<close>, without leading zeros.\<close>

theorem user_printf_truncates:
  assumes "(conv, base, sign) \<in> {(''%ld'', 10, True), (''%lu'', 10, False), (''%lx'', 16, False)}"
  shows "\<exists>ds ks.
     vprintf (bytes_str conv) [ANum w] = (if sign \<and> sint w < 0 then 0x2D # ds else ds)
     \<and> fmt_out printint printptr (bytes_str conv) [ANum w] = (if sign \<and> sint w < 0 then 0x2D # ks else ks)
     \<and> set ds \<subseteq> set (take base udigits) \<and> ds \<noteq> []
     \<and> (num_val_of udigits base ds \<noteq> 0 \<longrightarrow> digit_val_of udigits (hd ds) \<noteq> 0)
     \<and> num_val base ks = (if sign then nat \<bar>sint w\<bar> else unat w)
     \<and> num_val_of udigits base ds = num_val base ks mod 2 ^ 32"
proof -
  note c = conversions_long [OF assms]
  define mag where "mag = (if sign then nat \<bar>sint w\<bar> else unat w)"
  obtain ds where ds: "uprintint w base sign = (if sign \<and> sint w < 0 then 0x2D # ds else ds)"
    "ds \<noteq> []" "set ds \<subseteq> set (take base udigits)" "num_val_of udigits base ds = mag mod 2 ^ 32"
    "num_val_of udigits base ds \<noteq> 0 \<longrightarrow> digit_val_of udigits (hd ds) \<noteq> 0"
    unfolding mag_def by (rule uprintint_correct [OF c(2)])
  define neg x where "neg = (sign \<and> sint w < 0)" and "x = unat (if neg then - w else w)"
  have x: "x < 2 ^ 64" unfolding x_def using unat_less_exp [of "if neg then - w else w"] by simp
  have "x = mag" using unat_of_sint [of w] by (auto simp: x_def neg_def mag_def)
  define ks where "ks = rev (digit_loop digits 64 base x)"
  have "num_val base ks = mag" using printint_magnitude(1) [OF c(2) x alphabets(1), folded ks_def] \<open>x = mag\<close> by simp
  moreover have "printint w base sign = (if sign \<and> sint w < 0 then 0x2D # ks else ks)"
    unfolding neg_def [symmetric] ks_def x_def by (simp add: printint_def Let_def neg_def [symmetric] del: digit_loop_numeral)
  ultimately show ?thesis
    unfolding vprintf_def c(1) mag_def [symmetric] using ds by (intro exI [of _ ds] exI [of _ ks] conjI) simp_all
qed

theorem user_printf_truncates_witness:
  "(''%lx'', 16, False) \<in> {(''%ld'', 10, True), (''%lu'', 10, False), (''%lx'', 16 :: nat, False)}
   \<and> (\<exists>ds. vprintf (bytes_str ''%lx'') [ANum 0x100000005] = ds \<and> num_val_of udigits 16 ds = 5)"
  using user_printf_truncates [of "''%lx''" 16 False "0x100000005"] by auto

end
