(* ===== verification/Grep.thy ===== *)
theory Grep
  imports Printf
begin

text \<open>
  The programs that filter text: \<^verbatim>\<open>user/grep.c\<close>, \<^verbatim>\<open>user/wc.c\<close> and \<^verbatim>\<open>user/cat.c\<close>. A C string is the
  list of its bytes before the terminating zero, and a pointer into it is the rest of that list.
  The file a program reads is the list of bytes still to come; what a call of \<open>read\<close> returns is
  a parameter \<open>rd\<close> (given the size of the buffer and the bytes to come), of which \<open>reads\<close> states
  the contract. A run of a program has written bytes to file descriptors 1 and 2, and may have exited.
\<close>

abbreviation NL :: byte where "NL \<equiv> 0x0A"

section \<open>Reading, and runs\<close>

type_synonym reader = "nat \<Rightarrow> byte list \<Rightarrow> int"

definition reads :: "reader \<Rightarrow> bool" where
  "reads rd \<longleftrightarrow> (\<forall>n inp. 0 \<le> rd n inp \<and> rd n inp \<le> int n \<and> rd n inp \<le> int (length inp)
     \<and> (rd n inp = 0 \<longleftrightarrow> n = 0 \<or> inp = []))"

definition rcount :: "int \<Rightarrow> byte list \<Rightarrow> nat" where
  "rcount n inp = min (nat n) (length inp)"

record run =
  r_out :: "byte list"
  r_err :: "byte list"
  r_exit :: "int option"

definition seq :: "run \<Rightarrow> run \<Rightarrow> run" where
  "seq a b = (if r_exit a \<noteq> None then a
     else \<lparr>r_out = r_out a @ r_out b, r_err = r_err a @ r_err b, r_exit = r_exit b\<rparr>)"

definition out1 :: "byte list \<Rightarrow> run" where "out1 bs = \<lparr>r_out = bs, r_err = [], r_exit = None\<rparr>"
definition out2 :: "byte list \<Rightarrow> run" where "out2 bs = \<lparr>r_out = [], r_err = bs, r_exit = None\<rparr>"
definition exits :: "int \<Rightarrow> run" where "exits n = \<lparr>r_out = [], r_err = [], r_exit = Some n\<rparr>"

text \<open>The loop over the file arguments that the three programs share; \<open>f\<close> opens a file, \<open>None\<close> when it cannot.\<close>

fun each_file :: "(byte list \<Rightarrow> byte list option) \<Rightarrow> (byte list \<Rightarrow> run) \<Rightarrow> (byte list \<Rightarrow> byte list \<Rightarrow> run) \<Rightarrow> byte list list \<Rightarrow> run" where
  "each_file f fail go [] = exits 0"
| "each_file f fail go (name # names) =
     (case f name of
        None \<Rightarrow> seq (fail name) (exits 1)
      | Some inp \<Rightarrow> seq (go name inp) (each_file f fail go names))"

section \<open>The matcher of user/grep.c\<close>


abbreviation CARET :: byte where "CARET \<equiv> 0x5E"
abbreviation STAR :: byte where "STAR \<equiv> 0x2A"
abbreviation DOLLAR :: byte where "DOLLAR \<equiv> 0x24"
abbreviation DOT :: byte where "DOT \<equiv> 0x2E"

function matchhere :: "byte list \<Rightarrow> byte list \<Rightarrow> bool"
  and matchstar :: "byte \<Rightarrow> byte list \<Rightarrow> byte list \<Rightarrow> bool" where
  "matchhere re str =
     (case re of
        [] \<Rightarrow> True
      | c # re1 \<Rightarrow>
          (case re1 of
             d # re2 \<Rightarrow>
               if d = STAR then matchstar c re2 str
               else (case str of [] \<Rightarrow> False | t # t1 \<Rightarrow> (c = DOT \<or> c = t) \<and> matchhere re1 t1)
           | [] \<Rightarrow>
               if c = DOLLAR then str = []
               else (case str of [] \<Rightarrow> False | t # t1 \<Rightarrow> (c = DOT \<or> c = t) \<and> matchhere re1 t1)))"
| "matchstar c re str =
     (if matchhere re str then True
      else (case str of [] \<Rightarrow> False | t # t1 \<Rightarrow> (t = c \<or> c = DOT) \<and> matchstar c re t1))"
  by pat_completeness auto
termination
  by (relation "inv_image (less_than <*lex*> less_than) (\<lambda>x. case x of
        Inl (re, str) \<Rightarrow> (length re, length str) | Inr (c, re, str) \<Rightarrow> (Suc (length re), length str))") auto

declare matchhere.simps [simp del] matchstar.simps [simp del]

fun match_from :: "byte list \<Rightarrow> byte list \<Rightarrow> bool" where
  "match_from re str =
     (if matchhere re str then True else (case str of [] \<Rightarrow> False | t # t1 \<Rightarrow> match_from re t1))"

declare match_from.simps [simp del]

definition grep_match :: "byte list \<Rightarrow> byte list \<Rightarrow> bool" where
  "grep_match re str = (case re of c # re1 \<Rightarrow> if c = CARET then matchhere re1 str else match_from re str | [] \<Rightarrow> match_from re str)"

text \<open>The inner loop of \<open>grep\<close> on the contents of its buffer: the lines written, and the bytes left over.
  \<open>strchr\<close> finds the newline unless a zero byte comes first.\<close>

function grep_lines :: "byte list \<Rightarrow> byte list \<Rightarrow> byte list \<times> byte list" where
  "grep_lines pattern p =
     (let line = takeWhile (\<lambda>c. c \<noteq> NL \<and> c \<noteq> 0) p in
      case drop (length line) p of
        [] \<Rightarrow> ([], p)
      | c # rest \<Rightarrow>
          if c = NL then
            let (out, r) = grep_lines pattern rest in
            ((if grep_match pattern line then line @ [NL] else []) @ out, r)
          else ([], p))"
  by pat_completeness auto
termination
  by (relation "measure (\<lambda>(pattern, p). length p)") (auto dest: arg_cong [of _ _ length])

declare grep_lines.simps [simp del]

function grep_loop :: "reader \<Rightarrow> byte list \<Rightarrow> byte list \<Rightarrow> byte list \<Rightarrow> byte list" where
  "grep_loop rd pattern buf inp =
     (let n = rcount (rd (1024 - length buf - 1) inp) inp in
      if n = 0 then []
      else let (out, buf) = grep_lines pattern (buf @ take n inp) in out @ grep_loop rd pattern buf (drop n inp))"
  by pat_completeness auto
termination
  by (relation "measure (\<lambda>(rd, pattern, buf, inp). length inp)") (auto simp: rcount_def)

declare grep_loop.simps [simp del]

definition grep :: "reader \<Rightarrow> byte list \<Rightarrow> byte list \<Rightarrow> byte list" where
  "grep rd pattern inp = grep_loop rd pattern [] inp"

definition grep_main :: "reader \<Rightarrow> (byte list \<Rightarrow> byte list option) \<Rightarrow> byte list \<Rightarrow> byte list list \<Rightarrow> run" where
  "grep_main rd f stdin argv =
     (case tl argv of
        [] \<Rightarrow> seq (out2 (vprintf (bytes_str ''usage: grep pattern [file ...]'' @ [NL]) [])) (exits 1)
      | pattern # names \<Rightarrow>
          if names = [] then seq (out1 (grep rd pattern stdin)) (exits 0)
          else each_file f (\<lambda>name. out1 (vprintf (bytes_str ''grep: cannot open %s'' @ [NL]) [AStr (Some name)]))
                 (\<lambda>name inp. out1 (grep rd pattern inp)) names)"

section \<open>user/wc.c\<close>

record wcount =
  wc_l :: u32
  wc_w :: u32
  wc_c :: u32
  wc_inword :: bool

definition wc_byte :: "byte \<Rightarrow> wcount \<Rightarrow> wcount" where
  "wc_byte b s =
     (let s = s\<lparr>wc_c := wc_c s + 1\<rparr>;
          s = (if b = NL then s\<lparr>wc_l := wc_l s + 1\<rparr> else s) in
      if b \<in> {0x20, 0x0D, 0x09, 0x0A, 0x0B} then s\<lparr>wc_inword := False\<rparr>
      else if \<not> wc_inword s then s\<lparr>wc_w := wc_w s + 1, wc_inword := True\<rparr>
      else s)"

text \<open>\<open>False\<close> when the last \<open>read\<close> failed.\<close>

function wc_loop :: "reader \<Rightarrow> wcount \<Rightarrow> byte list \<Rightarrow> wcount \<times> bool" where
  "wc_loop rd s inp =
     (let r = rd 512 inp; n = rcount r inp in
      if n = 0 then (s, 0 \<le> r) else wc_loop rd (fold wc_byte (take n inp) s) (drop n inp))"
  by pat_completeness auto
termination
  by (relation "measure (\<lambda>(rd, s, inp). length inp)") (auto simp: rcount_def)

declare wc_loop.simps [simp del]

definition wc0 :: wcount where
  "wc0 = \<lparr>wc_l = 0, wc_w = 0, wc_c = 0, wc_inword = False\<rparr>"

definition wc :: "reader \<Rightarrow> byte list \<Rightarrow> byte list \<Rightarrow> run" where
  "wc rd name inp =
     (let (s, ok) = wc_loop rd wc0 inp in
      if \<not> ok then seq (out1 (vprintf (bytes_str ''wc: read error'' @ [NL]) [])) (exits 1)
      else out1 (vprintf (bytes_str ''%d %d %d %s'' @ [NL])
        [ANum (scast (wc_l s)), ANum (scast (wc_w s)), ANum (scast (wc_c s)), AStr (Some name)]))"

definition wc_main :: "reader \<Rightarrow> (byte list \<Rightarrow> byte list option) \<Rightarrow> byte list \<Rightarrow> byte list list \<Rightarrow> run" where
  "wc_main rd f stdin argv =
     (if tl argv = [] then seq (wc rd [] stdin) (exits 0)
      else each_file f (\<lambda>name. out1 (vprintf (bytes_str ''wc: cannot open %s'' @ [NL]) [AStr (Some name)])) (wc rd) (tl argv))"

section \<open>user/cat.c\<close>

text \<open>\<open>wr\<close> is what \<open>write\<close> returns for the bytes it is given: how many of them it wrote, or -1.\<close>

function cat :: "reader \<Rightarrow> (byte list \<Rightarrow> int) \<Rightarrow> byte list \<Rightarrow> run" where
  "cat rd wr inp =
     (let r = rd 512 inp; n = rcount r inp in
      if n = 0 then
        if r < 0 then seq (out2 (vprintf (bytes_str ''cat: read error'' @ [NL]) [])) (exits 1)
        else out1 []
      else let k = wr (take n inp) in
        seq (out1 (take (nat k) (take n inp)))
          (if k \<noteq> int n then seq (out2 (vprintf (bytes_str ''cat: write error'' @ [NL]) [])) (exits 1)
           else cat rd wr (drop n inp)))"
  by pat_completeness auto
termination
  by (relation "measure (\<lambda>(rd, wr, inp). length inp)") (auto simp: rcount_def)

declare cat.simps [simp del]

definition cat_main :: "reader \<Rightarrow> (byte list \<Rightarrow> int) \<Rightarrow> (byte list \<Rightarrow> byte list option) \<Rightarrow> byte list \<Rightarrow> byte list list \<Rightarrow> run" where
  "cat_main rd wr f stdin argv =
     (if tl argv = [] then seq (cat rd wr stdin) (exits 0)
      else each_file f (\<lambda>name. out2 (vprintf (bytes_str ''cat: cannot open %s'' @ [NL]) [AStr (Some name)]))
             (\<lambda>name. cat rd wr) (tl argv))"

section \<open>What the matcher means\<close>

text \<open>A pattern is a sequence of items, each a byte or any byte, once or repeated; \<open>^\<close> first and \<open>$\<close>
  last anchor it.\<close>

datatype item = One byte | Many byte

definition fits :: "byte \<Rightarrow> byte \<Rightarrow> bool" where
  "fits c t \<longleftrightarrow> c = DOT \<or> c = t"

fun items :: "byte list \<Rightarrow> item list" where
  "items [] = []"
| "items [c] = (if c = DOLLAR then [] else [One c])"
| "items (c # d # re) = (if d = STAR then Many c # items re else One c # items (d # re))"

fun anchored_end :: "byte list \<Rightarrow> bool" where
  "anchored_end [] = False"
| "anchored_end [c] = (c = DOLLAR)"
| "anchored_end (c # d # re) = (if d = STAR then anchored_end re else anchored_end (d # re))"

primrec lang :: "item list \<Rightarrow> byte list set" where
  "lang [] = {[]}"
| "lang (i # is) =
     (case i of
        One c \<Rightarrow> {t # u | t u. fits c t \<and> u \<in> lang is}
      | Many c \<Rightarrow> {v @ u | v u. (\<forall>t \<in> set v. fits c t) \<and> u \<in> lang is})"

definition prefix_in :: "byte list \<Rightarrow> byte list \<Rightarrow> bool" where
  "prefix_in re str \<longleftrightarrow> (\<exists>u v. str = u @ v \<and> u \<in> lang (items re) \<and> (anchored_end re \<longrightarrow> v = []))"

lemma prefix_in_Nil: "prefix_in [] str" by (simp add: prefix_in_def)

lemma prefix_in_Many:
  "prefix_in (c # STAR # re) str \<longleftrightarrow> (\<exists>v w. str = v @ w \<and> (\<forall>t \<in> set v. fits c t) \<and> prefix_in re w)"
  (is "?L \<longleftrightarrow> ?R")
proof
  assume ?L
  then obtain u v where u: "str = u @ v" "u \<in> lang (items (c # STAR # re))" "anchored_end re \<longrightarrow> v = []"
    unfolding prefix_in_def by auto
  from u(2) obtain a b where "u = a @ b" "\<forall>t \<in> set a. fits c t" "b \<in> lang (items re)" by auto
  with u(1,3) show ?R by (intro exI [of _ a] exI [of _ "b @ v"]) (auto simp: prefix_in_def)
next
  assume ?R
  then obtain a b v where "str = a @ b @ v" "\<forall>t \<in> set a. fits c t" "b \<in> lang (items re)" "anchored_end re \<longrightarrow> v = []"
    by (auto simp: prefix_in_def)
  then show ?L unfolding prefix_in_def by (intro exI [of _ "a @ b"] exI [of _ v]) auto
qed

lemma prefix_in_One:
  assumes "\<not> (\<exists>re1. re = STAR # re1)" and "re = [] \<longrightarrow> c \<noteq> DOLLAR"
  shows "prefix_in (c # re) str \<longleftrightarrow> (\<exists>t t1. str = t # t1 \<and> fits c t \<and> prefix_in re t1)"
  (is "?L \<longleftrightarrow> ?R")
proof -
  have i: "items (c # re) = One c # items re" "anchored_end (c # re) = anchored_end re"
    using assms by (cases re; auto)+
  show ?thesis
  proof
    assume ?L
    then obtain u v where u: "str = u @ v" "u \<in> lang (items (c # re))" "anchored_end re \<longrightarrow> v = []"
      unfolding prefix_in_def i by blast
    from u(2) obtain t b where "u = t # b" "fits c t" "b \<in> lang (items re)" by (auto simp: i)
    with u(1,3) show ?R by (intro exI [of _ t] exI [of _ "b @ v"]) (auto simp: prefix_in_def)
  next
    assume ?R
    then obtain t b v where "str = t # b @ v" "fits c t" "b \<in> lang (items re)" "anchored_end re \<longrightarrow> v = []"
      by (auto simp: prefix_in_def)
    then show ?L unfolding prefix_in_def i by (intro exI [of _ "t # b"] exI [of _ v]) auto
  qed
qed

lemma prefix_in_Dollar: "prefix_in [DOLLAR] str \<longleftrightarrow> str = []"
  by (simp add: prefix_in_def)

lemma many_unfold:
  "(\<exists>v w. str = v @ w \<and> (\<forall>t \<in> set v. fits c t) \<and> P w) \<longleftrightarrow>
   P str \<or> (\<exists>t t1. str = t # t1 \<and> fits c t \<and> (\<exists>v w. t1 = v @ w \<and> (\<forall>t \<in> set v. fits c t) \<and> P w))"
  (is "?L \<longleftrightarrow> ?R")
proof
  assume ?L
  then obtain v w where "str = v @ w" "\<forall>t \<in> set v. fits c t" "P w" by blast
  then show ?R by (cases v) auto
next
  assume ?R
  then show ?L
  proof
    assume "P str"
    then show ?L by (intro exI [of _ "[]"] exI [of _ str]) simp
  next
    assume "\<exists>t t1. str = t # t1 \<and> fits c t \<and> (\<exists>v w. t1 = v @ w \<and> (\<forall>t \<in> set v. fits c t) \<and> P w)"
    then obtain t v w where "str = t # v @ w" "fits c t" "\<forall>t \<in> set v. fits c t" "P w" by blast
    then show ?L by (intro exI [of _ "t # v"] exI [of _ w]) simp
  qed
qed

lemma match_spec:
  "matchhere re str = prefix_in re str"
  "matchstar c re' str' = (\<exists>v w. str' = v @ w \<and> (\<forall>t \<in> set v. fits c t) \<and> prefix_in re' w)"
proof (induction re str and c re' str' rule: matchhere_matchstar.induct)
  case (1 re str)
  show ?case
  proof (cases re)
    case Nil
    then show ?thesis by (simp add: matchhere.simps prefix_in_Nil)
  next
    case (Cons c re1)
    show ?thesis
    proof (cases "\<exists>re2. re1 = STAR # re2")
      case True
      then obtain re2 where re: "re = c # STAR # re2" using Cons by blast
      show ?thesis using 1(2) [OF re refl refl] by (simp add: re prefix_in_Many matchhere.simps [of "c # STAR # re2"])
    next
      case star: False
      show ?thesis
      proof (cases "re1 = [] \<and> c = DOLLAR")
        case True
        then show ?thesis using Cons by (simp add: prefix_in_Dollar matchhere.simps)
      next
        case False
        have IH: "matchhere re1 t1 = prefix_in re1 t1" if "str = t # t1" for t t1
          using 1(1) [OF Cons _ _ that] 1(3) [OF Cons _ _ that] star False by (cases re1) auto
        have "matchhere re str = (case str of [] \<Rightarrow> False | t # t1 \<Rightarrow> (c = DOT \<or> c = t) \<and> matchhere re1 t1)"
          unfolding Cons using star False by (subst matchhere.simps) (auto split: list.splits)
        also have "\<dots> = prefix_in re str"
          unfolding Cons prefix_in_One [OF star] using False IH by (auto simp: fits_def prefix_in_One star split: list.splits)
        finally show ?thesis .
      qed
    qed
  qed
next
  case (2 c re str)
  show ?case
  proof (cases "matchhere re str")
    case True
    then show ?thesis using 2(1) many_unfold [of str c "prefix_in re"] by (subst matchstar.simps) simp
  next
    case False
    then show ?thesis using 2 many_unfold [of str c "prefix_in re"]
      by (subst matchstar.simps) (cases str, auto simp: fits_def)
  qed
qed


lemma match_from_spec: "match_from re str \<longleftrightarrow> (\<exists>u v. str = u @ v \<and> prefix_in re v)"
proof (induction str)
  case Nil
  show ?case by (subst match_from.simps) (simp add: match_spec)
next
  case (Cons t str)
  have "(\<exists>u v. t # str = u @ v \<and> prefix_in re v) \<longleftrightarrow> prefix_in re (t # str) \<or> (\<exists>u v. str = u @ v \<and> prefix_in re v)"
    by (auto simp: Cons_eq_append_conv)
  then show ?case using Cons by (subst match_from.simps) (simp add: match_spec)
qed

text \<open>The meaning of a whole pattern: some part of the text is in its language, at the start with \<open>^\<close> and at the end with \<open>$\<close>.\<close>

definition matches :: "byte list \<Rightarrow> byte list \<Rightarrow> bool" where
  "matches re str \<longleftrightarrow>
     (let body = (case re of c # re1 \<Rightarrow> if c = CARET then re1 else re | [] \<Rightarrow> re) in
      \<exists>u w v. str = u @ w @ v \<and> w \<in> lang (items body)
        \<and> (re \<noteq> [] \<and> hd re = CARET \<longrightarrow> u = []) \<and> (anchored_end body \<longrightarrow> v = []))"

lemma grep_match_matches: "grep_match re str \<longleftrightarrow> matches re str"
proof (cases re)
  case Nil
  then show ?thesis by (simp add: grep_match_def matches_def match_from_spec prefix_in_def)
next
  case (Cons c re1)
  then show ?thesis
    by (auto simp: grep_match_def matches_def match_from_spec match_spec prefix_in_def Let_def)
qed

section \<open>Lines\<close>

fun lines_of :: "byte list \<Rightarrow> byte list list \<times> byte list" where
  "lines_of [] = ([], [])"
| "lines_of (c # cs) =
     (let (ls, r) = lines_of cs in
      if c = NL then ([] # ls, r) else (case ls of [] \<Rightarrow> ([], c # r) | l # ls' \<Rightarrow> ((c # l) # ls', r)))"

lemma lines_of_line:
  "NL \<notin> set l \<Longrightarrow> lines_of (l @ NL # cs) = (let (ls, r) = lines_of cs in (l # ls, r))"
  by (induction l) (auto split: prod.splits)

lemma lines_of_partial: "NL \<notin> set l \<Longrightarrow> lines_of l = ([], l)"
  by (induction l) auto

lemma lines_of_append:
  "lines_of b = (ls, r) \<Longrightarrow> lines_of (b @ c) = (let (ls', r') = lines_of (r @ c) in (ls @ ls', r'))"
proof (induction b arbitrary: ls r)
  case (Cons x b)
  obtain ls1 r1 where b: "lines_of b = (ls1, r1)" by (cases "lines_of b")
  show ?case
  proof (cases "x = NL \<or> ls1 \<noteq> []")
    case True
    then show ?thesis using Cons.IH [OF b] Cons.prems b by (auto split: prod.splits list.splits simp: append_eq_Cons_conv)
  next
    case False
    then show ?thesis using Cons.IH [OF b] Cons.prems b by (auto split: prod.splits list.splits)
  qed
qed auto

lemma lines_of_rest: "lines_of b = (ls, r) \<Longrightarrow> NL \<notin> set r"
  by (induction b arbitrary: ls r) (auto split: prod.splits list.splits if_splits)

definition chosen :: "byte list \<Rightarrow> byte list list \<Rightarrow> byte list" where
  "chosen pattern ls = concat (map (\<lambda>l. l @ [NL]) (filter (matches pattern) ls))"

lemma chosen_append [simp]: "chosen p (ls @ ls') = chosen p ls @ chosen p ls'"
  by (simp add: chosen_def)

lemma grep_lines_spec:
  "0 \<notin> set p \<Longrightarrow> lines_of p = (ls, r) \<Longrightarrow> grep_lines pattern p = (chosen pattern ls, r)"
proof (induction pattern p arbitrary: ls r rule: grep_lines.induct)
  case (1 pattern p)
  define line where "line = takeWhile (\<lambda>c. c \<noteq> NL \<and> c \<noteq> 0) p"
  have nl: "NL \<notin> set line" unfolding line_def by (auto dest: set_takeWhileD)
  have "p = line @ drop (length line) p" unfolding line_def by (metis dropWhile_eq_drop takeWhile_dropWhile_id)
  show ?case
  proof (cases "drop (length line) p")
    case Nil
    then have "p = line" using \<open>p = line @ _\<close> by simp
    then have "ls = []" "r = p" using nl lines_of_partial [of p] "1.prems"(2) by auto
    then show ?thesis using Nil by (subst grep_lines.simps) (simp add: line_def [symmetric] Let_def chosen_def)
  next
    case (Cons c rest)
    have "c \<in> set p" using Cons by (metis in_set_dropD list.set_intros(1))
    moreover have "c = NL \<or> c = 0" using Cons unfolding line_def
      by (metis (mono_tags, lifting) dropWhile_eq_Cons_conv dropWhile_eq_drop)
    ultimately have "c = NL" using "1.prems"(1) by blast
    then have p: "p = line @ NL # rest" using \<open>p = line @ _\<close> Cons by simp
    obtain ls1 r1 where rest: "lines_of rest = (ls1, r1)" by (cases "lines_of rest")
    have "ls = line # ls1" "r = r1" using lines_of_line [OF nl, of rest] "1.prems"(2) rest p by auto
    moreover have "grep_lines pattern rest = (chosen pattern ls1, r1)"
      using "1.IH" [OF line_def Cons \<open>c = NL\<close> _ rest] "1.prems"(1) p by auto
    ultimately show ?thesis using Cons \<open>c = NL\<close>
      by (subst grep_lines.simps) (simp add: line_def [symmetric] Let_def chosen_def grep_match_matches)
  qed
qed

lemma lines_of_rest_sub: "lines_of b = (ls, r) \<Longrightarrow> set r \<subseteq> set b"
  by (induction b arbitrary: ls r) (fastforce split: prod.splits list.splits if_splits)+

lemma lines_of_first:
  "NL \<notin> set b \<Longrightarrow> lines_of (b @ c) = (l # ls, r) \<Longrightarrow> length b \<le> length l"
  by (induction b arbitrary: l ls r) (auto split: prod.splits list.splits if_splits)

definition short_lines :: "byte list \<Rightarrow> bool" where
  "short_lines inp \<longleftrightarrow> (\<forall>l \<in> set (fst (lines_of inp)). length l < 1023)"

lemma grep_loop_spec:
  "reads rd \<Longrightarrow> NL \<notin> set buf \<Longrightarrow> 0 \<notin> set (buf @ inp) \<Longrightarrow> short_lines (buf @ inp) \<Longrightarrow>
     grep_loop rd pattern buf inp = chosen pattern (fst (lines_of (buf @ inp)))"
proof (induction rd pattern buf inp rule: grep_loop.induct)
  case (1 rd pattern buf inp)
  define n where "n = rcount (rd (1024 - length buf - 1) inp) inp"
  obtain ls r where all: "lines_of (buf @ inp) = (ls, r)" by (cases "lines_of (buf @ inp)")
  show ?case
  proof (cases "n = 0")
    case True
    then have "rd (1024 - length buf - 1) inp \<le> 0 \<or> inp = []" by (simp add: n_def rcount_def min_def split: if_splits)
    then have e: "inp = [] \<or> 1024 - length buf - 1 = 0"
      using "1.prems"(1) unfolding reads_def by (metis dual_order.antisym)
    have "ls = []"
    proof (cases "inp = []")
      case True
      then show ?thesis using all lines_of_partial [OF "1.prems"(2)] by simp
    next
      case False
      then have "1023 \<le> length buf" using e by simp
      then show ?thesis using lines_of_first [OF "1.prems"(2), of inp] all "1.prems"(4)
        by (cases ls) (fastforce simp: short_lines_def)+
    qed
    then show ?thesis using True by (subst grep_loop.simps) (simp add: n_def all chosen_def)
  next
    case False
    obtain ls1 r1 where b: "lines_of (buf @ take n inp) = (ls1, r1)" by (cases "lines_of (buf @ take n inp)")
    obtain ls2 r2 where c: "lines_of (r1 @ drop n inp) = (ls2, r2)" by (cases "lines_of (r1 @ drop n inp)")
    have ls: "ls = ls1 @ ls2" using lines_of_append [OF b, of "drop n inp"] c all by simp
    have z: "0 \<notin> set (buf @ take n inp)" "0 \<notin> set r1"
      using "1.prems"(3) lines_of_rest_sub [OF b] by (auto dest: in_set_takeD)
    have gl: "grep_lines pattern (buf @ take n inp) = (chosen pattern ls1, r1)"
      by (rule grep_lines_spec [OF z(1) b])
    have "grep_loop rd pattern r1 (drop n inp) = chosen pattern (fst (lines_of (r1 @ drop n inp)))"
    proof (rule "1.IH" [OF n_def False gl [symmetric] refl])
      show "0 \<notin> set (r1 @ drop n inp)" using z(2) "1.prems"(3) by (auto dest: in_set_dropD)
      show "short_lines (r1 @ drop n inp)" using "1.prems"(4) all c ls by (simp add: short_lines_def)
    qed (use "1.prems"(1) lines_of_rest [OF b] in auto)
    then show ?thesis using False gl
      unfolding grep_loop.simps [of rd pattern buf inp] n_def [symmetric] by (simp add: all c ls)
  qed
qed

text \<open>C20: \<open>match\<close> accepts a text if and only if some part of it is in the regular language of the
  pattern: \<open>c\<close> one byte, \<open>.\<close> any byte, \<open>x*\<close> any number of them, the part at the start of the text when the
  pattern begins with \<open>^\<close> and at its end when it ends with \<open>$\<close>.\<close>

theorem grep_match_correct: "grep_match re str \<longleftrightarrow> matches re str"
  by (rule grep_match_matches)

text \<open>C22: \<open>grep\<close> writes the newline-terminated lines that match, in order, however \<open>read\<close> cuts the
  file into pieces, as long as the file has no zero byte and no line of 1023 bytes or more.\<close>

theorem grep_correct:
  assumes "reads rd" and "0 \<notin> set inp" and "short_lines inp"
  shows "grep rd pattern inp = concat (map (\<lambda>l. l @ [NL]) (filter (matches pattern) (fst (lines_of inp))))"
  using grep_loop_spec [of rd "[]" inp pattern] assms by (simp add: grep_def chosen_def)

definition rd7 :: reader where
  "rd7 n inp = int (min n (min 7 (length inp)))"

lemma rd7_reads: "reads rd7"
  by (auto simp: reads_def rd7_def min_def)

theorem grep_correct_witness:
  "grep rd7 (bytes_str ''b*c$'') (bytes_str ''abbc'' @ [NL] @ bytes_str ''cb'' @ [NL] @ bytes_str ''c'') = bytes_str ''abbc'' @ [NL]"
proof -
  have "matches (bytes_str ''b*c$'') (bytes_str ''abbc'') \<and> \<not> matches (bytes_str ''b*c$'') (bytes_str ''cb'')"
    unfolding grep_match_matches [symmetric] by code_simp
  then show ?thesis
    using grep_correct [OF rd7_reads, of "bytes_str ''abbc'' @ [NL] @ bytes_str ''cb'' @ [NL] @ bytes_str ''c''" "bytes_str ''b*c$''"]
    by (simp add: bytes_str_def short_lines_def)
qed

lemma grep_loop_long:
  "reads rd \<Longrightarrow> buf @ inp = l @ rest \<Longrightarrow> length buf \<le> 1023 \<Longrightarrow> length l = 1023 \<Longrightarrow> NL \<notin> set l \<Longrightarrow> 0 \<notin> set l \<Longrightarrow>
     grep_loop rd pattern buf inp = []"
proof (induction rd pattern buf inp rule: grep_loop.induct)
  case (1 rd pattern buf inp)
  define n where "n = rcount (rd (1024 - length buf - 1) inp) inp"
  have r: "0 \<le> rd k inp" "rd k inp \<le> int k" for k using "1.prems"(1) unfolding reads_def by simp_all
  show ?case
  proof (cases "n = 0")
    case True
    then show ?thesis unfolding grep_loop.simps [of rd pattern buf inp] n_def [symmetric] by simp
  next
    case False
    have le: "n \<le> 1023 - length buf" using r(1,2) [of "1023 - length buf"] by (simp add: n_def rcount_def)
    have "buf @ take n inp = take (length buf + n) (l @ rest)" using "1.prems"(2) by (metis add_diff_cancel_left' le_add1 take_all take_append)
    also have "\<dots> = take (length buf + n) l" using le "1.prems"(3,4) by simp
    finally have eq: "buf @ take n inp = take (length buf + n) l" .
    then have s: "set (buf @ take n inp) \<subseteq> set l" by (metis set_take_subset)
    have gl: "grep_lines pattern (buf @ take n inp) = ([], buf @ take n inp)"
      using grep_lines_spec [OF _ lines_of_partial, of "buf @ take n inp" pattern] s "1.prems"(5,6)
      by (fastforce simp: chosen_def)
    have "grep_loop rd pattern (buf @ take n inp) (drop n inp) = []"
      by (rule "1.IH" [OF n_def False gl [symmetric] refl]) (use "1.prems" le in \<open>simp_all\<close>)
    then show ?thesis using False gl unfolding grep_loop.simps [of rd pattern buf inp] n_def [symmetric] by simp
  qed
qed

text \<open>C32: Once a line of 1023 bytes without its newline fills the buffer, \<open>grep\<close> stops without an error
  message: nothing of the rest of the file is looked at.\<close>

theorem grep_stops_at_long_line:
  assumes "reads rd" and "length l = 1023" and "NL \<notin> set l" and "0 \<notin> set l"
  shows "grep rd pattern (l @ NL # inp) = []"
  unfolding grep_def by (rule grep_loop_long [of _ _ _ l]) (use assms in auto)

theorem grep_stops_at_long_line_witness:
  "matches (bytes_str ''a'') (bytes_str ''a'')
   \<and> grep rd7 (bytes_str ''a'') (replicate 1023 0x61 @ NL # bytes_str ''a'' @ [NL]) = []"
proof
  show "matches (bytes_str ''a'') (bytes_str ''a'')" unfolding grep_match_matches [symmetric] by code_simp
  show "grep rd7 (bytes_str ''a'') (replicate 1023 0x61 @ NL # bytes_str ''a'' @ [NL]) = []"
    by (rule grep_stops_at_long_line [OF rd7_reads]) simp_all
qed

lemma wc_loop_spec: "reads rd \<Longrightarrow> wc_loop rd s inp = (fold wc_byte inp s, True)"
proof (induction rd s inp rule: wc_loop.induct)
  case (1 rd s inp)
  have r: "0 \<le> rd 512 inp" "rd 512 inp \<le> int (length inp)" "rd 512 inp = 0 \<longleftrightarrow> inp = []"
    using "1.prems" unfolding reads_def by simp_all
  then have z: "rcount (rd 512 inp) inp = 0 \<longleftrightarrow> inp = []" by (auto simp: rcount_def)
  show ?case
  proof (cases "inp = []")
    case True
    then show ?thesis using r by (subst wc_loop.simps) (simp add: rcount_def)
  next
    case False
    define n where "n = rcount (rd 512 inp) inp"
    have "n \<noteq> 0" using False z by (simp add: n_def)
    have "fold wc_byte (drop n inp) (fold wc_byte (take n inp) s) = fold wc_byte inp s"
      by (metis append_take_drop_id fold_append comp_apply)
    then show ?thesis
      using "1.IH" [OF refl n_def \<open>n \<noteq> 0\<close> "1.prems"] \<open>n \<noteq> 0\<close>
      unfolding wc_loop.simps [of rd s inp] n_def [symmetric] Let_def by simp
  qed
qed


text \<open>What \<open>wc\<close> counts: newlines, bytes, and words, the maximal runs of bytes that are not separators.\<close>

definition blank :: "byte \<Rightarrow> bool" where
  "blank b \<longleftrightarrow> b \<in> {0x20, 0x0D, 0x09, 0x0A, 0x0B}"

fun words_from :: "bool \<Rightarrow> byte list \<Rightarrow> nat" where
  "words_from inw [] = 0"
| "words_from inw (b # bs) = (if blank b then words_from False bs else (if inw then 0 else 1) + words_from True bs)"

lemma words_from_True: "words_from True bs = words_from False (dropWhile (\<lambda>b. \<not> blank b) bs)"
  by (induction bs) auto

text \<open>The words of a text, read independently of the loop.\<close>

function word_list :: "byte list \<Rightarrow> byte list list" where
  "word_list bs =
     (case dropWhile blank bs of
        [] \<Rightarrow> []
      | c # cs \<Rightarrow> takeWhile (\<lambda>b. \<not> blank b) (c # cs) # word_list (dropWhile (\<lambda>b. \<not> blank b) cs))"
  by pat_completeness auto
termination
proof (relation "measure length", simp)
  fix bs c cs
  assume a: "dropWhile blank bs = c # cs"
  have "length (dropWhile (\<lambda>b. \<not> blank b) cs) \<le> length cs" by (rule length_dropWhile_le)
  also have "length cs < length (dropWhile blank bs)" by (simp add: a)
  also have "\<dots> \<le> length bs" by (rule length_dropWhile_le)
  finally show "(dropWhile (\<lambda>b. \<not> blank b) cs, bs) \<in> measure length" by simp
qed

declare word_list.simps [simp del]

lemma words_from_blank: "words_from False bs = words_from False (dropWhile blank bs)"
  by (induction bs) auto

lemma words_from_list: "words_from False bs = length (word_list bs)"
proof (induction bs rule: word_list.induct)
  case (1 bs)
  show ?case
  proof (cases "dropWhile blank bs")
    case Nil
    then show ?thesis unfolding words_from_blank [of bs] word_list.simps [of bs] Nil by simp
  next
    case (Cons c cs)
    then have "\<not> blank c" by (metis dropWhile_eq_Cons_conv)
    then show ?thesis using 1 [OF Cons] Cons
      by (subst words_from_blank, subst word_list.simps) (simp add: words_from_True)
  qed
qed

lemma wc_fold:
  "wc_l (fold wc_byte bs s) = wc_l s + of_nat (count_list bs NL)"
  "wc_c (fold wc_byte bs s) = wc_c s + of_nat (length bs)"
  "wc_w (fold wc_byte bs s) = wc_w s + of_nat (words_from (wc_inword s) bs)"
  by (induction bs arbitrary: s) (auto simp: wc_byte_def blank_def Let_def)

text \<open>\<open>wc\<close> prints the number of newlines, words and bytes of the file, as 32-bit integers, however
  \<open>read\<close> cuts the file into pieces.\<close>

theorem wc_correct:
  assumes "reads rd"
  shows "wc rd name inp = out1 (vprintf (bytes_str ''%d %d %d %s'' @ [NL])
    [ANum (scast (of_nat (count_list inp NL) :: u32)), ANum (scast (of_nat (length (word_list inp)) :: u32)),
     ANum (scast (of_nat (length inp) :: u32)), AStr (Some name)])"
  by (simp add: wc_def wc_loop_spec [OF assms] wc_fold wc0_def words_from_list)

theorem wc_correct_witness:
  "wc rd7 (bytes_str ''f'') (bytes_str ''ab  cd'' @ [NL]) = out1 (bytes_str ''1 2 7 f'' @ [NL])"
proof -
  have "vprintf (bytes_str ''%d %d %d %s'' @ [NL])
    [ANum (scast (of_nat (count_list (bytes_str ''ab  cd'' @ [NL]) NL) :: u32)), ANum (scast (of_nat (length (word_list (bytes_str ''ab  cd'' @ [NL]))) :: u32)),
     ANum (scast (of_nat (length (bytes_str ''ab  cd'' @ [NL])) :: u32)), AStr (Some (bytes_str ''f''))] = bytes_str ''1 2 7 f'' @ [NL]"
    by code_simp
  then show ?thesis using wc_correct [OF rd7_reads, of "bytes_str ''f''" "bytes_str ''ab  cd'' @ [NL]"] by simp
qed

lemma cat_spec:
  "reads rd \<Longrightarrow> (\<And>bs. wr bs = int (length bs)) \<Longrightarrow> cat rd wr inp = out1 inp"
proof (induction rd wr inp rule: cat.induct)
  case (1 rd wr inp)
  define n where "n = rcount (rd 512 inp) inp"
  have r: "0 \<le> rd 512 inp" "rd 512 inp \<le> int (length inp)" "rd 512 inp = 0 \<longleftrightarrow> inp = []"
    using "1.prems"(1) unfolding reads_def by simp_all
  then have z: "n = 0 \<longleftrightarrow> inp = []" "n \<le> length inp" by (auto simp: rcount_def n_def)
  show ?case
  proof (cases "n = 0")
    case True
    then show ?thesis using z r(1) unfolding cat.simps [of rd wr inp] n_def [symmetric] Let_def by simp
  next
    case False
    have "cat rd wr (drop n inp) = out1 (drop n inp)"
      by (rule "1.IH" [OF refl n_def False refl]) (use "1.prems" z(2) in simp_all)
    then show ?thesis using False z(2) "1.prems"(2) [of "take n inp"]
      unfolding cat.simps [of rd wr inp] n_def [symmetric] Let_def by (simp add: seq_def out1_def)
  qed
qed

lemma each_file_all:
  "(\<And>name. name \<in> set names \<Longrightarrow> \<exists>bs. f name = Some bs \<and> go name bs = out1 (h name)) \<Longrightarrow>
     each_file f fail go names = seq (out1 (concat (map h names))) (exits 0)"
proof (induction names)
  case (Cons a names)
  obtain bs where "f a = Some bs" "go a bs = out1 (h a)" using Cons.prems [of a] by auto
  moreover have "each_file f fail go names = seq (out1 (concat (map h names))) (exits 0)"
    using Cons by simp
  ultimately show ?case by (simp add: seq_def out1_def exits_def)
qed (simp add: seq_def out1_def exits_def)

text \<open>\<open>cat\<close> of files that all open writes their contents one after the other and exits with 0, when
  every \<open>write\<close> takes all it is given.\<close>

theorem cat_concatenates:
  assumes "reads rd" and "\<forall>bs. wr bs = int (length bs)" and "names \<noteq> []"
    and "\<forall>name \<in> set names. f name = Some (contents name)"
  shows "cat_main rd wr f stdin (prog # names) = \<lparr>r_out = concat (map contents names), r_err = [], r_exit = Some 0\<rparr>"
proof -
  have "each_file f fail (\<lambda>name. cat rd wr) names = seq (out1 (concat (map contents names))) (exits 0)" for fail
    by (rule each_file_all) (use assms(4) cat_spec [OF assms(1)] assms(2) in simp)
  then show ?thesis using assms(3) by (simp add: cat_main_def seq_def out1_def exits_def)
qed

theorem cat_concatenates_witness:
  "cat_main rd7 (\<lambda>bs. int (length bs)) (\<lambda>name. Some (name @ [NL])) [] [bytes_str ''cat'', bytes_str ''a'', bytes_str ''b'']
   = \<lparr>r_out = bytes_str ''a'' @ [NL] @ bytes_str ''b'' @ [NL], r_err = [], r_exit = Some 0\<rparr>"
  using cat_concatenates [OF rd7_reads, of "\<lambda>bs. int (length bs)" "[bytes_str ''a'', bytes_str ''b'']"
    "\<lambda>name. Some (name @ [NL])" "\<lambda>name. name @ [NL]" "[]" "bytes_str ''cat''"] by simp

end
