(* ===== verification/Shell.thy ===== *)
theory Shell
  imports Printf
begin

text \<open>
  The parser of the shell, \<^verbatim>\<open>user/sh.c\<close>. The line is the list \<open>b\<close> of its bytes before the terminating
  zero, a pointer into it is an index, \<open>es\<close> is its end. A command is a \<open>cmd\<close> over its words: pairs
  of indices \<open>(q, eq)\<close> while parsing (the fields \<open>argv\<close> and \<open>eargv\<close>, \<open>file\<close> and \<open>efile\<close>), byte strings
  afterwards. The assignments to \<open>cmd->argv\<close> in \<open>parseexec\<close>, where \<open>cmd\<close> is the command below the
  redirections of \<open>ret\<close>, are \<open>add_arg\<close>. A call of \<open>panic\<close> is an error value. The mutually recursive
  functions take fuel; \<open>parse_fuel\<close> shows that what \<open>parsecmd\<close> gives them is enough for any line.
\<close>

section \<open>Commands\<close>

datatype 'w cmd =
    EXEC "'w list"
  | REDIR "'w cmd" 'w nat nat
  | PIPE "'w cmd" "'w cmd"
  | LIST "'w cmd" "'w cmd"
  | BACK "'w cmd"

type_synonym pword = "nat \<times> nat"

datatype perr = Panics string | Leftovers nat | NoFuel

definition whitespace :: "byte list" where "whitespace = [0x20, 0x09, 0x0D, 0x0A, 0x0B]"
definition symbols :: "byte list" where "symbols = bytes_str ''<|>&;()''"

abbreviation (input) MAXARGS :: nat where "MAXARGS \<equiv> 10"
abbreviation (input) O_RDONLY :: nat where "O_RDONLY \<equiv> 0"
abbreviation (input) O_WRONLY_CREATE :: nat where "O_WRONLY_CREATE \<equiv> 0x201"
abbreviation (input) O_WRONLY_CREATE_TRUNC :: nat where "O_WRONLY_CREATE_TRUNC \<equiv> 0x601"

section \<open>Tokens\<close>

function skip_while :: "(byte \<Rightarrow> bool) \<Rightarrow> byte list \<Rightarrow> nat \<Rightarrow> nat \<Rightarrow> nat" where
  "skip_while P b es s = (if s < es \<and> P (chr0 b s) then skip_while P b es (Suc s) else s)"
  by pat_completeness auto
termination
  by (relation "measure (\<lambda>(P, b, es, s). es - s)") auto

declare skip_while.simps [simp del]

definition gettoken :: "byte list \<Rightarrow> nat \<Rightarrow> nat \<Rightarrow> byte \<times> nat \<times> nat \<times> nat" where
  "gettoken b es ps =
     (let s = skip_while (\<lambda>c. c \<in> set whitespace) b es ps;
          q = s;
          (ret, s) =
            (let c = chr0 b s in
             if c = 0 then (0, s)
             else if c \<in> set (bytes_str ''|();&<'') then (c, Suc s)
             else if c = 0x3E then (if chr0 b (Suc s) = 0x3E then (0x2B, Suc (Suc s)) else (c, Suc s))
             else (0x61, skip_while (\<lambda>c. c \<notin> set whitespace \<and> c \<notin> set symbols) b es s));
          eq = s;
          s = skip_while (\<lambda>c. c \<in> set whitespace) b es s in
      (ret, q, eq, s))"

definition peek :: "byte list \<Rightarrow> nat \<Rightarrow> nat \<Rightarrow> byte list \<Rightarrow> bool \<times> nat" where
  "peek b es ps toks =
     (let s = skip_while (\<lambda>c. c \<in> set whitespace) b es ps in
      (chr0 b s \<noteq> 0 \<and> chr0 b s \<in> set toks, s))"

lemma skip_while_bounds [simp]:
  "s \<le> skip_while P b es s"
  "s \<le> es \<Longrightarrow> skip_while P b es s \<le> es"
  by (induction P b es s rule: skip_while.induct) (subst skip_while.simps; auto)+

lemma skip_while_stops: "s \<le> es \<Longrightarrow> skip_while P b es s = es \<or> \<not> P (chr0 b (skip_while P b es s))"
  by (induction P b es s rule: skip_while.induct) (subst (1 2) skip_while.simps; auto)

lemma skip_while_all: "s \<le> i \<Longrightarrow> i < skip_while P b es s \<Longrightarrow> P (chr0 b i)"
proof (induction P b es s rule: skip_while.induct)
  case (1 P b es s)
  then show ?case using skip_while.simps [of P b es s] by (cases "i = s") (auto split: if_splits)
qed

lemma skip_while_step: "s < es \<Longrightarrow> P (chr0 b s) \<Longrightarrow> s < skip_while P b es s"
  by (subst skip_while.simps) (simp add: Suc_le_lessD)

lemma peek_bounds: "peek b es ps toks = (r, s) \<Longrightarrow> ps \<le> s \<and> (ps \<le> es \<longrightarrow> s \<le> es)"
  by (auto simp: peek_def Let_def)

lemma chr0_end [simp]: "length b \<le> i \<Longrightarrow> chr0 b i = 0"
  by (simp add: chr0_def)

lemma chr0_bound: "chr0 b i \<noteq> 0 \<Longrightarrow> i < length b"
  by (simp add: chr0_def split: if_splits)

lemma whitespace_nz [simp]: "0 \<notin> set whitespace" by (simp add: whitespace_def)

definition wordch :: "byte \<Rightarrow> bool" where
  "wordch c \<longleftrightarrow> c \<noteq> 0 \<and> c \<notin> set whitespace \<and> c \<notin> set symbols"

text \<open>\<open>(q, eq)\<close> delimits a word of the line: not empty, made of word bytes, followed by none.\<close>

definition word_at :: "byte list \<Rightarrow> pword \<Rightarrow> bool" where
  "word_at b w = (case w of (q, eq) \<Rightarrow> q < eq \<and> eq \<le> length b \<and> (\<forall>i. q \<le> i \<and> i < eq \<longrightarrow> wordch (chr0 b i))
     \<and> \<not> wordch (chr0 b eq))"

lemma gettoken_bounds:
  assumes "gettoken b (length b) ps = (t, q, eq, s)" and "ps \<le> length b"
  shows "ps \<le> s \<and> s \<le> length b \<and> (t \<noteq> 0 \<longrightarrow> ps < s)"
proof -
  define ws where "ws = (\<lambda>c :: byte. c \<in> set whitespace)"
  define wc where "wc = (\<lambda>c :: byte. c \<notin> set whitespace \<and> c \<notin> set symbols)"
  define u where "u = skip_while ws b (length b) ps"
  have u: "ps \<le> u" "u \<le> length b" using assms(2) by (simp_all add: u_def)
  let ?c = "chr0 b u"
  show ?thesis
  proof (cases "?c = 0")
    case True
    then have "s = skip_while ws b (length b) u" "t = 0"
      using assms(1) unfolding gettoken_def ws_def [symmetric] wc_def [symmetric] u_def [symmetric] Let_def by auto
    then show ?thesis using u by (metis skip_while_bounds le_trans)
  next
    case False
    then have lt: "u < length b" by (rule chr0_bound)
    obtain v where v: "s = skip_while ws b (length b) v"
      and c: "v = Suc u \<or> (v = Suc (Suc u) \<and> chr0 b (Suc u) \<noteq> 0) \<or> (v = skip_while wc b (length b) u \<and> wc ?c)"
      using assms(1) False skip_while_stops [OF assms(2), of ws b]
      unfolding gettoken_def ws_def [symmetric] wc_def [symmetric] u_def [symmetric] Let_def
      by (auto simp: wc_def symbols_def bytes_str_def ws_def split: if_splits)
    then have "u < v \<and> v \<le> length b"
      using lt chr0_bound [of b "Suc u"] skip_while_step [of u "length b" wc b] u(2) by auto
    then show ?thesis using v u(1) by (metis skip_while_bounds le_trans less_le_trans le_less_trans less_imp_le)
  qed
qed

lemma gettoken_word:
  assumes "gettoken b (length b) ps = (0x61, q, eq, s)" and "ps \<le> length b" and "0 \<notin> set b"
  shows "word_at b (q, eq)"
proof -
  define wc where "wc = (\<lambda>c :: byte. c \<notin> set whitespace \<and> c \<notin> set symbols)"
  have q: "q \<le> length b" "q = length b \<or> chr0 b q \<notin> set whitespace" "chr0 b q \<noteq> 0" "chr0 b q \<notin> set symbols"
     "eq = skip_while wc b (length b) q"
    using assms(1,2) skip_while_stops [OF assms(2), of "\<lambda>c. c \<in> set whitespace" b]
    unfolding gettoken_def wc_def [symmetric] Let_def by (auto simp: bytes_str_def symbols_def split: if_splits)
  have lt: "q < length b" using q(3) by (rule chr0_bound)
  then have "wc (chr0 b q)" using q by (simp add: wc_def)
  then have "q < eq" using skip_while_step [OF lt] q(5) by simp
  moreover have le: "eq \<le> length b" using q(1,5) by simp
  moreover have "wordch (chr0 b i)" if "q \<le> i" "i < eq" for i
  proof -
    have "wc (chr0 b i)" using skip_while_all [of q i wc b "length b"] that q(5) by simp
    moreover have "chr0 b i \<noteq> 0" using that le assms(3) by (metis chr0_def less_le_trans nth_mem)
    ultimately show ?thesis by (simp add: wordch_def wc_def)
  qed
  moreover have "\<not> wordch (chr0 b eq)"
    using skip_while_stops [OF q(1), of wc b] q(5) by (auto simp: wordch_def wc_def)
  ultimately show ?thesis by (simp add: word_at_def)
qed

lemma peek_True: "peek b es ps toks = (True, s) \<Longrightarrow> ps \<le> s \<and> s < length b"
  by (auto simp: peek_def Let_def intro: chr0_bound)

lemma peek_cases:
  obtains (yes) s where "peek b es ps toks = (True, s)" | (no) s where "peek b es ps toks = (False, s)"
  by (cases "peek b es ps toks") (metis (full_types))

lemma peek_gettoken:
  assumes "peek b (length b) ps toks = (True, s)" and "gettoken b (length b) s = (t, q, eq, s')"
  shows "t \<noteq> 0"
proof -
  have ps: "ps \<le> length b" using peek_True [OF assms(1)] by simp
  have c: "chr0 b s \<noteq> 0" "chr0 b s \<notin> set whitespace"
    using assms(1) skip_while_stops [OF ps, of "\<lambda>c. c \<in> set whitespace" b]
    by (auto simp: peek_def Let_def)
  then have "skip_while (\<lambda>c. c \<in> set whitespace) b (length b) s = s" by (subst skip_while.simps) simp
  then show ?thesis using assms(2) c by (auto simp: gettoken_def Let_def split: if_splits)
qed

lemma peek_gettoken_bounds:
  assumes "peek b (length b) ps toks = (True, s)" and "gettoken b (length b) s = (t, q, eq, s')"
  shows "ps < s' \<and> s' \<le> length b"
  using peek_True [OF assms(1)] gettoken_bounds [OF assms(2)] peek_gettoken [OF assms] by fastforce

lemma redir_progress:
  assumes "peek b (length b) ps toks = (True, p1)" and "gettoken b (length b) p1 = (tok, q1, eq1, p2)"
    and "gettoken b (length b) p2 = (t, q, eq, p3)"
  shows "ps < p3 \<and> p3 \<le> length b \<and> length b - p3 < length b - ps"
  using peek_gettoken_bounds [OF assms(1,2)] gettoken_bounds [OF assms(3)] by auto

section \<open>The parser\<close>

fun add_arg :: "'w \<Rightarrow> 'w cmd \<Rightarrow> 'w cmd" where
  "add_arg w (EXEC ws) = EXEC (ws @ [w])"
| "add_arg w (REDIR c f mode fd) = REDIR (add_arg w c) f mode fd"
| "add_arg w c = c"

definition redirect :: "byte \<Rightarrow> 'w cmd \<Rightarrow> 'w \<Rightarrow> 'w cmd" where
  "redirect tok cmd w =
     (if tok = 0x3C then REDIR cmd w O_RDONLY 0
      else if tok = 0x3E then REDIR cmd w O_WRONLY_CREATE_TRUNC 1
      else if tok = 0x2B then REDIR cmd w O_WRONLY_CREATE 1
      else cmd)"

function parseredirs :: "byte list \<Rightarrow> pword cmd \<Rightarrow> nat \<Rightarrow> perr + pword cmd \<times> nat" where
  "parseredirs b cmd ps =
     (let es = length b in
      case peek b es ps (bytes_str ''<>'') of
        (False, ps) \<Rightarrow> Inr (cmd, ps)
      | (True, ps) \<Rightarrow>
          (case gettoken b es ps of (tok, _, _, ps) \<Rightarrow>
           case gettoken b es ps of (t, q, eq, ps) \<Rightarrow>
             if t \<noteq> 0x61 then Inl (Panics ''missing file for redirection'')
             else parseredirs b (redirect tok cmd (q, eq)) ps))"
  by pat_completeness auto
termination
  by (relation "measure (\<lambda>(b, cmd, ps). length b - ps)") (auto dest: redir_progress [OF sym sym sym] redir_progress)

declare parseredirs.simps [simp del]

lemma parseredirs_cases:
  assumes "parseredirs b cmd ps = Inr r"
  obtains (stop) s where "peek b (length b) ps (bytes_str ''<>'') = (False, s)" "r = (cmd, s)"
  | (more) p1 tok q1 eq1 p2 q eq p3 where "peek b (length b) ps (bytes_str ''<>'') = (True, p1)"
      "gettoken b (length b) p1 = (tok, q1, eq1, p2)" "gettoken b (length b) p2 = (0x61, q, eq, p3)"
      "parseredirs b (redirect tok cmd (q, eq)) p3 = Inr r"
  using assms by (subst (asm) parseredirs.simps) (auto simp: Let_def split: prod.splits bool.splits if_splits)

lemma parseredirs_inv:
  "parseredirs b c ps = Inr (c', s) \<Longrightarrow> ps \<le> length b \<Longrightarrow> 0 \<notin> set b \<Longrightarrow> P c \<Longrightarrow>
   (\<And>c w m fd. P c \<Longrightarrow> word_at b w \<Longrightarrow> P (REDIR c w m fd)) \<Longrightarrow> P c' \<and> ps \<le> s \<and> s \<le> length b"
proof (induction "length b - ps" arbitrary: c ps rule: less_induct)
  case less
  from less.prems(1) show ?case
  proof (cases rule: parseredirs_cases)
    case (stop s')
    then show ?thesis using less.prems peek_bounds [OF stop(1)] by simp
  next
    case (more p1 tok q1 eq1 p2 q eq p3)
    note pr = redir_progress [OF more(1-3)]
    have "p2 \<le> length b" using peek_gettoken_bounds [OF more(1,2)] by simp
    then have w: "word_at b (q, eq)" by (rule gettoken_word [OF more(3) _ less.prems(3)])
    have "P (redirect tok c (q, eq))" using less.prems(4,5) w by (simp add: redirect_def)
    then show ?thesis using less.hyps [OF _ more(4) _ less.prems(3)] less.prems(5) pr by auto
  qed
qed

lemma parseredirs_pos: "parseredirs b c ps = Inr (c', s) \<Longrightarrow> ps \<le> length b \<Longrightarrow> ps \<le> s \<and> s \<le> length b"
proof (induction "length b - ps" arbitrary: c ps rule: less_induct)
  case less
  from less.prems(1) show ?case
  proof (cases rule: parseredirs_cases)
    case (stop s')
    then show ?thesis using less.prems peek_bounds [OF stop(1)] by simp
  next
    case (more p1 tok q1 eq1 p2 q eq p3)
    then show ?thesis using less.hyps [OF _ more(4)] redir_progress [OF more(1-3)] by auto
  qed
qed

lemma gettoken_lt: "gettoken b es ps = (t, q, eq, s) \<Longrightarrow> t \<noteq> 0 \<Longrightarrow> ps < length b"
  using chr0_bound [of b "skip_while (\<lambda>c. c \<in> set whitespace) b es ps"]
    skip_while_bounds(1) [of ps "\<lambda>c. c \<in> set whitespace" b es]
    le_less_trans [of ps "skip_while (\<lambda>c. c \<in> set whitespace) b es ps" "length b"]
  by (simp add: gettoken_def Let_def) (auto split: if_splits)

lemma args_progress:
  assumes "peek b (length b) ps toks = (r, p1)" and "gettoken b (length b) p1 = (0x61, q, eq, p2)"
    and "parseredirs b c p2 = Inr (c', p3)"
  shows "ps < p3 \<and> p3 \<le> length b \<and> length b - p3 < length b - ps"
proof -
  have "ps \<le> p1" using peek_bounds [OF assms(1)] by simp
  moreover have "p1 < length b" using gettoken_lt [OF assms(2)] by simp
  moreover have "p1 < p2" "p2 \<le> length b" using gettoken_bounds [OF assms(2)] \<open>p1 < length b\<close> by auto
  moreover have "p2 \<le> p3" "p3 \<le> length b" using parseredirs_pos [OF assms(3)] \<open>p2 \<le> length b\<close> by auto
  ultimately show ?thesis by auto
qed

function parseexec_args :: "byte list \<Rightarrow> pword cmd \<Rightarrow> nat \<Rightarrow> nat \<Rightarrow> perr + pword cmd \<times> nat" where
  "parseexec_args b ret argc ps =
     (let es = length b in
      case peek b es ps (bytes_str ''|)&;'') of
        (True, ps) \<Rightarrow> Inr (ret, ps)
      | (False, ps) \<Rightarrow>
          (case gettoken b es ps of (tok, q, eq, ps) \<Rightarrow>
             if tok = 0 then Inr (ret, ps)
             else if tok \<noteq> 0x61 then Inl (Panics ''syntax'')
             else
               let ret = add_arg (q, eq) ret; argc = Suc argc in
               if MAXARGS \<le> argc then Inl (Panics ''too many args'')
               else (case parseredirs b ret ps of Inl e \<Rightarrow> Inl e | Inr (ret, ps) \<Rightarrow> parseexec_args b ret argc ps)))"
  by pat_completeness auto
termination
  by (relation "measure (\<lambda>(b, ret, argc, ps). length b - ps)") (auto dest: args_progress [OF sym sym])

declare parseexec_args.simps [simp del]

function parse_back :: "byte list \<Rightarrow> pword cmd \<Rightarrow> nat \<Rightarrow> pword cmd \<times> nat" where
  "parse_back b cmd ps =
     (let es = length b in
      case peek b es ps (bytes_str ''&'') of
        (True, ps) \<Rightarrow> (case gettoken b es ps of (_, _, _, ps) \<Rightarrow> parse_back b (BACK cmd) ps)
      | (False, ps) \<Rightarrow> (cmd, ps))"
  by pat_completeness auto
termination
  by (relation "measure (\<lambda>(b, cmd, ps). length b - ps)") (auto dest: peek_gettoken_bounds [OF sym sym] intro!: diff_less_mono2)

declare parse_back.simps [simp del]

definition ebind :: "'e + 'a \<Rightarrow> ('a \<Rightarrow> 'e + 'c) \<Rightarrow> 'e + 'c" where
  "ebind m f = (case m of Inl e \<Rightarrow> Inl e | Inr a \<Rightarrow> f a)"

lemma ebind_simps [simp]: "ebind (Inl e) f = Inl e" "ebind (Inr a) f = f a"
  by (simp_all add: ebind_def)

lemma ebind_Inr: "ebind m f = Inr r \<longleftrightarrow> (\<exists>a. m = Inr a \<and> f a = Inr r)"
  by (simp add: ebind_def split: sum.splits)

definition after :: "byte list \<Rightarrow> nat \<Rightarrow> nat" where
  "after b ps = (case gettoken b (length b) ps of (_, _, _, ps) \<Rightarrow> ps)"

fun parseline :: "nat \<Rightarrow> byte list \<Rightarrow> nat \<Rightarrow> perr + pword cmd \<times> nat"
  and parsepipe :: "nat \<Rightarrow> byte list \<Rightarrow> nat \<Rightarrow> perr + pword cmd \<times> nat"
  and parseexec :: "nat \<Rightarrow> byte list \<Rightarrow> nat \<Rightarrow> perr + pword cmd \<times> nat"
  and parseblock :: "nat \<Rightarrow> byte list \<Rightarrow> nat \<Rightarrow> perr + pword cmd \<times> nat" where
  "parseline 0 b ps = Inl NoFuel"
| "parseline (Suc n) b ps =
     ebind (parsepipe n b ps) (\<lambda>(cmd, ps).
     case parse_back b cmd ps of (cmd, ps) \<Rightarrow>
     case peek b (length b) ps (bytes_str '';'') of
       (True, ps) \<Rightarrow> ebind (parseline n b (after b ps)) (\<lambda>(right, ps). Inr (LIST cmd right, ps))
     | (False, ps) \<Rightarrow> Inr (cmd, ps))"
| "parsepipe 0 b ps = Inl NoFuel"
| "parsepipe (Suc n) b ps =
     ebind (parseexec n b ps) (\<lambda>(cmd, ps).
     case peek b (length b) ps (bytes_str ''|'') of
       (True, ps) \<Rightarrow> ebind (parsepipe n b (after b ps)) (\<lambda>(right, ps). Inr (PIPE cmd right, ps))
     | (False, ps) \<Rightarrow> Inr (cmd, ps))"
| "parseexec 0 b ps = Inl NoFuel"
| "parseexec (Suc n) b ps =
     (case peek b (length b) ps (bytes_str ''('') of
        (True, ps) \<Rightarrow> parseblock n b ps
      | (False, ps) \<Rightarrow> ebind (parseredirs b (EXEC []) ps) (\<lambda>(ret, ps). parseexec_args b ret 0 ps))"
| "parseblock 0 b ps = Inl NoFuel"
| "parseblock (Suc n) b ps =
     (case peek b (length b) ps (bytes_str ''('') of
        (False, ps) \<Rightarrow> Inl (Panics ''parseblock'')
      | (True, ps) \<Rightarrow>
          ebind (parseline n b (after b ps)) (\<lambda>(cmd, ps).
          case peek b (length b) ps (bytes_str '')'') of
            (False, ps) \<Rightarrow> Inl (Panics ''syntax - missing )'')
          | (True, ps) \<Rightarrow> parseredirs b cmd (after b ps)))"

fun nulterminate :: "pword cmd \<Rightarrow> byte list \<Rightarrow> byte list" where
  "nulterminate (EXEC ws) b = fold (\<lambda>(q, eq) b. b[eq := 0]) ws b"
| "nulterminate (REDIR c (q, eq) mode fd) b = (nulterminate c b)[eq := 0]"
| "nulterminate (PIPE l r) b = nulterminate r (nulterminate l b)"
| "nulterminate (LIST l r) b = nulterminate r (nulterminate l b)"
| "nulterminate (BACK c) b = nulterminate c b"

text \<open>The command, and the line after \<open>nulterminate\<close> has written into it.\<close>

definition parsecmd :: "byte list \<Rightarrow> perr + pword cmd \<times> byte list" where
  "parsecmd b =
     ebind (parseline (4 * length b + 4) b 0) (\<lambda>(cmd, s).
     case peek b (length b) s [] of (_, s) \<Rightarrow>
     if s \<noteq> length b then Inl (Leftovers s) else Inr (cmd, nulterminate cmd b))"


section \<open>What a parsed command satisfies\<close>

primrec args_lt :: "'w cmd \<Rightarrow> bool" where
  "args_lt (EXEC ws) = (length ws < MAXARGS)"
| "args_lt (REDIR c f mode fd) = args_lt c"
| "args_lt (PIPE l r) = (args_lt l \<and> args_lt r)"
| "args_lt (LIST l r) = (args_lt l \<and> args_lt r)"
| "args_lt (BACK c) = args_lt c"

definition cmd_ok :: "byte list \<Rightarrow> pword cmd \<Rightarrow> bool" where
  "cmd_ok b c \<longleftrightarrow> (\<forall>w \<in> set_cmd c. word_at b w) \<and> args_lt c"

lemma cmd_ok_simps [simp]:
  "cmd_ok b (EXEC ws) \<longleftrightarrow> (\<forall>w \<in> set ws. word_at b w) \<and> length ws < MAXARGS"
  "cmd_ok b (REDIR c f mode fd) \<longleftrightarrow> cmd_ok b c \<and> word_at b f"
  "cmd_ok b (PIPE l r) \<longleftrightarrow> cmd_ok b l \<and> cmd_ok b r"
  "cmd_ok b (LIST l r) \<longleftrightarrow> cmd_ok b l \<and> cmd_ok b r"
  "cmd_ok b (BACK c) \<longleftrightarrow> cmd_ok b c"
  by (auto simp: cmd_ok_def)

fun argc_of :: "'w cmd \<Rightarrow> nat option" where
  "argc_of (EXEC ws) = Some (length ws)"
| "argc_of (REDIR c f mode fd) = argc_of c"
| "argc_of c = None"

lemma add_arg_ok:
  "argc_of c = Some n \<Longrightarrow> argc_of (add_arg w c) = Some (Suc n)"
  "argc_of c = Some n \<Longrightarrow> cmd_ok b c \<Longrightarrow> word_at b w \<Longrightarrow> Suc n < MAXARGS \<Longrightarrow> cmd_ok b (add_arg w c)"
  by (induction c) auto

lemma parseexec_args_cases:
  assumes "parseexec_args b c argc ps = Inr r"
  obtains (stop) p1 where "peek b (length b) ps (bytes_str ''|)&;'') = (True, p1)" "r = (c, p1)"
  | (eof) p1 q eq p2 where "peek b (length b) ps (bytes_str ''|)&;'') = (False, p1)"
      "gettoken b (length b) p1 = (0, q, eq, p2)" "r = (c, p2)"
  | (arg) p1 q eq p2 c' p3 where "peek b (length b) ps (bytes_str ''|)&;'') = (False, p1)"
      "gettoken b (length b) p1 = (0x61, q, eq, p2)" "Suc argc < MAXARGS"
      "parseredirs b (add_arg (q, eq) c) p2 = Inr (c', p3)" "parseexec_args b c' (Suc argc) p3 = Inr r"
  using assms by (subst (asm) parseexec_args.simps)
    (auto simp: Let_def not_le split: prod.splits bool.splits if_splits sum.splits)

lemma parseexec_args_ok:
  "parseexec_args b c argc ps = Inr (c', s) \<Longrightarrow> ps \<le> length b \<Longrightarrow> 0 \<notin> set b \<Longrightarrow> cmd_ok b c \<Longrightarrow> argc_of c = Some argc \<Longrightarrow>
     cmd_ok b c' \<and> ps \<le> s \<and> s \<le> length b"
proof (induction "length b - ps" arbitrary: c argc ps rule: less_induct)
  case less
  from less.prems(1) show ?case
  proof (cases rule: parseexec_args_cases)
    case (stop p1)
    then show ?thesis using less.prems peek_bounds [OF stop(1)] by simp
  next
    case (eof p1 q eq p2)
    have "ps \<le> p1" "p1 \<le> length b" using peek_bounds [OF eof(1)] less.prems(2) by auto
    then show ?thesis using gettoken_bounds [OF eof(2)] less.prems eof(3) by auto
  next
    case (arg p1 q eq p2 c1 p3)
    have p1: "ps \<le> p1" "p1 \<le> length b" using peek_bounds [OF arg(1)] less.prems(2) by auto
    then have p2: "p2 \<le> length b" using gettoken_bounds [OF arg(2)] by auto
    have "word_at b (q, eq)" by (rule gettoken_word [OF arg(2) p1(2) less.prems(3)])
    then have "cmd_ok b (add_arg (q, eq) c) \<and> argc_of (add_arg (q, eq) c) = Some (Suc argc)"
      using add_arg_ok less.prems(4,5) arg(3) by blast
    then have "(cmd_ok b c1 \<and> argc_of c1 = Some (Suc argc)) \<and> p2 \<le> p3 \<and> p3 \<le> length b"
      by (rule parseredirs_inv [OF arg(4) p2 less.prems(3)]) auto
    then show ?thesis using less.hyps [OF _ arg(5) _ less.prems(3)] args_progress [OF arg(1,2,4)] by auto
  qed
qed

lemma parse_back_ok:
  "parse_back b c ps = (c', s) \<Longrightarrow> ps \<le> length b \<Longrightarrow> cmd_ok b c \<Longrightarrow> cmd_ok b c' \<and> ps \<le> s \<and> s \<le> length b"
proof (induction "length b - ps" arbitrary: c ps rule: less_induct)
  case less
  show ?case
  proof (cases rule: peek_cases [of b "length b" ps "bytes_str ''&''"])
    case (yes p1)
    obtain t q eq p2 where g: "gettoken b (length b) p1 = (t, q, eq, p2)" by (rule prod_cases4)
    have "parse_back b c ps = parse_back b (BACK c) p2" using yes g by (subst parse_back.simps) simp
    moreover have lt: "ps < p2" "p2 \<le> length b" using peek_gettoken_bounds [OF yes g] by auto
    then have "length b - p2 < length b - ps" by simp
    ultimately show ?thesis using less.hyps [of p2 "BACK c"] less.prems lt by auto
  next
    case (no p1)
    then have "parse_back b c ps = (c, p1)" by (subst parse_back.simps) simp
    then show ?thesis using less.prems peek_bounds [OF no] by auto
  qed
qed

lemma after_peek:
  "peek b (length b) ps toks = (True, s) \<Longrightarrow> ps < after b s \<and> after b s \<le> length b"
  using peek_gettoken_bounds by (fastforce simp: after_def split: prod.splits)

lemma parse_ok:
  "parseline n b ps = Inr (c, s) \<Longrightarrow> ps \<le> length b \<Longrightarrow> 0 \<notin> set b \<Longrightarrow> cmd_ok b c \<and> ps \<le> s \<and> s \<le> length b"
  "parsepipe n b ps = Inr (c, s) \<Longrightarrow> ps \<le> length b \<Longrightarrow> 0 \<notin> set b \<Longrightarrow> cmd_ok b c \<and> ps \<le> s \<and> s \<le> length b"
  "parseexec n b ps = Inr (c, s) \<Longrightarrow> ps \<le> length b \<Longrightarrow> 0 \<notin> set b \<Longrightarrow> cmd_ok b c \<and> ps \<le> s \<and> s \<le> length b"
  "parseblock n b ps = Inr (c, s) \<Longrightarrow> ps \<le> length b \<Longrightarrow> 0 \<notin> set b \<Longrightarrow> cmd_ok b c \<and> ps \<le> s \<and> s \<le> length b"
proof (induction n b ps and n b ps and n b ps and n b ps arbitrary: c s and c s and c s and c s rule: parseline_parsepipe_parseexec_parseblock.induct)
  case (2 n b ps)
  from "2.prems"(1) obtain c1 p1 where a: "parsepipe n b ps = Inr (c1, p1)" by (auto simp: ebind_Inr)
  have a': "cmd_ok b c1" "ps \<le> p1" "p1 \<le> length b" using "2.IH"(1) [OF a "2.prems"(2,3)] by auto
  obtain c2 p2 where b: "parse_back b c1 p1 = (c2, p2)" by (cases "parse_back b c1 p1")
  have b': "cmd_ok b c2" "p1 \<le> p2" "p2 \<le> length b" using parse_back_ok [OF b a'(3,1)] by auto
  show ?case
  proof (cases rule: peek_cases [of b "length b" p2 "bytes_str '';''"])
    case (no p3)
    then show ?thesis using "2.prems"(1) a b a' b' peek_bounds [OF no] by auto
  next
    case (yes p3)
    then obtain c3 where l: "parseline n b (after b p3) = Inr (c3, s)" "c = LIST c2 c3"
      using "2.prems"(1) a b by (auto simp: ebind_Inr)
    note af = after_peek [OF yes]
    have "cmd_ok b c3 \<and> after b p3 \<le> s \<and> s \<le> length b"
      by (rule "2.IH"(2) [OF b [symmetric] yes [symmetric] refl l(1)]) (use af "2.prems"(3) in auto)
    then show ?thesis using l a' b' af by auto
  qed
next
  case (4 n b ps)
  from "4.prems"(1) obtain c1 p1 where a: "parseexec n b ps = Inr (c1, p1)" by (auto simp: ebind_Inr)
  have a': "cmd_ok b c1" "ps \<le> p1" "p1 \<le> length b" using "4.IH"(1) [OF a "4.prems"(2,3)] by auto
  show ?case
  proof (cases rule: peek_cases [of b "length b" p1 "bytes_str ''|''"])
    case (no p3)
    then show ?thesis using "4.prems"(1) a a' peek_bounds [OF no] by auto
  next
    case (yes p3)
    then obtain c3 where l: "parsepipe n b (after b p3) = Inr (c3, s)" "c = PIPE c1 c3"
      using "4.prems"(1) a by (auto simp: ebind_Inr)
    note af = after_peek [OF yes]
    have "cmd_ok b c3 \<and> after b p3 \<le> s \<and> s \<le> length b"
      by (rule "4.IH"(2) [OF yes [symmetric] refl l(1)]) (use af "4.prems"(3) in auto)
    then show ?thesis using l a' af by auto
  qed
next
  case (6 n b ps)
  show ?case
  proof (cases rule: peek_cases [of b "length b" ps "bytes_str ''(''"])
    case (yes p1)
    then show ?thesis using 6 peek_True [OF yes] by fastforce
  next
    case (no p1)
    have p1: "ps \<le> p1" "p1 \<le> length b" using peek_bounds [OF no] "6.prems"(2) by auto
    obtain c1 p2 where r: "parseredirs b (EXEC []) p1 = Inr (c1, p2)" "parseexec_args b c1 0 p2 = Inr (c, s)"
      using "6.prems"(1) no by (auto simp: ebind_Inr)
    have "(cmd_ok b c1 \<and> argc_of c1 = Some 0) \<and> p1 \<le> p2 \<and> p2 \<le> length b"
      by (rule parseredirs_inv [OF r(1) p1(2) "6.prems"(3)]) auto
    then show ?thesis using parseexec_args_ok [OF r(2) _ "6.prems"(3)] p1 by auto
  qed
next
  case (8 n b ps)
  show ?case
  proof (cases rule: peek_cases [of b "length b" ps "bytes_str ''(''"])
    case (no p1)
    then show ?thesis using "8.prems"(1) by simp
  next
    case (yes p1)
    obtain c1 p2 where l: "parseline n b (after b p1) = Inr (c1, p2)" using "8.prems"(1) yes by (auto simp: ebind_Inr)
    have l': "cmd_ok b c1 \<and> after b p1 \<le> p2 \<and> p2 \<le> length b"
      by (rule "8.IH" [OF yes [symmetric] refl l]) (use after_peek [OF yes] "8.prems"(3) in auto)
    show ?thesis
    proof (cases rule: peek_cases [of b "length b" p2 "bytes_str '')''"])
      case (no p3)
      then show ?thesis using "8.prems"(1) yes l by simp
    next
      case (yes p3)
      then have r: "parseredirs b c1 (after b p3) = Inr (c, s)"
        using "8.prems"(1) l \<open>peek b (length b) ps _ = (True, p1)\<close> by simp
      have "cmd_ok b c \<and> after b p3 \<le> s \<and> s \<le> length b"
        by (rule parseredirs_inv [OF r _ "8.prems"(3)]) (use after_peek [OF yes] l' in auto)
      then show ?thesis using after_peek [OF yes] after_peek [OF \<open>peek b (length b) ps _ = (True, p1)\<close>] l' by auto
    qed
  qed
qed auto

section \<open>The parser always returns\<close>

lemma ebind_Inl: "ebind m f = Inl e \<longleftrightarrow> m = Inl e \<or> (\<exists>a. m = Inr a \<and> f a = Inl e)"
  by (simp add: ebind_def split: sum.splits)

lemma parseredirs_fuel: "parseredirs b c ps \<noteq> Inl NoFuel"
proof (induction b c ps rule: parseredirs.induct)
  case (1 b cmd ps)
  then show ?case by (subst parseredirs.simps) (auto simp: Let_def split: prod.splits bool.splits)
qed

lemma parseexec_args_fuel: "parseexec_args b c argc ps \<noteq> Inl NoFuel"
proof (induction b c argc ps rule: parseexec_args.induct)
  case (1 b cmd argc ps)
  then show ?case using parseredirs_fuel [of b]
    by (subst parseexec_args.simps) (auto simp: Let_def split: prod.splits bool.splits sum.splits)
qed

lemma parse_fuel:
  "4 * (length b - ps) + 4 \<le> n \<Longrightarrow> ps \<le> length b \<Longrightarrow> 0 \<notin> set b \<Longrightarrow> parseline n b ps \<noteq> Inl NoFuel"
  "4 * (length b - ps) + 3 \<le> n \<Longrightarrow> ps \<le> length b \<Longrightarrow> 0 \<notin> set b \<Longrightarrow> parsepipe n b ps \<noteq> Inl NoFuel"
  "4 * (length b - ps) + 2 \<le> n \<Longrightarrow> ps \<le> length b \<Longrightarrow> 0 \<notin> set b \<Longrightarrow> parseexec n b ps \<noteq> Inl NoFuel"
  "4 * (length b - ps) + 1 \<le> n \<Longrightarrow> ps \<le> length b \<Longrightarrow> 0 \<notin> set b \<Longrightarrow> parseblock n b ps \<noteq> Inl NoFuel"
proof (induction n b ps and n b ps and n b ps and n b ps rule: parseline_parsepipe_parseexec_parseblock.induct)
  case (2 n b ps)
  have a: "parsepipe n b ps \<noteq> Inl NoFuel" using 2 by simp
  show ?case
  proof (cases "parsepipe n b ps")
    case (Inl e)
    then show ?thesis using a by simp
  next
    case (Inr r)
    obtain c1 p1 where l1: "parsepipe n b ps = Inr (c1, p1)" using Inr by (cases r) simp
    obtain c2 p2 where l2: "parse_back b c1 p1 = (c2, p2)" by (cases "parse_back b c1 p1")
    have "ps \<le> p2" using parse_ok(2) [OF l1 "2.prems"(2,3)] parse_back_ok [OF l2] by auto
    show ?thesis
    proof (cases rule: peek_cases [of b "length b" p2 "bytes_str '';''"])
      case (yes p3)
      have lt: "ps < after b p3" "after b p3 \<le> length b" using after_peek [OF yes] \<open>ps \<le> p2\<close> by auto
      have "parseline n b (after b p3) \<noteq> Inl NoFuel"
        by (rule "2.IH"(2) [OF l2 [symmetric] yes [symmetric] refl]) (use lt "2.prems" in auto)
      then show ?thesis using l1 l2 yes by (simp add: ebind_Inl split: prod.splits)
    qed (simp add: l1 l2)
  qed
next
  case (4 n b ps)
  have a: "parseexec n b ps \<noteq> Inl NoFuel" using 4 by simp
  show ?case
  proof (cases "parseexec n b ps")
    case (Inl e)
    then show ?thesis using a by simp
  next
    case (Inr r)
    obtain c1 p1 where l1: "parseexec n b ps = Inr (c1, p1)" using Inr by (cases r) simp
    have "ps \<le> p1" using parse_ok(3) [OF l1 "4.prems"(2,3)] by auto
    show ?thesis
    proof (cases rule: peek_cases [of b "length b" p1 "bytes_str ''|''"])
      case (yes p3)
      have lt: "ps < after b p3" "after b p3 \<le> length b" using after_peek [OF yes] \<open>ps \<le> p1\<close> by auto
      have "parsepipe n b (after b p3) \<noteq> Inl NoFuel"
        by (rule "4.IH"(2) [OF yes [symmetric] refl]) (use lt "4.prems" in auto)
      then show ?thesis using l1 yes by (simp add: ebind_Inl split: prod.splits)
    qed (simp add: l1)
  qed
next
  case (6 n b ps)
  show ?case
  proof (cases rule: peek_cases [of b "length b" ps "bytes_str ''(''"])
    case (yes p1)
    have "parseblock n b p1 \<noteq> Inl NoFuel"
      using 6 yes peek_True [OF yes] by fastforce
    then show ?thesis using yes by simp
  next
    case (no p1)
    then show ?thesis using parseredirs_fuel [of b] parseexec_args_fuel [of b] by (auto simp: ebind_Inl)
  qed
next
  case (8 n b ps)
  show ?case
  proof (cases rule: peek_cases [of b "length b" ps "bytes_str ''(''"])
    case (yes p1)
    have "parseline n b (after b p1) \<noteq> Inl NoFuel"
      using "8.IH" [OF yes [symmetric] refl] "8.prems" after_peek [OF yes] by fastforce
    then show ?thesis using yes parseredirs_fuel [of b] by (auto simp: ebind_Inl split: prod.splits bool.splits)
  qed simp
qed auto

lemma parsecmd_returns: "0 \<notin> set b \<Longrightarrow> parsecmd b \<noteq> Inl NoFuel"
  using parse_fuel(1) [of b 0 "4 * length b + 4"] by (auto simp: parsecmd_def ebind_Inl split: prod.splits)

section \<open>Writing the terminating zeros\<close>

abbreviation (input) zeros :: "pword list \<Rightarrow> byte list \<Rightarrow> byte list" where
  "zeros \<equiv> fold (\<lambda>(q, eq) b. b[eq := 0])"

lemma zeros_length [simp]: "length (zeros ws b) = length b"
  by (induction ws arbitrary: b) auto

lemma zeros_other: "i \<notin> snd ` set ws \<Longrightarrow> zeros ws b ! i = b ! i"
  by (induction ws arbitrary: b) auto

lemma update_keep: "i < length b \<Longrightarrow> b ! i = 0 \<Longrightarrow> b[j := 0 :: byte] ! i = 0"
  by (cases "i = j") auto

lemma zeros_keep: "i < length b \<Longrightarrow> b ! i = 0 \<Longrightarrow> zeros ws b ! i = 0"
  by (induction ws arbitrary: b) (auto simp: update_keep)

lemma zeros_at: "(q, i) \<in> set ws \<Longrightarrow> i < length b \<Longrightarrow> zeros ws b ! i = 0"
  by (induction ws arbitrary: b) (auto simp: zeros_keep)

lemma nulterminate_length [simp]: "length (nulterminate c b) = length b"
  by (induction c b rule: nulterminate.induct) auto

lemma nulterminate_other: "i \<notin> snd ` set_cmd c \<Longrightarrow> nulterminate c b ! i = b ! i"
  by (induction c b rule: nulterminate.induct) (auto simp: zeros_other image_Un)

lemma nulterminate_keep: "i < length b \<Longrightarrow> b ! i = 0 \<Longrightarrow> nulterminate c b ! i = 0"
  by (induction c b rule: nulterminate.induct) (auto simp: zeros_keep update_keep)

lemma nulterminate_at: "(q, i) \<in> set_cmd c \<Longrightarrow> i < length b \<Longrightarrow> nulterminate c b ! i = 0"
  by (induction c b rule: nulterminate.induct) (auto simp: zeros_at nulterminate_keep update_keep)

definition cstr_at :: "byte list \<Rightarrow> pword \<Rightarrow> byte list" where
  "cstr_at b w = takeWhile (\<lambda>c. c \<noteq> 0) (drop (fst w) b)"

definition word :: "byte list \<Rightarrow> pword \<Rightarrow> byte list" where
  "word b w = take (snd w - fst w) (drop (fst w) b)"

lemma nulterminate_words:
  assumes "\<forall>w \<in> set_cmd c. word_at b w" and "w \<in> set_cmd c"
  shows "cstr_at (nulterminate c b) w = word b w"
proof -
  obtain q eq where w: "w = (q, eq)" by (cases w)
  then have ok: "q < eq" "eq \<le> length b" "\<And>i. q \<le> i \<Longrightarrow> i < eq \<Longrightarrow> wordch (chr0 b i)"
    using assms by (auto simp: word_at_def)
  let ?b = "nulterminate c b"
  have same: "?b ! i = b ! i \<and> b ! i \<noteq> 0" if "q \<le> i" "i < eq" for i
  proof -
    have "i \<notin> snd ` set_cmd c" using assms(1) ok(3) [OF that] by (auto simp: word_at_def)
    then show ?thesis using ok(3) [OF that] that ok(2) nulterminate_other by (auto simp: chr0_def wordch_def)
  qed
  have t: "take (eq - q) (drop q ?b) = word b w"
    unfolding word_def w by (rule nth_equalityI) (use ok same in \<open>auto\<close>)
  have nz: "\<forall>x \<in> set (word b w). x \<noteq> 0"
    using same ok(2) by (auto simp: word_def w in_set_conv_nth)
  have "takeWhile (\<lambda>c. c \<noteq> 0) (drop eq ?b) = []"
  proof (cases "eq < length b")
    case True
    then have "?b ! eq = 0" using nulterminate_at [of q eq c b] assms(2) w by force
    then show ?thesis using True by (simp add: takeWhile_eq_Nil_iff hd_drop_conv_nth)
  qed simp
  moreover have "drop q ?b = word b w @ drop eq ?b"
    using t ok(1) by (metis append_take_drop_id drop_drop le_add_diff_inverse2 less_imp_le)
  ultimately show ?thesis using nz unfolding cstr_at_def w fst_conv by (simp add: takeWhile_append)
qed

section \<open>Properties of the parser\<close>

lemma parsecmd_ok:
  assumes "parsecmd b = Inr (c, b')" and "0 \<notin> set b"
  shows "cmd_ok b c" "b' = nulterminate c b"
proof -
  obtain c1 s1 where 1: "parseline (4 * length b + 4) b 0 = Inr (c1, s1)"
    using assms(1) by (auto simp: parsecmd_def ebind_Inr)
  obtain r s2 where 2: "peek b (length b) s1 [] = (r, s2)" by (cases "peek b (length b) s1 []")
  have l: "parseline (4 * length b + 4) b 0 = Inr (c, s1)" "b' = nulterminate c b"
    using assms(1) 1 2 by (auto simp: parsecmd_def split: if_splits)
  then show "cmd_ok b c" "b' = nulterminate c b" using parse_ok(1) [OF l(1) _ assms(2)] by auto
qed

text \<open>C14: The shell's parser returns on every line: with a command, or with one of its error messages.
  (\<open>NoFuel\<close> would be a recursion that does not end.)\<close>

theorem parsecmd_terminates:
  assumes "0 \<notin> set b"
  shows "(\<exists>c b'. parsecmd b = Inr (c, b')) \<or> (\<exists>m. parsecmd b = Inl (Panics m)) \<or> (\<exists>s. parsecmd b = Inl (Leftovers s))"
proof (cases "parsecmd b")
  case (Inl e)
  then show ?thesis using parsecmd_returns [OF assms] by (cases e) auto
qed auto

theorem parsecmd_terminates_witness:
  "parsecmd (bytes_str ''a|(b'') = Inl (Panics ''syntax - missing )'') \<and> parsecmd (bytes_str ''a)'') = Inl (Leftovers 1)
   \<and> ((\<exists>c b'. parsecmd (bytes_str ''a|(b'') = Inr (c, b')) \<or> (\<exists>m. parsecmd (bytes_str ''a|(b'') = Inl (Panics m))
     \<or> (\<exists>s. parsecmd (bytes_str ''a|(b'') = Inl (Leftovers s)))"
proof -
  have "parsecmd (bytes_str ''a|(b'') = Inl (Panics ''syntax - missing )'')" by code_simp
  moreover have "parsecmd (bytes_str ''a)'') = Inl (Leftovers 1)" by code_simp
  moreover have "0 \<notin> set (bytes_str ''a|(b'')" by code_simp
  ultimately show ?thesis using parsecmd_terminates [of "bytes_str ''a|(b''"] by blast
qed

text \<open>C23: In the line as \<open>nulterminate\<close> leaves it, every argument and file name of the parsed command is a
  C string that reads as the word of the original line: the zeros written for one word never fall into
  another, also where two tokens touch, as in \<open>a>b|c\<close>. The words are not empty and hold no separator.\<close>

theorem parsecmd_words:
  assumes "parsecmd b = Inr (c, b')" and "0 \<notin> set b"
  shows "length b' = length b \<and>
    (\<forall>(q, eq) \<in> set_cmd c. q < eq \<and> eq \<le> length b \<and> cstr_at b' (q, eq) = word b (q, eq) \<and> (\<forall>x \<in> set (word b (q, eq)). wordch x))"
proof -
  note ok = parsecmd_ok [OF assms]
  have w: "\<forall>w \<in> set_cmd c. word_at b w" using ok(1) by (simp add: cmd_ok_def)
  have "q < eq \<and> eq \<le> length b \<and> cstr_at b' (q, eq) = word b (q, eq) \<and> (\<forall>x \<in> set (word b (q, eq)). wordch x)"
    if "(q, eq) \<in> set_cmd c" for q eq
  proof -
    have a: "q < eq" "eq \<le> length b" "\<And>i. q \<le> i \<Longrightarrow> i < eq \<Longrightarrow> wordch (chr0 b i)" using w that by (auto simp: word_at_def)
    have "wordch x" if x: "x \<in> set (word b (q, eq))" for x
    proof -
      obtain i where "i < eq - q" "x = b ! (q + i)" using x a(2) by (auto simp: word_def in_set_conv_nth)
      then show ?thesis using a(3) [of "q + i"] a(2) by (simp add: chr0_def)
    qed
    then show ?thesis using a(1,2) nulterminate_words [OF w that] ok(2) by simp
  qed
  then show ?thesis using ok(2) by auto
qed

theorem parsecmd_words_witness:
  "\<exists>c b'. parsecmd (bytes_str ''a>b|c'') = Inr (c, b') \<and> (0, 1) \<in> set_cmd c \<and> (2, 3) \<in> set_cmd c
     \<and> cstr_at b' (0, 1) = bytes_str ''a'' \<and> cstr_at b' (2, 3) = bytes_str ''b''"
proof -
  have p: "parsecmd (bytes_str ''a>b|c'') = Inr (PIPE (REDIR (EXEC [(0, 1)]) (2, 3) O_WRONLY_CREATE_TRUNC 1) (EXEC [(4, 5)]),
    [0x61, 0, 0x62, 0, 0x63])" by code_simp
  have "0 \<notin> set (bytes_str ''a>b|c'')" "word (bytes_str ''a>b|c'') (0, 1) = bytes_str ''a''" "word (bytes_str ''a>b|c'') (2, 3) = bytes_str ''b''"
    by code_simp+
  then have cs: "cstr_at [0x61, 0, 0x62, 0, 0x63] (0, 1) = bytes_str ''a''" "cstr_at [0x61, 0, 0x62, 0, 0x63] (2, 3) = bytes_str ''b''"
    using parsecmd_words [OF p] by simp_all
  show ?thesis by (rule exI, rule exI, intro conjI, rule p) (use cs in simp_all)
qed

text \<open>C26: Every command the parser builds has fewer than \<open>MAXARGS\<close> arguments, so the stores to \<open>argv\<close> and \<open>eargv\<close>,
  the final null pointers at index \<open>argc\<close> included, stay inside the arrays.\<close>

theorem parsecmd_args_bound:
  assumes "parsecmd b = Inr (c, b')" and "0 \<notin> set b"
  shows "args_lt c"
  using parsecmd_ok(1) [OF assms] by (simp add: cmd_ok_def)

theorem parsecmd_args_bound_witness:
  "parsecmd (bytes_str ''a b'') = Inr (EXEC [(0, 1), (2, 3)], [0x61, 0, 0x62]) \<and> args_lt (EXEC [(0 :: nat, 1 :: nat), (2, 3)])"
proof
  show p: "parsecmd (bytes_str ''a b'') = Inr (EXEC [(0, 1), (2, 3)], [0x61, 0, 0x62])" by code_simp
  show "args_lt (EXEC [(0 :: nat, 1 :: nat), (2, 3)])" by (rule parsecmd_args_bound [OF p]) code_simp
qed

end
