(* ===== verification/ShellPrint.thy ===== *)
theory ShellPrint
  imports Shell
begin

text \<open>
  Every command has a source text: \<open>unparse\<close> prints a command as tokens, with parentheses where the
  grammar needs them, and the parser of the shell reads the command back.
\<close>

section \<open>Printing commands\<close>

datatype tok = W "byte list" | S byte | App

primrec show_tok :: "tok \<Rightarrow> byte list" where
  "show_tok (W w) = w"
| "show_tok (S c) = [c]"
| "show_tok App = [0x3E, 0x3E]"

definition print :: "tok list \<Rightarrow> byte list" where
  "print ts = concat (map (\<lambda>t. show_tok t @ [0x20]) ts)"

primrec good_tok :: "tok \<Rightarrow> bool" where
  "good_tok (W w) = (w \<noteq> [] \<and> (\<forall>c \<in> set w. wordch c))"
| "good_tok (S c) = (c \<in> set symbols)"
| "good_tok App = True"

definition redir_tok :: "nat \<Rightarrow> tok" where
  "redir_tok mode = (if mode = O_RDONLY then S 0x3C else if mode = O_WRONLY_CREATE then App else S 0x3E)"

definition paren :: "bool \<Rightarrow> tok list \<Rightarrow> tok list" where
  "paren p ts = (if p then S 0x28 # ts @ [S 0x29] else ts)"

text \<open>The tokens of a command where the grammar expects an element of a pipeline (0), a pipeline (1), a
  pipeline with \<open>&\<close> (2) or a line (3).\<close>

primrec unparse :: "nat \<Rightarrow> byte list cmd \<Rightarrow> tok list" where
  "unparse k (EXEC ws) = map W ws"
| "unparse k (REDIR c f mode fd) = unparse 0 c @ [redir_tok mode, W f]"
| "unparse k (PIPE l r) = paren (k < 1) (unparse 0 l @ S 0x7C # unparse 1 r)"
| "unparse k (BACK c) = paren (k < 2) (unparse 2 c @ [S 0x26])"
| "unparse k (LIST l r) = paren (k < 3) (unparse 2 l @ S 0x3B # unparse 3 r)"

text \<open>The commands that have a source text.\<close>

primrec src_ok :: "byte list cmd \<Rightarrow> bool" where
  "src_ok (EXEC ws) = (length ws < MAXARGS \<and> (\<forall>w \<in> set ws. good_tok (W w)))"
| "src_ok (REDIR c f mode fd) =
     (src_ok c \<and> good_tok (W f) \<and> (mode, fd) \<in> {(O_RDONLY, 0), (O_WRONLY_CREATE_TRUNC, 1), (O_WRONLY_CREATE, 1)})"
| "src_ok (PIPE l r) = (src_ok l \<and> src_ok r)"
| "src_ok (BACK c) = src_ok c"
| "src_ok (LIST l r) = (src_ok l \<and> src_ok r)"

lemma unparse_good: "src_ok c \<Longrightarrow> \<forall>t \<in> set (unparse k c). good_tok t"
  by (induction c arbitrary: k) (auto simp: redir_tok_def paren_def symbols_def bytes_str_def)

definition at_toks :: "byte list \<Rightarrow> nat \<Rightarrow> tok list \<Rightarrow> bool" where
  "at_toks b s ts \<longleftrightarrow> s \<le> length b \<and> drop s b = print ts \<and> (\<forall>t \<in> set ts. good_tok t)"

lemma at_toks_next:
  assumes "at_toks b s (t # ts)"
  shows "at_toks b (s + length (show_tok t) + 1) ts"
    and "\<And>i. i < length (show_tok t) \<Longrightarrow> chr0 b (s + i) = show_tok t ! i"
    and "chr0 b (s + length (show_tok t)) = 0x20"
    and "word b (s, s + length (show_tok t)) = show_tok t"
    and "s + length (show_tok t) < length b"
proof -
  have d: "drop s b = show_tok t @ 0x20 # print ts" "s \<le> length b" using assms by (auto simp: at_toks_def print_def)
  have l: "length b = s + length (show_tok t) + 1 + length (print ts)"
    using arg_cong [OF d(1), of length] d(2) by simp
  show "s + length (show_tok t) < length b" using l by simp
  have "drop (s + length (show_tok t) + 1) b = drop (length (show_tok t) + 1) (drop s b)" by (simp add: add.commute add.left_commute)
  then show "at_toks b (s + length (show_tok t) + 1) ts" using assms l by (simp add: at_toks_def d)
  have nth: "b ! (s + i) = drop s b ! i" if "i < length b - s" for i using that d(2) by simp
  show "chr0 b (s + i) = show_tok t ! i" if "i < length (show_tok t)" for i
    using that nth [of i] l by (simp add: chr0_def d nth_append)
  show "chr0 b (s + length (show_tok t)) = 0x20"
    using nth [of "length (show_tok t)"] l by (simp add: chr0_def d)
  show "word b (s, s + length (show_tok t)) = show_tok t" by (simp add: word_def d)
qed

lemma good_tok_first:
  "good_tok t \<Longrightarrow> show_tok t \<noteq> [] \<and> show_tok t ! 0 \<noteq> 0 \<and> show_tok t ! 0 \<notin> set whitespace"
  by (cases t) (auto simp: wordch_def symbols_def bytes_str_def whitespace_def)

lemma at_toks_first:
  assumes "at_toks b s (t # ts)"
  shows "chr0 b s = show_tok t ! 0" "chr0 b s \<noteq> 0" "chr0 b s \<notin> set whitespace"
  using assms good_tok_first [of t] at_toks_next(2) [OF assms, of 0] by (auto simp: at_toks_def)

lemma at_toks_skip: "at_toks b s ts \<Longrightarrow> skip_while (\<lambda>c. c \<in> set whitespace) b (length b) s = s"
proof (cases ts)
  case Nil
  assume "at_toks b s ts"
  then have "s = length b" using Nil by (simp add: at_toks_def print_def)
  then show ?thesis by (subst skip_while.simps) simp
next
  case (Cons t us)
  assume "at_toks b s ts"
  then show ?thesis using at_toks_first(3) [of b s t us] Cons by (subst skip_while.simps) simp
qed

lemma peek_toks:
  "at_toks b s ts \<Longrightarrow> peek b (length b) s cs = (ts \<noteq> [] \<and> show_tok (hd ts) ! 0 \<in> set cs, s)"
proof (cases ts)
  case Nil
  assume a: "at_toks b s ts"
  then have "s = length b" using Nil by (simp add: at_toks_def print_def)
  then show ?thesis using at_toks_skip [OF a] Nil by (simp add: peek_def)
next
  case (Cons t us)
  assume a: "at_toks b s ts"
  then show ?thesis using at_toks_first(1,2) [of b s t us] at_toks_skip [OF a] Cons by (simp add: peek_def)
qed

lemma skip_space:
  assumes "at_toks b (Suc s) ts" and "chr0 b s = 0x20" and "s < length b"
  shows "skip_while (\<lambda>c. c \<in> set whitespace) b (length b) s = Suc s"
  using assms at_toks_skip by (subst skip_while.simps) (simp add: whitespace_def)

primrec kind :: "tok \<Rightarrow> byte" where
  "kind (W w) = 0x61"
| "kind (S c) = c"
| "kind App = 0x2B"

lemma skip_word:
  "(\<And>i. s \<le> i \<Longrightarrow> i < e \<Longrightarrow> P (chr0 b i)) \<Longrightarrow> \<not> P (chr0 b e) \<Longrightarrow> s \<le> e \<Longrightarrow> e \<le> es \<Longrightarrow> skip_while P b es s = e"
proof (induction "e - s" arbitrary: s)
  case 0
  then show ?case by (subst skip_while.simps) simp
next
  case (Suc n)
  then have "skip_while P b es (Suc s) = e" using Suc.hyps(1) [of "Suc s"] by simp
  then show ?case using Suc.prems(1) [of s] Suc.hyps(2) Suc.prems(4) by (subst skip_while.simps) auto
qed

lemma gettoken_toks:
  assumes "at_toks b s (t # ts)" and "t = S 0x3E \<longrightarrow> chr0 b (Suc s) \<noteq> 0x3E"
  shows "gettoken b (length b) s = (kind t, s, s + length (show_tok t), s + length (show_tok t) + 1)"
proof -
  note n = at_toks_next [OF assms(1)]
  have sp: "skip_while (\<lambda>c. c \<in> set whitespace) b (length b) (s + length (show_tok t)) = s + length (show_tok t) + 1"
    using skip_space [of b "s + length (show_tok t)" ts] n(1,3,5) by simp
  have "good_tok t" using assms(1) by (simp add: at_toks_def)
  show ?thesis
  proof (cases t)
    case (W w)
    have w: "wordch (chr0 b i)" if "s \<le> i" "i < s + length w" for i
    proof -
      have "i - s < length w" using that by simp
      then have "chr0 b i = w ! (i - s)" using n(2) [of "i - s"] that W by simp
      then show ?thesis using \<open>i - s < length w\<close> W \<open>good_tok t\<close> by (metis good_tok.simps(1) nth_mem)
    qed
    have c: "wordch (chr0 b s)" using w [of s] W \<open>good_tok t\<close> by simp
    have "skip_while (\<lambda>c. c \<notin> set whitespace \<and> c \<notin> set symbols) b (length b) s = s + length w"
      by (rule skip_word) (use w n(3,5) W in \<open>auto simp: wordch_def whitespace_def\<close>)
    then show ?thesis using c sp W at_toks_skip [OF assms(1)]
      by (simp add: gettoken_def wordch_def symbols_def bytes_str_def)
  next
    case (S c)
    then have "chr0 b s = c" "c \<in> set symbols" using n(2) [of 0] \<open>good_tok t\<close> by simp_all
    then show ?thesis using sp S at_toks_skip [OF assms(1)] assms(2)
      by (auto simp: gettoken_def symbols_def bytes_str_def)
  next
    case App
    then have "chr0 b s = 0x3E" "chr0 b (Suc s) = 0x3E" using n(2) [of 0] n(2) [of 1] by simp_all
    then show ?thesis using sp App at_toks_skip [OF assms(1)] by (simp add: gettoken_def bytes_str_def)
  qed
qed

lemma gettoken_single:
  assumes "at_toks b s (t # ts)"
  shows "gettoken b (length b) s = (kind t, s, s + length (show_tok t), s + length (show_tok t) + 1)"
proof (rule gettoken_toks [OF assms])
  show "t = S 0x3E \<longrightarrow> chr0 b (Suc s) \<noteq> 0x3E"
    using at_toks_next(3) [OF assms] by auto
qed

lemma gettoken_end: "at_toks b s [] \<Longrightarrow> gettoken b (length b) s = (0, s, s, s)"
  by (simp add: at_toks_def print_def gettoken_def at_toks_skip skip_while.simps)

section \<open>Reading a command back\<close>

definition fin :: "byte list \<Rightarrow> pword cmd \<Rightarrow> nat \<Rightarrow> perr + pword cmd \<times> nat" where
  "fin b c s = (case argc_of c of
     None \<Rightarrow> parseredirs b c s
   | Some a \<Rightarrow> ebind (parseredirs b c s) (\<lambda>(ret, ps). parseexec_args b ret a ps))"

text \<open>A list of tokens reads as a command at each of the four levels of the grammar; \<open>rest\<close> is what follows. At
  level 0 redirections may follow, at level 2 more \<open>&\<close>.\<close>

definition stops :: "byte list \<Rightarrow> tok list \<Rightarrow> bool" where
  "stops cs rest \<longleftrightarrow> rest = [] \<or> (\<exists>c \<in> set cs. hd rest = S c)"

definition no_open :: "tok list \<Rightarrow> bool" where
  "no_open rest \<longleftrightarrow> rest = [] \<or> hd rest \<noteq> S 0x28"

definition p0 :: "tok list \<Rightarrow> byte list cmd \<Rightarrow> bool" where
  "p0 ts c \<longleftrightarrow> (\<forall>b s rest n. at_toks b s (ts @ rest) \<and> no_open rest \<and> 4 * (length b - s) + 2 \<le> n \<longrightarrow>
     (\<exists>c' s'. s \<le> s' \<and> at_toks b s' rest \<and> map_cmd (word b) c' = c \<and> parseexec n b s = fin b c' s'))"

definition p1 :: "tok list \<Rightarrow> byte list cmd \<Rightarrow> bool" where
  "p1 ts c \<longleftrightarrow> (\<forall>b s rest n. at_toks b s (ts @ rest) \<and> stops (bytes_str '');&'') rest \<and> 4 * (length b - s) + 3 \<le> n \<longrightarrow>
     (\<exists>c' s'. s \<le> s' \<and> at_toks b s' rest \<and> map_cmd (word b) c' = c \<and> parsepipe n b s = Inr (c', s')))"

definition p2 :: "tok list \<Rightarrow> byte list cmd \<Rightarrow> bool" where
  "p2 ts c \<longleftrightarrow> (\<forall>b s rest n. at_toks b s (ts @ rest) \<and> stops (bytes_str '');&'') rest \<and> 4 * (length b - s) + 3 \<le> n \<longrightarrow>
     (\<exists>c1 s1 c' s'. s \<le> s' \<and> at_toks b s' rest \<and> map_cmd (word b) c' = c \<and> parsepipe n b s = Inr (c1, s1)
        \<and> parse_back b c1 s1 = parse_back b c' s'))"

definition p3 :: "tok list \<Rightarrow> byte list cmd \<Rightarrow> bool" where
  "p3 ts c \<longleftrightarrow> (\<forall>b s rest n. at_toks b s (ts @ rest) \<and> stops (bytes_str '')'') rest \<and> 4 * (length b - s) + 4 \<le> n \<longrightarrow>
     (\<exists>c' s'. s \<le> s' \<and> at_toks b s' rest \<and> map_cmd (word b) c' = c \<and> parseline n b s = Inr (c', s')))"

lemma at_toks_le: "at_toks b s ts \<Longrightarrow> s \<le> length b" by (simp add: at_toks_def)

lemma peek_S: "at_toks b s ts \<Longrightarrow> set cs \<subseteq> set (bytes_str ''|&;()'') \<Longrightarrow>
    peek b (length b) s cs = (ts \<noteq> [] \<and> (\<exists>c \<in> set cs. hd ts = S c), s)"
proof -
  assume a: "at_toks b s ts" and c: "set cs \<subseteq> set (bytes_str ''|&;()'')"
  have "show_tok t ! 0 \<in> set cs \<longleftrightarrow> (\<exists>c \<in> set cs. t = S c)" if "good_tok t" for t
  proof (cases t)
    case (W w)
    then have "wordch (w ! 0)" using that by simp
    then have "w ! 0 \<notin> set cs" using c by (auto simp: wordch_def symbols_def bytes_str_def)
    then show ?thesis using W by auto
  next
    case App
    have "(0x3E :: byte) \<notin> set cs" using c by (auto simp: bytes_str_def)
    then show ?thesis using App by auto
  qed auto
  moreover have "ts \<noteq> [] \<Longrightarrow> good_tok (hd ts)" using a by (simp add: at_toks_def)
  ultimately show ?thesis unfolding peek_toks [OF a] by auto
qed

lemma after_S: "at_toks b s (t # ts) \<Longrightarrow> at_toks b (after b s) ts \<and> s < after b s"
  using gettoken_single [of b s t ts] at_toks_next(1) [of b s t ts] by (simp add: after_def)

lemma redirs_stop: "at_toks b s rest \<Longrightarrow> stops (bytes_str ''|);&'') rest \<Longrightarrow> parseredirs b c s = Inr (c, s)"
  using peek_toks [of b s rest "bytes_str ''<>''"]
  by (subst parseredirs.simps) (auto simp: stops_def bytes_str_def)

lemma args_stop: "at_toks b s rest \<Longrightarrow> stops (bytes_str ''|);&'') rest \<Longrightarrow> parseexec_args b c a s = Inr (c, s)"
  using peek_toks [of b s rest "bytes_str ''|)&;''"] gettoken_end [of b s]
  by (subst parseexec_args.simps) (cases "rest = []"; auto simp: stops_def bytes_str_def)

lemma fin_stop: "at_toks b s rest \<Longrightarrow> stops (bytes_str ''|);&'') rest \<Longrightarrow> fin b c s = Inr (c, s)"
  by (simp add: fin_def redirs_stop args_stop split: option.splits)

lemma stops_mono: "stops cs rest \<Longrightarrow> set cs \<subseteq> set cs' \<Longrightarrow> stops cs' rest"
  by (auto simp: stops_def)

lemma no_open_simps [simp]: "no_open []" "no_open (W w # ts)" "no_open (redir_tok mode # ts)" "no_open (S c # ts) = (c \<noteq> 0x28)"
  by (simp_all add: no_open_def redir_tok_def)

lemma no_open_stops: "stops (bytes_str '');&'') rest \<Longrightarrow> no_open rest"
  by (auto simp: stops_def no_open_def bytes_str_def)

lemma lift01: "p0 ts c \<Longrightarrow> p1 ts c"
  unfolding p1_def
proof (intro allI impI, elim conjE)
  fix b s rest n
  assume a: "p0 ts c" "at_toks b s (ts @ rest)" "stops (bytes_str '');&'') rest" "4 * (length b - s) + 3 \<le> n"
  obtain m where n: "n = Suc m" "4 * (length b - s) + 2 \<le> m" using a(4) by (cases n) auto
  obtain c' s' where e: "s \<le> s'" "at_toks b s' rest" "map_cmd (word b) c' = c" "parseexec m b s = fin b c' s'"
    using a(1,2) n(2) no_open_stops [OF a(3)] unfolding p0_def by blast
  have "fin b c' s' = Inr (c', s')" by (rule fin_stop [OF e(2) stops_mono [OF a(3)]]) (auto simp: bytes_str_def)
  moreover have "peek b (length b) s' (bytes_str ''|'') = (False, s')"
    using peek_S [OF e(2), of "bytes_str ''|''"] a(3) by (auto simp: stops_def bytes_str_def)
  ultimately show "\<exists>c' s'. s \<le> s' \<and> at_toks b s' rest \<and> map_cmd (word b) c' = c \<and> parsepipe n b s = Inr (c', s')"
    using e n(1) by auto
qed

lemma lift12: "p1 ts c \<Longrightarrow> p2 ts c"
  unfolding p1_def p2_def by blast

lemma back_stop: "at_toks b s rest \<Longrightarrow> stops (bytes_str '');'') rest \<Longrightarrow> parse_back b c s = (c, s)"
  using peek_S [of b s rest "bytes_str ''&''"] by (subst parse_back.simps) (auto simp: stops_def bytes_str_def)

lemma lift23: "p2 ts c \<Longrightarrow> p3 ts c"
  unfolding p3_def
proof (intro allI impI, elim conjE)
  fix b s rest n
  assume a: "p2 ts c" "at_toks b s (ts @ rest)" "stops (bytes_str '')'') rest" "4 * (length b - s) + 4 \<le> n"
  obtain m where n: "n = Suc m" "4 * (length b - s) + 3 \<le> m" using a(4) by (cases n) auto
  have st: "stops (bytes_str '');&'') rest" "stops (bytes_str '');'') rest"
    by (rule stops_mono [OF a(3)], auto simp: bytes_str_def)+
  obtain c1 s1 c' s' where e: "s \<le> s'" "at_toks b s' rest" "map_cmd (word b) c' = c" "parsepipe m b s = Inr (c1, s1)"
      "parse_back b c1 s1 = parse_back b c' s'"
    using a(1,2) st(1) n(2) unfolding p2_def by blast
  have "parse_back b c1 s1 = (c', s')" using e(5) back_stop [OF e(2) st(2)] by simp
  moreover have "peek b (length b) s' (bytes_str '';'') = (False, s')"
    using peek_S [OF e(2), of "bytes_str '';''"] a(3) by (auto simp: stops_def bytes_str_def)
  ultimately show "\<exists>c' s'. s \<le> s' \<and> at_toks b s' rest \<and> map_cmd (word b) c' = c \<and> parseline n b s = Inr (c', s')"
    using e n(1) by auto
qed

lemma argc_of_map [simp]: "argc_of (map_cmd f c) = argc_of c"
  by (induction c) auto

lemma add_arg_map: "map_cmd f (add_arg w c) = add_arg (f w) (map_cmd f c)"
  by (induction c) auto

lemma p0_EXEC_Nil: "p0 [] (EXEC [])"
  unfolding p0_def
proof (intro allI impI, elim conjE)
  fix b s rest n
  assume a: "at_toks b s ([] @ rest)" "no_open rest" "4 * (length b - s) + 2 \<le> n"
  obtain m where n: "n = Suc m" using a(3) by (cases n) auto
  have at: "at_toks b s rest" using a(1) by simp
  have "peek b (length b) s (bytes_str ''('') = (False, s)"
    using peek_S [OF at, of "bytes_str ''(''"] a(2) by (auto simp: no_open_def bytes_str_def)
  then show "\<exists>c' s'. s \<le> s' \<and> at_toks b s' rest \<and> map_cmd (word b) c' = EXEC [] \<and> parseexec n b s = fin b c' s'"
    by (intro exI [of _ "EXEC []"] exI [of _ s]) (simp add: n at fin_def)
qed

text \<open>The end of \<open>parseexec\<close> on a further argument, and on a further redirection.\<close>

lemma fin_arg:
  assumes "at_toks b s (W w # rest)" and "argc_of c = Some a" and "Suc a < MAXARGS"
  shows "fin b c s = fin b (add_arg (s, s + length w) c) (s + length w + 1)"
proof -
  have 1: "peek b (length b) s (bytes_str ''<>'') = (False, s)" "peek b (length b) s (bytes_str ''|)&;'') = (False, s)"
  proof -
    have "w \<noteq> []" "wordch (w ! 0)" using assms(1) by (auto simp: at_toks_def)
    then have "w ! 0 \<notin> set symbols" by (simp add: wordch_def)
    then show "peek b (length b) s (bytes_str ''<>'') = (False, s)" "peek b (length b) s (bytes_str ''|)&;'') = (False, s)"
      using peek_toks [OF assms(1)] by (auto simp: symbols_def bytes_str_def)
  qed
  have "parseredirs b c s = Inr (c, s)" using 1(1) by (subst parseredirs.simps) simp
  moreover have "parseexec_args b c a s =
     (case parseredirs b (add_arg (s, s + length w) c) (s + length w + 1) of Inl e \<Rightarrow> Inl e | Inr (ret, ps) \<Rightarrow> parseexec_args b ret (Suc a) ps)"
    using 1(2) gettoken_single [OF assms(1)] assms(3) by (subst parseexec_args.simps) simp
  moreover have "argc_of (add_arg (s, s + length w) c) = Some (Suc a)" by (rule add_arg_ok(1) [OF assms(2)])
  ultimately show ?thesis by (simp add: fin_def assms(2) ebind_def)
qed

lemma fin_redir:
  assumes "at_toks b s (redir_tok mode # W f # rest)" and "(mode, fd) \<in> {(O_RDONLY, 0), (O_WRONLY_CREATE_TRUNC, 1), (O_WRONLY_CREATE, 1)}"
  shows "\<exists>q s'. fin b c s = fin b (REDIR c (q, q + length f) mode fd) s' \<and> s < s' \<and> at_toks b s' rest \<and> word b (q, q + length f) = f"
proof -
  let ?t = "redir_tok mode"
  define q where "q = s + length (show_tok ?t) + 1"
  note g1 = gettoken_single [OF assms(1), folded q_def]
  have a2: "at_toks b q (W f # rest)" using at_toks_next(1) [OF assms(1)] by (simp add: q_def)
  note g2 = gettoken_single [OF a2]
  have p: "peek b (length b) s (bytes_str ''<>'') = (True, s)"
    using peek_toks [OF assms(1)] by (auto simp: redir_tok_def bytes_str_def)
  have k: "redirect (kind ?t) c w = REDIR c w mode fd" for w :: pword
    using assms(2) by (auto simp: redirect_def redir_tok_def)
  have "parseredirs b c s = parseredirs b (REDIR c (q, q + length f) mode fd) (q + length f + 1)"
    using p g1 g2 by (subst parseredirs.simps) (simp add: k)
  then have "fin b c s = fin b (REDIR c (q, q + length f) mode fd) (q + length f + 1)" by (simp add: fin_def split: option.split)
  moreover have "at_toks b (q + length f + 1) rest" "word b (q, q + length f) = f"
    using at_toks_next(1,4) [OF a2] by simp_all
  ultimately show ?thesis by (intro exI [of _ q] exI [of _ "q + length f + 1"]) (simp add: q_def)
qed

lemma p0_EXEC: "length ws < MAXARGS \<Longrightarrow> p0 (map W ws) (EXEC ws)"
proof (induction ws rule: rev_induct)
  case Nil
  then show ?case using p0_EXEC_Nil by simp
next
  case (snoc w ws)
  show ?case unfolding p0_def
  proof (intro allI impI, elim conjE)
    fix b s rest n
    assume a: "at_toks b s (map W (ws @ [w]) @ rest)" "no_open rest" "4 * (length b - s) + 2 \<le> n"
    then have "at_toks b s (map W ws @ W w # rest)" by simp
    moreover have "p0 (map W ws) (EXEC ws)" using snoc by simp
    ultimately obtain c' s' where e: "s \<le> s'" "at_toks b s' (W w # rest)" "map_cmd (word b) c' = EXEC ws" "parseexec n b s = fin b c' s'"
      using a(3) no_open_simps(2) unfolding p0_def by blast
    have "argc_of c' = Some (length ws)" using argc_of_map [of "word b" c'] e(3) by simp
    then have f: "fin b c' s' = fin b (add_arg (s', s' + length w) c') (s' + length w + 1)"
      using fin_arg [OF e(2)] snoc.prems by simp
    note nx = at_toks_next(1,4) [OF e(2)]
    show "\<exists>c' s'. s \<le> s' \<and> at_toks b s' rest \<and> map_cmd (word b) c' = EXEC (ws @ [w]) \<and> parseexec n b s = fin b c' s'"
      by (rule exI [of _ "add_arg (s', s' + length w) c'"], rule exI [of _ "s' + length w + 1"])
        (use e f nx in \<open>simp add: add_arg_map\<close>)
  qed
qed

lemma p0_REDIR:
  assumes "p0 ts c" and "(mode, fd) \<in> {(O_RDONLY, 0), (O_WRONLY_CREATE_TRUNC, 1), (O_WRONLY_CREATE, 1)}"
  shows "p0 (ts @ [redir_tok mode, W f]) (REDIR c f mode fd)"
  unfolding p0_def
proof (intro allI impI, elim conjE)
  fix b s rest n
  assume a: "at_toks b s ((ts @ [redir_tok mode, W f]) @ rest)" "no_open rest" "4 * (length b - s) + 2 \<le> n"
  then have "at_toks b s (ts @ redir_tok mode # W f # rest)" by simp
  then obtain c' s' where e: "s \<le> s'" "at_toks b s' (redir_tok mode # W f # rest)" "map_cmd (word b) c' = c" "parseexec n b s = fin b c' s'"
    using a(3) assms(1) no_open_simps(3) unfolding p0_def by blast
  obtain q s2 where "fin b c' s' = fin b (REDIR c' (q, q + length f) mode fd) s2" "s' < s2" "at_toks b s2 rest" "word b (q, q + length f) = f"
    using fin_redir [OF e(2) assms(2), of c'] by blast
  then show "\<exists>c' s'. s \<le> s' \<and> at_toks b s' rest \<and> map_cmd (word b) c' = REDIR c f mode fd \<and> parseexec n b s = fin b c' s'"
    by (intro exI [of _ "REDIR c' (q, q + length f) mode fd"] exI [of _ s2]) (use e in simp)
qed

lemma p1_PIPE:
  assumes "p0 ta l" and "p1 tb r"
  shows "p1 (ta @ S 0x7C # tb) (PIPE l r)"
  unfolding p1_def
proof (intro allI impI, elim conjE)
  fix b s rest n
  assume a: "at_toks b s ((ta @ S 0x7C # tb) @ rest)" "stops (bytes_str '');&'') rest" "4 * (length b - s) + 3 \<le> n"
  obtain m where n: "n = Suc m" "4 * (length b - s) + 2 \<le> m" using a(3) by (cases n) auto
  have "at_toks b s (ta @ S 0x7C # tb @ rest)" using a(1) by simp
  moreover have "no_open (S 0x7C # tb @ rest)" by simp
  ultimately obtain l' s1 where l: "s \<le> s1" "at_toks b s1 (S 0x7C # tb @ rest)" "map_cmd (word b) l' = l" "parseexec m b s = fin b l' s1"
    using n(2) assms(1) unfolding p0_def by blast
  have f: "fin b l' s1 = Inr (l', s1)" by (rule fin_stop [OF l(2)]) (simp add: stops_def bytes_str_def)
  have p: "peek b (length b) s1 (bytes_str ''|'') = (True, s1)" using peek_S [OF l(2)] by (simp add: bytes_str_def)
  have af: "at_toks b (after b s1) (tb @ rest)" "s1 < after b s1" using after_S [OF l(2)] by auto
  have "4 * (length b - after b s1) + 3 \<le> m" using af(2) at_toks_le [OF af(1)] l(1) n(2) by linarith
  then obtain r' s2 where "after b s1 \<le> s2" "at_toks b s2 rest" "map_cmd (word b) r' = r" "parsepipe m b (after b s1) = Inr (r', s2)"
    using assms(2) af(1) a(2) unfolding p1_def by blast
  then show "\<exists>c' s'. s \<le> s' \<and> at_toks b s' rest \<and> map_cmd (word b) c' = PIPE l r \<and> parsepipe n b s = Inr (c', s')"
    by (intro exI [of _ "PIPE l' r'"] exI [of _ s2]) (use l f p af n(1) in simp)
qed

lemma p2_BACK:
  assumes "p2 ts c"
  shows "p2 (ts @ [S 0x26]) (BACK c)"
  unfolding p2_def
proof (intro allI impI, elim conjE)
  fix b s rest n
  assume a: "at_toks b s ((ts @ [S 0x26]) @ rest)" "stops (bytes_str '');&'') rest" "4 * (length b - s) + 3 \<le> n"
  have "at_toks b s (ts @ S 0x26 # rest)" "stops (bytes_str '');&'') (S 0x26 # rest)" using a(1) by (simp_all add: stops_def bytes_str_def)
  then obtain c1 s1 c' s' where e: "s \<le> s'" "at_toks b s' (S 0x26 # rest)" "map_cmd (word b) c' = c" "parsepipe n b s = Inr (c1, s1)"
      "parse_back b c1 s1 = parse_back b c' s'"
    using assms a(3) unfolding p2_def by blast
  have "peek b (length b) s' (bytes_str ''&'') = (True, s')" using peek_S [OF e(2)] by (simp add: bytes_str_def)
  then have "parse_back b c' s' = parse_back b (BACK c') (after b s')"
    by (subst parse_back.simps) (simp add: after_def split: prod.splits)
  then show "\<exists>c1 s1 c' s'. s \<le> s' \<and> at_toks b s' rest \<and> map_cmd (word b) c' = BACK c \<and> parsepipe n b s = Inr (c1, s1)
      \<and> parse_back b c1 s1 = parse_back b c' s'"
    using e after_S [OF e(2)] by (intro exI [of _ c1] exI [of _ s1] exI [of _ "BACK c'"] exI [of _ "after b s'"]) simp
qed

lemma p3_LIST:
  assumes "p2 ta l" and "p3 tb r"
  shows "p3 (ta @ S 0x3B # tb) (LIST l r)"
  unfolding p3_def
proof (intro allI impI, elim conjE)
  fix b s rest n
  assume a: "at_toks b s ((ta @ S 0x3B # tb) @ rest)" "stops (bytes_str '')'') rest" "4 * (length b - s) + 4 \<le> n"
  obtain m where n: "n = Suc m" "4 * (length b - s) + 3 \<le> m" using a(3) by (cases n) auto
  have "at_toks b s (ta @ S 0x3B # tb @ rest)" "stops (bytes_str '');&'') (S 0x3B # tb @ rest)"
    using a(1) by (simp_all add: stops_def bytes_str_def)
  then obtain c1 s0 l' s1 where l: "s \<le> s1" "at_toks b s1 (S 0x3B # tb @ rest)" "map_cmd (word b) l' = l" "parsepipe m b s = Inr (c1, s0)"
      "parse_back b c1 s0 = parse_back b l' s1"
    using n(2) assms(1) unfolding p2_def by blast
  have f: "parse_back b c1 s0 = (l', s1)" unfolding l(5) by (rule back_stop [OF l(2)]) (simp add: stops_def bytes_str_def)
  have p: "peek b (length b) s1 (bytes_str '';'') = (True, s1)" using peek_S [OF l(2)] by (simp add: bytes_str_def)
  have af: "at_toks b (after b s1) (tb @ rest)" "s1 < after b s1" using after_S [OF l(2)] by auto
  have "4 * (length b - after b s1) + 4 \<le> m" using af(2) at_toks_le [OF af(1)] l(1) n(2) by linarith
  then obtain r' s2 where "after b s1 \<le> s2" "at_toks b s2 rest" "map_cmd (word b) r' = r" "parseline m b (after b s1) = Inr (r', s2)"
    using assms(2) af(1) a(2) unfolding p3_def by blast
  then show "\<exists>c' s'. s \<le> s' \<and> at_toks b s' rest \<and> map_cmd (word b) c' = LIST l r \<and> parseline n b s = Inr (c', s')"
    by (intro exI [of _ "LIST l' r'"] exI [of _ s2]) (use l(1-4) f p af n(1) in simp)
qed

lemma p0_paren:
  assumes "p3 ts c" and "argc_of c = None"
  shows "p0 (S 0x28 # ts @ [S 0x29]) c"
  unfolding p0_def
proof (intro allI impI, elim conjE)
  fix b s rest n
  assume a: "at_toks b s ((S 0x28 # ts @ [S 0x29]) @ rest)" "no_open rest" "4 * (length b - s) + 2 \<le> n"
  have at: "at_toks b s (S 0x28 # ts @ S 0x29 # rest)" using a(1) by simp
  obtain m where n: "n = Suc (Suc m)" "4 * (length b - s) \<le> m" using a(3) by (cases n; cases "n - 1") auto
  have p: "peek b (length b) s (bytes_str ''('') = (True, s)" using peek_S [OF at] by (simp add: bytes_str_def)
  have af: "at_toks b (after b s) (ts @ S 0x29 # rest)" "s < after b s" using after_S [OF at] by auto
  have "4 * (length b - after b s) + 4 \<le> m" using af(2) at_toks_le [OF af(1)] n(2) by linarith
  moreover have "stops (bytes_str '')'') (S 0x29 # rest)" by (simp add: stops_def bytes_str_def)
  ultimately obtain c' s1 where e: "after b s \<le> s1" "at_toks b s1 (S 0x29 # rest)" "map_cmd (word b) c' = c" "parseline m b (after b s) = Inr (c', s1)"
    using assms(1) af(1) unfolding p3_def by blast
  have p2: "peek b (length b) s1 (bytes_str '')'') = (True, s1)" using peek_S [OF e(2)] by (simp add: bytes_str_def)
  have "parseexec n b s = parseredirs b c' (after b s1)" using p p2 e(4) n(1) by simp
  moreover have "fin b c' (after b s1) = parseredirs b c' (after b s1)"
    using assms(2) argc_of_map [of "word b" c'] e(3) by (simp add: fin_def)
  ultimately show "\<exists>c' s'. s \<le> s' \<and> at_toks b s' rest \<and> map_cmd (word b) c' = c \<and> parseexec n b s = fin b c' s'"
    using after_S [OF e(2)] e(1,3) af(2) by (intro exI [of _ c'] exI [of _ "after b s1"]) simp
qed

lemma reads_all: "p1 ts c \<Longrightarrow> p1 ts c \<and> p2 ts c \<and> p3 ts c"
  using lift12 lift23 by blast

lemma parse_unparse:
  "src_ok c \<Longrightarrow> p0 (unparse 0 c) c \<and> p1 (unparse 1 c) c \<and> p2 (unparse 2 c) c \<and> p3 (unparse 3 c) c"
proof (induction c)
  case (EXEC ws)
  then show ?case using p0_EXEC reads_all [OF lift01] by simp
next
  case (REDIR c f mode fd)
  then have "p0 (unparse 0 c @ [redir_tok mode, W f]) (REDIR c f mode fd)" using p0_REDIR by simp
  then show ?case using reads_all [OF lift01] by simp
next
  case (PIPE l r)
  then have p: "p1 (unparse 0 l @ S 0x7C # unparse 1 r) (PIPE l r)" using p1_PIPE by simp
  then have "p0 (S 0x28 # (unparse 0 l @ S 0x7C # unparse 1 r) @ [S 0x29]) (PIPE l r)"
    using reads_all [OF p] by (intro p0_paren) auto
  then show ?case using reads_all [OF p] by (simp add: paren_def)
next
  case (LIST l r)
  then have p: "p3 (unparse 2 l @ S 0x3B # unparse 3 r) (LIST l r)" using p3_LIST by simp
  then have "p0 (S 0x28 # (unparse 2 l @ S 0x3B # unparse 3 r) @ [S 0x29]) (LIST l r)"
    by (intro p0_paren) auto
  then show ?case using p reads_all [OF lift01] by (simp add: paren_def)
next
  case (BACK c)
  then have p: "p2 (unparse 2 c @ [S 0x26]) (BACK c)" using p2_BACK by simp
  then have "p0 (S 0x28 # (unparse 2 c @ [S 0x26]) @ [S 0x29]) (BACK c)"
    using lift23 by (intro p0_paren) auto
  then show ?case using p lift23 [OF p] reads_all [OF lift01] by (simp add: paren_def)
qed

lemma print_no_zero: "\<forall>t \<in> set ts. good_tok t \<Longrightarrow> 0 \<notin> set (print ts)"
proof -
  have "good_tok t \<Longrightarrow> 0 \<notin> set (show_tok t)" for t
    by (cases t) (auto simp: wordch_def symbols_def bytes_str_def)
  then show "\<forall>t \<in> set ts. good_tok t \<Longrightarrow> 0 \<notin> set (print ts)" by (auto simp: print_def)
qed

text \<open>C10: Every command (arguments and file names non-empty words without separators, at most nine
  arguments, redirections of the three kinds) has a source text, and \<open>parsecmd\<close> reads it back: the
  C strings the parsed command points to, after \<open>nulterminate\<close>, are those of the command.\<close>

theorem parsecmd_unparse:
  assumes "src_ok c"
  shows "\<exists>c' b'. parsecmd (print (unparse 3 c)) = Inr (c', b') \<and> map_cmd (cstr_at b') c' = c"
proof -
  let ?b = "print (unparse 3 c)"
  have at: "at_toks ?b 0 (unparse 3 c @ [])" using unparse_good [OF assms] by (simp add: at_toks_def)
  have "p3 (unparse 3 c) c" using parse_unparse [OF assms] by simp
  then obtain c' s' where e: "at_toks ?b s' []" "map_cmd (word ?b) c' = c" "parseline (4 * length ?b + 4) ?b 0 = Inr (c', s')"
    using at unfolding p3_def stops_def by (metis add.right_neutral diff_zero order_refl)
  have "s' = length ?b" using e(1) by (simp add: at_toks_def print_def)
  moreover have "peek ?b (length ?b) s' [] = (False, s')" using peek_toks [OF e(1)] by simp
  ultimately have p: "parsecmd ?b = Inr (c', nulterminate c' ?b)" using e(3) by (simp add: parsecmd_def)
  have "cmd_ok ?b c'" by (rule parsecmd_ok(1) [OF p print_no_zero [OF unparse_good [OF assms]]])
  then have w: "\<forall>w \<in> set_cmd c'. word_at ?b w" by (simp add: cmd_ok_def)
  have "map_cmd (cstr_at (nulterminate c' ?b)) c' = map_cmd (word ?b) c'"
    by (rule cmd.map_cong0) (use nulterminate_words [OF w] in blast)
  then show ?thesis using p e(2) by auto
qed

theorem parsecmd_unparse_witness:
  "print (unparse 3 (PIPE (LIST (EXEC [bytes_str ''a'']) (EXEC [bytes_str ''b''])) (REDIR (EXEC [bytes_str ''c'']) (bytes_str ''f'') O_RDONLY 0)))
     = bytes_str ''( a ; b ) | c < f ''
   \<and> (\<exists>c' b'. parsecmd (bytes_str ''( a ; b ) | c < f '') = Inr (c', b')
     \<and> map_cmd (cstr_at b') c' = PIPE (LIST (EXEC [bytes_str ''a'']) (EXEC [bytes_str ''b''])) (REDIR (EXEC [bytes_str ''c'']) (bytes_str ''f'') O_RDONLY 0))"
proof -
  let ?c = "PIPE (LIST (EXEC [bytes_str ''a'']) (EXEC [bytes_str ''b''])) (REDIR (EXEC [bytes_str ''c'']) (bytes_str ''f'') O_RDONLY 0)"
  have p: "print (unparse 3 ?c) = bytes_str ''( a ; b ) | c < f ''" by code_simp
  have "src_ok ?c" by code_simp
  from parsecmd_unparse [OF this] show ?thesis unfolding p by blast
qed

end
