(* ===== verification/ShellRun.thy ===== *)
theory ShellRun
  imports ShellPrint
begin

text \<open>
  Running commands: \<open>runcmd\<close>, \<open>getcmd\<close> and \<open>main\<close> of \<^verbatim>\<open>user/sh.c\<close>. A process is the tree of the
  system calls it makes, with what it does for each result; \<open>Fork\<close> holds the child and the parent.
  \<open>run\<close> gives the effect of the calls on a table of file descriptors, in which \<open>open\<close>, \<open>dup\<close>
  and \<open>pipe\<close> take the lowest free entries. Its result is the tree of what the process and its children do: which
  programs they become and where they wait, each with its table, the messages on descriptor 2 and the exit
  status. Which files open, which programs exist and which calls of \<open>fork\<close> and \<open>pipe\<close> succeed are parameters.
\<close>

section \<open>Processes\<close>

datatype sproc =
    Exit int
  | Close nat sproc
  | Open "byte list" nat "int \<Rightarrow> sproc"
  | Dup nat sproc
  | Pipe "(nat \<times> nat) option \<Rightarrow> sproc"
  | Fork sproc "int \<Rightarrow> sproc"
  | Wait sproc
  | Exec "byte list list" sproc
  | Chdir "byte list" "int \<Rightarrow> sproc"
  | Print2 "byte list" sproc

abbreviation NL :: byte where "NL \<equiv> 0x0A"

definition sh_panic :: "string \<Rightarrow> sproc" where
  "sh_panic m = Print2 (vprintf (bytes_str ''%s'' @ [NL]) [AStr (Some (bytes_str m))]) (Exit 1)"

definition fork1 :: "sproc \<Rightarrow> (int \<Rightarrow> sproc) \<Rightarrow> sproc" where
  "fork1 child k = Fork child (\<lambda>pid. if pid = -1 then sh_panic ''fork'' else k pid)"

primrec runcmd :: "byte list cmd \<Rightarrow> sproc" where
  "runcmd (EXEC argv) =
     (if argv = [] then Exit 1
      else Exec argv (Print2 (vprintf (bytes_str ''exec %s failed'' @ [NL]) [AStr (Some (hd argv))]) (Exit 0)))"
| "runcmd (REDIR c f mode fd) =
     Close fd (Open f mode (\<lambda>r.
       if r < 0 then Print2 (vprintf (bytes_str ''open %s failed'' @ [NL]) [AStr (Some f)]) (Exit 1)
       else runcmd c))"
| "runcmd (LIST l r) = fork1 (runcmd l) (\<lambda>_. Wait (runcmd r))"
| "runcmd (PIPE l r) =
     Pipe (\<lambda>p. case p of
         None \<Rightarrow> sh_panic ''pipe''
       | Some (pr, pw) \<Rightarrow>
           fork1 (Close 1 (Dup pw (Close pr (Close pw (runcmd l))))) (\<lambda>_.
           fork1 (Close 0 (Dup pr (Close pr (Close pw (runcmd r))))) (\<lambda>_.
           Close pr (Close pw (Wait (Wait (Exit 0)))))))"
| "runcmd (BACK c) = fork1 (runcmd c) (\<lambda>_. Exit 0)"

definition runline :: "byte list \<Rightarrow> sproc" where
  "runline cmd =
     (case parsecmd cmd of
        Inl (Panics m) \<Rightarrow> sh_panic m
      | Inl (Leftovers s) \<Rightarrow> Print2 (vprintf (bytes_str ''leftovers: %s'' @ [NL]) [AStr (Some (drop s cmd))]) (sh_panic ''syntax'')
      | Inl NoFuel \<Rightarrow> Exit 1
      | Inr (c, b) \<Rightarrow> runcmd (map_cmd (cstr_at b) c))"

text \<open>\<open>gets\<close> of \<^verbatim>\<open>user/ulib.c\<close> on the bytes of the standard input: what it stores and what is left.\<close>

fun gets :: "nat \<Rightarrow> byte list \<Rightarrow> byte list \<times> byte list" where
  "gets m [] = ([], [])"
| "gets m (c # inp) =
     (if m \<le> 1 then ([], c # inp)
      else if c = NL \<or> c = 0x0D then ([c], inp)
      else let (buf, rest) = gets (m - 1) inp in (c # buf, rest))"

lemma gets_append: "gets m inp = (buf, rest) \<Longrightarrow> inp = buf @ rest"
  by (induction m inp arbitrary: buf rule: gets.induct) (auto simp: Let_def split: if_splits prod.splits)

definition getcmd :: "byte list \<Rightarrow> (byte list \<times> byte list) option" where
  "getcmd inp =
     (let (raw, rest) = gets 100 inp; buf = takeWhile (\<lambda>c. c \<noteq> 0) raw in
      if buf = [] then None else Some (buf, rest))"

lemma getcmd_less: "getcmd inp = Some (buf, rest) \<Longrightarrow> length rest < length inp"
  by (auto simp: getcmd_def Let_def dest!: gets_append split: prod.splits if_splits)

function sh_loop :: "byte list \<Rightarrow> sproc" where
  "sh_loop inp =
     Print2 (bytes_str ''$ '') (case getcmd inp of
       None \<Rightarrow> Exit 0
     | Some (buf, rest) \<Rightarrow>
         let cmd = dropWhile (\<lambda>c. c = 0x20 \<or> c = 0x09) buf in
         if cmd \<noteq> [] \<and> hd cmd = NL then sh_loop rest
         else if take 3 cmd = bytes_str ''cd '' then
           let dir = drop 3 (butlast cmd) in
           Chdir dir (\<lambda>r.
             if r < 0 then Print2 (vprintf (bytes_str ''cannot cd %s'' @ [NL]) [AStr (Some dir)]) (sh_loop rest)
             else sh_loop rest)
         else fork1 (runline cmd) (\<lambda>_. Wait (sh_loop rest)))"
  by pat_completeness auto
termination
  by (relation "measure length") (auto dest: getcmd_less)

declare sh_loop.simps [simp del]

text \<open>The loop that opens the console until descriptors 0, 1 and 2 are in use: at most as often as a
  process has descriptors (\<open>NOFILE\<close>, 16).\<close>

fun open_console :: "nat \<Rightarrow> sproc \<Rightarrow> sproc" where
  "open_console 0 k = k"
| "open_console (Suc n) k =
     Open (bytes_str ''console'') 2 (\<lambda>fd. if fd < 0 then k else if 3 \<le> fd then Close (nat fd) k else open_console n k)"

definition sh_main :: "byte list \<Rightarrow> sproc" where
  "sh_main inp = open_console 16 (sh_loop inp)"

section \<open>The effect on file descriptors\<close>

datatype obj = Tty | FileObj "byte list" nat | ReadEnd nat | WriteEnd nat

type_synonym fdtable = "obj option list"

definition lowest :: "fdtable \<Rightarrow> nat" where
  "lowest t = length (takeWhile (\<lambda>x. x \<noteq> None) t)"

text \<open>What the kernel answers: the calls of \<open>fork\<close> and of \<open>pipe\<close> are numbered in the order of \<open>run\<close>.\<close>

record kernel =
  k_opens :: "byte list \<Rightarrow> nat \<Rightarrow> bool"
  k_exists :: "byte list \<Rightarrow> bool"
  k_dir :: "byte list \<Rightarrow> bool"
  k_pipe :: "nat \<Rightarrow> bool"
  k_fork :: "nat \<Rightarrow> bool"

text \<open>What a process does: it ends, becomes a program, forks a child, waits for a child, or writes a message.\<close>

datatype 't beh =
    Ends int
  | Runs "byte list list" 't
  | Forks "'t beh" "'t beh"
  | Waits 't "'t beh"
  | Says "byte list" "'t beh"

primrec run :: "kernel \<Rightarrow> sproc \<Rightarrow> fdtable \<Rightarrow> nat \<times> nat \<Rightarrow> fdtable beh \<times> nat \<times> nat" where
  "run K (Exit n) = (\<lambda>t c. (Ends n, c))"
| "run K (Close fd p) = (\<lambda>t c. run K p (t[fd := None]) c)"
| "run K (Open f mode p) = (\<lambda>t c.
     if k_opens K f mode \<and> lowest t < length t then run K (p (int (lowest t))) (t[lowest t := Some (FileObj f mode)]) c
     else run K (p (-1)) t c)"
| "run K (Dup fd p) = (\<lambda>t c.
     if fd < length t \<and> t ! fd \<noteq> None \<and> lowest t < length t then run K p (t[lowest t := t ! fd]) c
     else run K p t c)"
| "run K (Pipe p) = (\<lambda>t (k, n).
     let i = lowest t; t1 = t[i := Some (ReadEnd k)]; j = lowest t1 in
     if k_pipe K k \<and> i < length t \<and> j < length t then run K (p (Some (i, j))) (t1[j := Some (WriteEnd k)]) (Suc k, n)
     else run K (p None) t (Suc k, n))"
| "run K (Fork child p) = (\<lambda>t (k, n).
     if k_fork K n then
       let (x, c) = run K child t (k, Suc n); (y, c) = run K (p (int (Suc n))) t c in (Forks x y, c)
     else run K (p (-1)) t (k, Suc n))"
| "run K (Wait p) = (\<lambda>t c. let (x, c) = run K p t c in (Waits t x, c))"
| "run K (Exec argv p) = (\<lambda>t c. if k_exists K (hd argv) then (Runs argv t, c) else run K p t c)"
| "run K (Chdir d p) = run K (p (if k_dir K d then 0 else -1))"
| "run K (Print2 bs p) = (\<lambda>t c. let (x, c) = run K p t c in (Says bs x, c))"

text \<open>What a command means, in terms of descriptors 0 and 1 only: a list runs its second command after waiting for the
  first, a pipeline runs both at once and waits for both, a background command is not waited for.\<close>

definition gives_up :: "byte list \<Rightarrow> 't beh" where
  "gives_up m = Says (m @ [NL]) (Ends 1)"

primrec means :: "kernel \<Rightarrow> byte list cmd \<Rightarrow> obj \<Rightarrow> obj \<Rightarrow> nat \<times> nat \<Rightarrow> (obj \<times> obj) beh \<times> nat \<times> nat" where
  "means K (EXEC argv) = (\<lambda>i out c.
     (if argv = [] then Ends 1
      else if k_exists K (hd argv) then Runs argv (i, out)
      else Says (bytes_str ''exec '' @ hd argv @ bytes_str '' failed'' @ [NL]) (Ends 0), c))"
| "means K (REDIR cm f mode fd) = (\<lambda>i out c.
     if \<not> k_opens K f mode then (gives_up (bytes_str ''open '' @ f @ bytes_str '' failed''), c)
     else if fd = 0 then means K cm (FileObj f mode) out c
     else means K cm i (FileObj f mode) c)"
| "means K (LIST l r) = (\<lambda>i out (k, n).
     if k_fork K n then
       let (x, c) = means K l i out (k, Suc n); (y, c) = means K r i out c in (Forks x (Waits (i, out) y), c)
     else (gives_up (bytes_str ''fork''), k, Suc n))"
| "means K (PIPE l r) = (\<lambda>i out (k, n).
     if \<not> k_pipe K k then (gives_up (bytes_str ''pipe''), Suc k, n)
     else if \<not> k_fork K n then (gives_up (bytes_str ''fork''), Suc k, Suc n)
     else
       let (x, k1, n1) = means K l i (WriteEnd k) (Suc k, Suc n) in
       if \<not> k_fork K n1 then (Forks x (gives_up (bytes_str ''fork'')), k1, Suc n1)
       else
         let (y, c) = means K r (ReadEnd k) out (k1, Suc n1) in
         (Forks x (Forks y (Waits (i, out) (Waits (i, out) (Ends 0)))), c))"
| "means K (BACK cm) = (\<lambda>i out (k, n).
     if k_fork K n then let (x, c) = means K cm i out (k, Suc n) in (Forks x (Ends 0), c)
     else (gives_up (bytes_str ''fork''), k, Suc n))"

definition std :: "obj \<Rightarrow> obj \<Rightarrow> obj \<Rightarrow> fdtable" where
  "std i out err = [Some i, Some out, Some err] @ replicate 13 None"

lemma std_simps:
  "lowest (std i out err) = 3" "length (std i out err) = 16"
  "(std i out err)[0 := Some x] = std x out err" "(std i out err)[Suc 0 := Some x] = std i x err"
  "(std i out err)[0 := None, 0 := Some x] = std x out err"
  "(std i out err)[Suc 0 := None, Suc 0 := Some x] = std i x err"
  "lowest ((std i out err)[0 := None]) = 0" "lowest ((std i out err)[Suc 0 := None]) = 1"
  by (simp_all add: std_def lowest_def numeral_eq_Suc)

definition pipes_of :: "obj \<Rightarrow> obj \<Rightarrow> obj \<Rightarrow> nat \<Rightarrow> fdtable" where
  "pipes_of i out err k = (std i out err)[3 := Some (ReadEnd k), 4 := Some (WriteEnd k)]"

lemma run_Pipe_std:
  "run K (Pipe p) (std i out err) (k, n) =
     (if k_pipe K k then run K (p (Some (3, 4))) (pipes_of i out err k) (Suc k, n)
      else run K (p None) (std i out err) (Suc k, n))"
  by (simp add: Let_def pipes_of_def std_simps) (simp add: std_def lowest_def numeral_eq_Suc)

lemma run_left:
  "run K (Close 1 (Dup 4 (Close 3 (Close 4 p)))) (pipes_of i out err k) c = run K p (std i (WriteEnd k) err) c"
  by (simp add: pipes_of_def std_def lowest_def numeral_eq_Suc)

lemma run_right:
  "run K (Close 0 (Dup 3 (Close 3 (Close 4 p)))) (pipes_of i out err k) c = run K p (std (ReadEnd k) out err) c"
  by (simp add: pipes_of_def std_def lowest_def numeral_eq_Suc)

lemma run_parent: "run K (Close 3 (Close 4 p)) (pipes_of i out err k) c = run K p (std i out err) c"
  by (simp add: pipes_of_def std_def numeral_eq_Suc)

lemma run_panic: "run K (sh_panic m) t c = (gives_up (takeWhile (\<lambda>c. c \<noteq> 0) (bytes_str m)), c)"
  by (simp add: sh_panic_def gives_up_def vprintf_def conversion_def chr0_def bytes_str_def Let_def)

lemma run_fork1:
  "run K (fork1 child p) t (k, n) =
     (if k_fork K n then
        let (x, c) = run K child t (k, Suc n); (y, c) = run K (p (int (Suc n))) t c in (Forks x y, c)
      else (gives_up (bytes_str ''fork''), k, Suc n))"
  by (simp add: fork1_def run_panic bytes_str_def)

lemma said:
  assumes "0 \<notin> set w"
  shows "vprintf (bytes_str ''exec %s failed'' @ [NL]) [AStr (Some w)] = bytes_str ''exec '' @ w @ bytes_str '' failed'' @ [NL]"
    and "vprintf (bytes_str ''open %s failed'' @ [NL]) [AStr (Some w)] = bytes_str ''open '' @ w @ bytes_str '' failed'' @ [NL]"
proof -
  have "takeWhile (\<lambda>c. c \<noteq> 0) w = w" using assms by (auto simp: takeWhile_eq_all_conv)
  then show "vprintf (bytes_str ''exec %s failed'' @ [NL]) [AStr (Some w)] = bytes_str ''exec '' @ w @ bytes_str '' failed'' @ [NL]"
    and "vprintf (bytes_str ''open %s failed'' @ [NL]) [AStr (Some w)] = bytes_str ''open '' @ w @ bytes_str '' failed'' @ [NL]"
    by (simp_all add: vprintf_def conversion_def chr0_def bytes_str_def Let_def)
qed

definition with_std :: "obj \<Rightarrow> (obj \<times> obj) beh \<times> nat \<times> nat \<Rightarrow> fdtable beh \<times> nat \<times> nat" where
  "with_std err r = (map_beh (\<lambda>(i, out). std i out err) (fst r), snd r)"

lemma good_nonzero: "good_tok (W w) \<Longrightarrow> 0 \<notin> set w"
  by (auto simp: wordch_def)

lemma run_runcmd:
  "src_ok c \<Longrightarrow> run K (runcmd c) (std i out err) kn = with_std err (means K c i out kn)"
proof (induction c arbitrary: i out kn)
  case (EXEC ws)
  then show ?case
    by (cases ws) (auto simp: with_std_def said(1) [OF good_nonzero] simp del: good_tok.simps)
next
  case (REDIR c f mode fd)
  then have f: "0 \<notin> set f" and fd: "fd = 0 \<or> fd = 1" using good_nonzero by auto
  from fd REDIR show ?case
    by (cases kn) (auto simp: with_std_def gives_up_def std_simps said(2) [OF f])
next
  case (PIPE l r)
  then show ?case
    by (cases kn) (simp add: run_Pipe_std run_fork1 run_left run_right run_parent run_panic with_std_def gives_up_def
        bytes_str_def Let_def del: run.simps(2,4,5) One_nat_def split: prod.splits)
next
  case (LIST l r)
  then show ?case by (cases kn) (simp add: run_fork1 with_std_def gives_up_def Let_def split: prod.splits)
next
  case (BACK c)
  then show ?case by (cases kn) (simp add: run_fork1 with_std_def gives_up_def Let_def split: prod.splits)
qed

text \<open>C11: \<open>runcmd\<close>, started with descriptors 0, 1 and 2 open and no others, does what the command means, whichever
  files open, whichever programs exist and whichever calls of \<open>fork\<close> and \<open>pipe\<close> fail. The second command of a list
  starts after a \<open>wait\<close> that follows the fork of the first; both commands of a pipeline are forked before the
  shell waits for the two; a background command is not waited for; a failed call gives its message and exit status 1,
  and nothing is started after it. Every program, and every shell process that waits, has exactly
  descriptors 0, 1 and 2 open: 0 and 1 are the file of the innermost redirection or the end of the pipe that the
  command says, so that no process outside the left side of a pipeline has its write end.\<close>

theorem runcmd_descriptors:
  assumes "src_ok c"
  shows "run K (runcmd c) (std i out err) (k, n) =
    (let (x, k', n') = means K c i out (k, n) in (map_beh (\<lambda>(i, out). std i out err) x, k', n'))"
  using run_runcmd [OF assms] by (simp add: with_std_def split: prod.split)

theorem runcmd_descriptors_witness:
  "run \<lparr>k_opens = \<lambda>f m. True, k_exists = \<lambda>f. True, k_dir = \<lambda>d. True, k_pipe = \<lambda>k. True, k_fork = \<lambda>n. n < 2\<rparr>
     (runcmd (PIPE (EXEC [bytes_str ''a''])
       (LIST (REDIR (EXEC [bytes_str ''b'']) (bytes_str ''f'') O_WRONLY_CREATE_TRUNC 1) (EXEC [bytes_str ''c'']))))
     (std Tty Tty Tty) (0, 0)
   = (Forks (Runs [bytes_str ''a''] (std Tty (WriteEnd 0) Tty))
       (Forks (Says (bytes_str ''fork'' @ [NL]) (Ends 1)) (Waits (std Tty Tty Tty) (Waits (std Tty Tty Tty) (Ends 0)))), 1, 3)"
proof -
  have ok: "src_ok (PIPE (EXEC [bytes_str ''a''])
      (LIST (REDIR (EXEC [bytes_str ''b'']) (bytes_str ''f'') O_WRONLY_CREATE_TRUNC 1) (EXEC [bytes_str ''c''])))"
    by code_simp
  show ?thesis unfolding runcmd_descriptors [OF ok] by (simp add: gives_up_def)
qed

text \<open>The path of \<open>cd\<close> is cut by one byte when the line does not end in a newline, as the last line of a file
  or a line of 99 bytes or more.\<close>

lemma cd_chops: "sh_loop (bytes_str ''cd ab'') = Print2 (bytes_str ''$ '') (Chdir (bytes_str ''a'') (\<lambda>r.
    if r < 0 then Print2 (vprintf (bytes_str ''cannot cd %s'' @ [NL]) [AStr (Some (bytes_str ''a''))]) (sh_loop []) else sh_loop []))"
proof -
  have "getcmd (bytes_str ''cd ab'') = Some (bytes_str ''cd ab'', [])" by code_simp
  moreover have "dropWhile (\<lambda>c. c = 0x20 \<or> c = 0x09) (bytes_str ''cd ab'') = bytes_str ''cd ab''" by code_simp
  moreover have "hd (bytes_str ''cd ab'') \<noteq> NL" "take 3 (bytes_str ''cd ab'') = bytes_str ''cd ''"
    "drop 3 (butlast (bytes_str ''cd ab'')) = bytes_str ''a''" by code_simp+
  ultimately show ?thesis by (subst sh_loop.simps) (simp add: Let_def)
qed

end
