(* ===== verification/Virtio.thy ===== *)
theory Virtio
  imports Bytes Fifo
begin

unbundle bit_operations_syntax

text \<open>
  The driver of the disk, \<^verbatim>\<open>kernel/virtio_disk.c\<close>. The two rings are shared with the device, each with the
  counter of its producer and of its consumer (\<open>avail->idx\<close> and the device's own, \<open>used->idx\<close> and
  \<open>disk.used_idx\<close>); the addresses in a descriptor name the object they point to. A process in
  \<open>virtio_disk_rw\<close> is between two of its sleeps: \<open>Want\<close> before it has descriptors, \<open>Waiting\<close>
  (with its local \<open>idx\<close>) after it has told the device; the flag says whether it sleeps. The regions
  between sleeps run under \<open>vdisk_lock\<close>. The registers the driver reads are a function \<open>rd\<close>, the writes a
  list. The device is a parameter, a relation on states.
\<close>

section \<open>Rings\<close>

record 'a vring =
  vr_ring :: "'a list"
  vr_prod :: u16
  vr_cons :: u16

definition vr_q :: "'a vring \<Rightarrow> 'a list" where
  "vr_q x = map (\<lambda>k. vr_ring x ! (unat (vr_cons x + of_nat k) mod 8)) [0..<unat (vr_prod x - vr_cons x)]"

definition vr_ok :: "'a vring \<Rightarrow> bool" where
  "vr_ok x \<longleftrightarrow> length (vr_ring x) = 8 \<and> unat (vr_prod x - vr_cons x) \<le> 8"

definition vr_push :: "'a \<Rightarrow> 'a vring \<Rightarrow> 'a vring" where
  "vr_push a x = x\<lparr>vr_ring := (vr_ring x)[unat (vr_prod x mod 8) := a], vr_prod := vr_prod x + 1\<rparr>"

definition vr_pop :: "'a vring \<Rightarrow> 'a vring" where
  "vr_pop x = x\<lparr>vr_cons := vr_cons x + 1\<rparr>"

definition vr_front :: "'a vring \<Rightarrow> 'a" where
  "vr_front x = vr_ring x ! unat (vr_cons x mod 8)"

lemma length_vr_q [simp]: "length (vr_q x) = unat (vr_prod x - vr_cons x)"
  by (simp add: vr_q_def)

lemma vr_slot: "unat (a + of_nat k) mod 8 = (unat a + k) mod 8" for a :: u16
proof -
  have "unat (a + of_nat k) = (unat a + k) mod 2 ^ 16"
    by (simp add: unat_word_ariths unat_of_nat take_bit_eq_mod mod_add_right_eq)
  then have "unat (a + of_nat k) mod 8 = (unat a + k) mod 2 ^ 16 mod 8" by simp
  also have "\<dots> = (unat a + k) mod 8" by (rule mod_mod_cancel) simp
  finally show ?thesis .
qed

lemma vr_count: "vr_prod x = vr_cons x + of_nat (length (vr_q x))"
  by simp

lemma vr_q_nth: "k < length (vr_q x) \<Longrightarrow> vr_q x ! k = vr_ring x ! ((unat (vr_cons x) + k) mod 8)"
  by (simp add: vr_q_def vr_slot)

lemma vr_slot_inj:
  assumes "i < j" and "j < i + 8"
  shows "(a + i) mod 8 \<noteq> (a + j) mod (8 :: nat)"
proof
  assume "(a + i) mod 8 = (a + j) mod 8"
  then have "8 dvd a + j - (a + i)" using assms(1) by (subst mod_eq_dvd_iff_nat [symmetric]) auto
  then show False using assms by (auto dest: dvd_imp_le)
qed

lemma vr_push_q:
  assumes "length (vr_ring x) = 8" and "length (vr_q x) < 8"
  shows "vr_q (vr_push a x) = vr_q x @ [a]" "length (vr_ring (vr_push a x)) = 8"
proof -
  define n where "n = length (vr_q x)"
  have w: "vr_prod x = vr_cons x + of_nat n" using vr_count [of x] by (simp only: n_def)
  have n: "n < 8" using assms(2) by (simp only: n_def)
  have "vr_prod (vr_push a x) - vr_cons (vr_push a x) = of_nat (Suc n)" by (simp add: vr_push_def w)
  then have len: "length (vr_q (vr_push a x)) = Suc n" using n by (simp del: of_nat_Suc)
  show "vr_q (vr_push a x) = vr_q x @ [a]"
  proof (rule nth_equalityI)
    fix k assume "k < length (vr_q (vr_push a x))"
    then have k: "k < Suc n" using len by simp
    have s: "unat (vr_prod x mod 8) = (unat (vr_cons x) + n) mod 8" using vr_slot [of "vr_cons x" n] by (simp add: w unat_mod)
    have "vr_q (vr_push a x) ! k = vr_ring (vr_push a x) ! ((unat (vr_cons (vr_push a x)) + k) mod 8)"
      by (rule vr_q_nth) (use k len in simp)
    also have "\<dots> = (if k = n then a else vr_ring x ! ((unat (vr_cons x) + k) mod 8))"
      using k n vr_slot_inj [of k n "unat (vr_cons x)"] assms(1) by (auto simp: vr_push_def s)
    also have "\<dots> = (vr_q x @ [a]) ! k"
      using k vr_q_nth [of k x] by (auto simp: nth_append n_def [symmetric] less_Suc_eq simp del: length_vr_q)
    finally show "vr_q (vr_push a x) ! k = (vr_q x @ [a]) ! k" .
  qed (simp add: len n_def [symmetric] del: length_vr_q)
  show "length (vr_ring (vr_push a x)) = 8" using assms(1) by (simp add: vr_push_def)
qed

lemma vr_pop_q:
  assumes "vr_q x = a # as"
  shows "vr_q (vr_pop x) = as" "vr_front x = a"
proof -
  define n where "n = length as"
  have len: "length (vr_q x) = Suc n" unfolding assms n_def by simp
  have "unat (vr_prod x - vr_cons x) < 2 ^ LENGTH(16)" by (rule unsigned_less)
  then have n: "Suc n < 65536" using len by simp
  have w: "vr_prod x = vr_cons x + of_nat (Suc n)" using vr_count [of x] unfolding len .
  have "vr_prod (vr_pop x) - vr_cons (vr_pop x) = of_nat n" by (simp add: vr_pop_def w)
  then have len': "length (vr_q (vr_pop x)) = n" using n by (simp add: unat_of_nat take_bit_eq_mod)
  show "vr_q (vr_pop x) = as"
  proof (rule nth_equalityI)
    fix k assume k: "k < length (vr_q (vr_pop x))"
    have "as ! k = vr_q x ! Suc k" by (simp add: assms)
    also have "\<dots> = vr_ring x ! ((unat (vr_cons x) + Suc k) mod 8)" by (rule vr_q_nth) (use k len' assms n_def in simp)
    also have "\<dots> = vr_q (vr_pop x) ! k"
      using vr_slot [of "vr_cons x" "Suc k"] k by (simp add: vr_q_def vr_pop_def add.assoc)
    finally show "vr_q (vr_pop x) ! k = as ! k" by simp
  qed (simp add: len' n_def del: length_vr_q)
  show "vr_front x = a" using vr_q_nth [of 0 x] assms len by (simp add: vr_front_def unat_mod)
qed

lemma vr_pop_less: "vr_cons x \<noteq> vr_prod x \<Longrightarrow> length (vr_q (vr_pop x)) < length (vr_q x)"
proof -
  assume "vr_cons x \<noteq> vr_prod x"
  then obtain a as where q: "vr_q x = a # as" using vr_count [of x] by (cases "vr_q x") auto
  show ?thesis using vr_pop_q(1) [OF q] q by simp
qed

interpretation vring_fifo: bounded_fifo vr_ok vr_q 8 "\<lambda>x. vr_cons x = vr_prod x"
  "\<lambda>x. vr_prod x = vr_cons x + 8" vr_front vr_push vr_pop
proof
  fix x :: "'a vring" assume ok: "vr_ok x"
  show "length (vr_q x) \<le> 8" using ok by (simp add: vr_ok_def)
  show "vr_cons x = vr_prod x \<longleftrightarrow> vr_q x = []"
    using vr_count [of x] length_vr_q [of x] by (auto simp flip: length_0_conv simp: unat_eq_0)
  have "vr_prod x = vr_cons x + 8" if "length (vr_q x) = 8"
    using that by (metis of_nat_numeral vr_count)
  then show "vr_prod x = vr_cons x + 8 \<longleftrightarrow> length (vr_q x) = 8" by auto
next
  fix x :: "'a vring" and a assume ok: "vr_ok x" and nf: "vr_prod x \<noteq> vr_cons x + 8"
  have "length (vr_q x) \<noteq> 8" using nf by (metis of_nat_numeral vr_count)
  then have l: "length (vr_q x) < 8" using ok by (simp add: vr_ok_def)
  have r: "length (vr_ring x) = 8" using ok by (simp add: vr_ok_def)
  have "unat (vr_prod (vr_push a x) - vr_cons (vr_push a x)) = Suc (length (vr_q x))"
    using arg_cong [OF vr_push_q(1) [OF r l, of a], of length] by (simp only: length_append length_vr_q) simp
  then show "vr_ok (vr_push a x) \<and> vr_q (vr_push a x) = vr_q x @ [a]"
    using vr_push_q [OF r l] l by (simp add: vr_ok_def)
next
  fix x :: "'a vring" and a as assume ok: "vr_ok x" and q: "vr_q x = a # as"
  have "length (vr_q (vr_pop x)) < length (vr_q x)" using vr_pop_q(1) [OF q] q by simp
  moreover have "length (vr_q x) \<le> 8" using ok by (simp add: vr_ok_def)
  ultimately have "unat (vr_prod (vr_pop x) - vr_cons (vr_pop x)) \<le> 8" by (simp only: length_vr_q)
  then show "vr_front x = a \<and> vr_ok (vr_pop x) \<and> vr_q (vr_pop x) = as"
    using vr_pop_q [OF q] ok by (simp add: vr_ok_def) (simp add: vr_pop_def)
qed

section \<open>The state of the driver\<close>

datatype vaddr = Null | OpOf nat | DataOf nat | StatusOf nat

record virtq_desc =
  d_addr :: vaddr
  d_len :: u32
  d_flags :: u16
  d_next :: u16

record virtio_blk_req =
  rq_type :: u32
  rq_reserved :: u32
  rq_sector :: u64

datatype rwpc = Idle | Want bool bool | Waiting "nat \<times> nat \<times> nat" bool bool

record vdisk =
  desc :: "nat \<Rightarrow> virtq_desc"
  avail :: "u16 vring"
  used :: "u32 vring"
  vfree :: "nat \<Rightarrow> bool"
  info_b :: "nat \<Rightarrow> nat option"
  info_status :: "nat \<Rightarrow> byte"
  ops :: "nat \<Rightarrow> virtio_blk_req"
  rw :: "nat \<Rightarrow> rwpc"
  bf_disk :: "nat \<Rightarrow> bool"
  bf_data :: "nat \<Rightarrow> byte list"
  bf_blockno :: "nat \<Rightarrow> u32"
  pend :: "u16 list"
  sectors :: "u64 \<Rightarrow> byte list"

abbreviation (input) NUM :: nat where "NUM \<equiv> 8"
abbreviation (input) F_NEXT :: u16 where "F_NEXT \<equiv> 1"
abbreviation (input) F_WRITE :: u16 where "F_WRITE \<equiv> 2"

definition desc0 :: virtq_desc where
  "desc0 = \<lparr>d_addr = Null, d_len = 0, d_flags = 0, d_next = 0\<rparr>"

text \<open>\<open>wakeup(&disk.free[0])\<close> and \<open>wakeup(b)\<close>.\<close>

definition wake_free :: "vdisk \<Rightarrow> vdisk" where
  "wake_free v = v\<lparr>rw := \<lambda>b. case rw v b of Want w _ \<Rightarrow> Want w False | r \<Rightarrow> r\<rparr>"

definition wake_buf :: "nat \<Rightarrow> vdisk \<Rightarrow> vdisk" where
  "wake_buf b v = v\<lparr>rw := (rw v)(b := (case rw v b of Waiting ids w _ \<Rightarrow> Waiting ids w False | r \<Rightarrow> r))\<rparr>"

section \<open>Operations\<close>

definition alloc_desc :: "vdisk \<Rightarrow> nat option \<times> vdisk" where
  "alloc_desc v =
     (case List.find (\<lambda>i. vfree v i) [0..<NUM] of
        Some i \<Rightarrow> (Some i, v\<lparr>vfree := (vfree v)(i := False)\<rparr>)
      | None \<Rightarrow> (None, v))"

definition free_desc :: "nat \<Rightarrow> vdisk \<Rightarrow> string + vdisk" where
  "free_desc i v =
     (if NUM \<le> i then Inl ''free_desc 1''
      else if vfree v i then Inl ''free_desc 2''
      else Inr (wake_free (v\<lparr>desc := (desc v)(i := desc0), vfree := (vfree v)(i := True)\<rparr>)))"

definition busy :: "vdisk \<Rightarrow> nat set" where
  "busy v = {i. i < NUM \<and> \<not> vfree v i}"

lemma free_desc_busy:
  assumes "free_desc i v = Inr v'"
  shows "busy v' = busy v - {i}" "i \<in> busy v"
  using assms by (auto simp: free_desc_def wake_free_def busy_def split: if_splits)

lemma busy_finite [simp]: "finite (busy v)" by (simp add: busy_def)

lemma free_desc_card: "free_desc i v = Inr v' \<Longrightarrow> card (busy v') < card (busy v)"
  using free_desc_busy [of i v v'] card_Diff1_less [of "busy v" i] by simp

function free_chain :: "nat \<Rightarrow> vdisk \<Rightarrow> string + vdisk" where
  "free_chain i v =
     (let flag = d_flags (desc v i); nxt = unat (d_next (desc v i)) in
      case free_desc i v of
        Inl m \<Rightarrow> Inl m
      | Inr v \<Rightarrow> if flag AND F_NEXT \<noteq> 0 then free_chain nxt v else Inr v)"
  by pat_completeness auto
termination
  by (relation "measure (\<lambda>(i, v). card (busy v))") (simp_all add: free_desc_card)

declare free_chain.simps [simp del]

definition alloc3_desc :: "vdisk \<Rightarrow> string + (nat \<times> nat \<times> nat) option \<times> vdisk" where
  "alloc3_desc v =
     (case alloc_desc v of
        (None, v) \<Rightarrow> Inr (None, v)
      | (Some i0, v) \<Rightarrow>
     (case alloc_desc v of
        (None, v) \<Rightarrow> (case free_desc i0 v of Inl m \<Rightarrow> Inl m | Inr v \<Rightarrow> Inr (None, v))
      | (Some i1, v) \<Rightarrow>
     (case alloc_desc v of
        (None, v) \<Rightarrow>
          (case free_desc i0 v of Inl m \<Rightarrow> Inl m | Inr v \<Rightarrow>
           case free_desc i1 v of Inl m \<Rightarrow> Inl m | Inr v \<Rightarrow> Inr (None, v))
      | (Some i2, v) \<Rightarrow> Inr (Some (i0, i1, i2), v))))"

definition sector_of :: "u32 \<Rightarrow> u64" where
  "sector_of blockno = ucast (blockno * 2)"

text \<open>The three descriptors of a request, and telling the device.\<close>

definition submit :: "nat \<Rightarrow> bool \<Rightarrow> nat \<times> nat \<times> nat \<Rightarrow> vdisk \<Rightarrow> vdisk" where
  "submit b write idx v = (case idx of (i0, i1, i2) \<Rightarrow>
     let v = v\<lparr>ops := (ops v)(i0 := \<lparr>rq_type = (if write then 1 else 0), rq_reserved = 0, rq_sector = sector_of (bf_blockno v b)\<rparr>)\<rparr>;
         v = v\<lparr>desc := (desc v)(i0 := \<lparr>d_addr = OpOf i0, d_len = 16, d_flags = F_NEXT, d_next = of_nat i1\<rparr>)\<rparr>;
         v = v\<lparr>desc := (desc v)(i1 := \<lparr>d_addr = DataOf b, d_len = 1024,
               d_flags = (if write then 0 else F_WRITE) OR F_NEXT, d_next = of_nat i2\<rparr>)\<rparr>;
         v = v\<lparr>info_status := (info_status v)(i0 := 0xFF)\<rparr>;
         v = v\<lparr>desc := (desc v)(i2 := \<lparr>d_addr = StatusOf i0, d_len = 1, d_flags = F_WRITE, d_next = 0\<rparr>)\<rparr>;
         v = v\<lparr>bf_disk := (bf_disk v)(b := True), info_b := (info_b v)(i0 := Some b)\<rparr> in
     v\<lparr>avail := vr_push (of_nat i0) (avail v)\<rparr>)"

definition set_rw :: "nat \<Rightarrow> rwpc \<Rightarrow> vdisk \<Rightarrow> vdisk" where
  "set_rw b r v = v\<lparr>rw := (rw v)(b := r)\<rparr>"

text \<open>\<open>virtio_disk_rw\<close> from one sleep to the next (or to its return).\<close>

definition virtio_disk_rw :: "nat \<Rightarrow> vdisk \<Rightarrow> string + vdisk" where
  "virtio_disk_rw b v =
     (case rw v b of
        Idle \<Rightarrow> Inr v
      | Want write _ \<Rightarrow>
          (case alloc3_desc v of
             Inl m \<Rightarrow> Inl m
           | Inr (None, v) \<Rightarrow> Inr (set_rw b (Want write True) v)
           | Inr (Some idx, v) \<Rightarrow> Inr (set_rw b (Waiting idx write True) (submit b write idx v)))
      | Waiting idx write _ \<Rightarrow>
          if bf_disk v b then Inr (set_rw b (Waiting idx write True) v)
          else (case free_chain (fst idx) (v\<lparr>info_b := (info_b v)(fst idx := None)\<rparr>) of
                  Inl m \<Rightarrow> Inl m
                | Inr v \<Rightarrow> Inr (set_rw b Idle v)))"

function virtio_disk_intr :: "vdisk \<Rightarrow> string + vdisk" where
  "virtio_disk_intr v =
     (if vr_cons (used v) = vr_prod (used v) then Inr v
      else
        let id = unat (vr_front (used v)) in
        if info_status v id \<noteq> 0 then Inl ''virtio_disk_intr status''
        else
          case info_b v id of
            None \<Rightarrow> Inl ''kerneltrap''
          | Some b \<Rightarrow>
              let v = wake_buf b (v\<lparr>bf_disk := (bf_disk v)(b := False)\<rparr>) in
              virtio_disk_intr (v\<lparr>used := vr_pop (used v)\<rparr>))"
  by pat_completeness auto
termination
  by (relation "measure (\<lambda>v. length (vr_q (used v)))") (simp_all add: wake_buf_def vr_pop_less del: length_vr_q)

declare virtio_disk_intr.simps [simp del]

section \<open>Initialization\<close>

text \<open>\<open>rd\<close> gives what the driver reads from a register of the device (each is read at most once), \<open>ka\<close> the
  addresses of the three pages from \<open>kalloc\<close>, 0 when there is none. The result is the sequence of
  writes to registers and the state of the driver.\<close>

definition zero_ring :: "'a::zero vring" where
  "zero_ring = \<lparr>vr_ring = replicate 8 0, vr_prod = 0, vr_cons = 0\<rparr>"

definition driver_features :: "u32 \<Rightarrow> u32" where
  "driver_features features = fold (\<lambda>k f. f AND NOT (push_bit k 1)) [5, 7, 11, 12, 27, 29, 28] features"

definition virtio_disk_init :: "(nat \<Rightarrow> u32) \<Rightarrow> u64 \<times> u64 \<times> u64 \<Rightarrow> vdisk \<Rightarrow> string + (nat \<times> u32) list \<times> vdisk" where
  "virtio_disk_init rd ka v = (case ka of (kdesc, kavail, kused) \<Rightarrow>
     if rd 0x000 \<noteq> 0x74726976 \<or> rd 0x004 \<noteq> 2 \<or> rd 0x008 \<noteq> 2 \<or> rd 0x00C \<noteq> 0x554D4551 then Inl ''could not find virtio disk''
     else
       let status = 0; ws = [(0x070, status)];
           status = status OR 1; ws = ws @ [(0x070, status)];
           status = status OR 2; ws = ws @ [(0x070, status)];
           ws = ws @ [(0x020, driver_features (rd 0x010))];
           status = status OR 8; ws = ws @ [(0x070, status)];
           status = rd 0x070 in
       if status AND 8 = 0 then Inl ''virtio disk FEATURES_OK unset''
       else
         let ws = ws @ [(0x030, 0)] in
         if rd 0x044 \<noteq> 0 then Inl ''virtio disk should not be ready''
         else
           let max_num = rd 0x034 in
           if max_num = 0 then Inl ''virtio disk has no queue 0''
           else if max_num < 8 then Inl ''virtio disk max queue too short''
           else if kdesc = 0 \<or> kavail = 0 \<or> kused = 0 then Inl ''virtio disk kalloc''
           else
             let v = v\<lparr>desc := \<lambda>_. desc0, avail := zero_ring, used := (used v)\<lparr>vr_ring := replicate 8 0, vr_prod := 0\<rparr>\<rparr>;
                 ws = ws @ [(0x038, 8),
                   (0x080, ucast kdesc), (0x084, ucast (drop_bit 32 kdesc)),
                   (0x090, ucast kavail), (0x094, ucast (drop_bit 32 kavail)),
                   (0x0A0, ucast kused), (0x0A4, ucast (drop_bit 32 kused)),
                   (0x044, 1)];
                 v = v\<lparr>vfree := \<lambda>i. i < NUM \<or> vfree v i\<rparr> in
             Inr (ws @ [(0x070, status OR 4)], v))"

section \<open>The device\<close>

text \<open>What the virtio specification says a block device does. It takes the heads of chains from the ring of
  available descriptors, performs the requests it has taken in any order, writes their status and
  puts the heads into the ring of used descriptors. It may do anything with a chain that is not a
  well-formed request.\<close>

definition dev_fetch :: "vdisk \<Rightarrow> vdisk" where
  "dev_fetch v = v\<lparr>pend := pend v @ [vr_front (avail v)], avail := vr_pop (avail v)\<rparr>"

definition dev_chain :: "vdisk \<Rightarrow> u16 \<Rightarrow> virtq_desc \<times> virtq_desc \<times> virtq_desc" where
  "dev_chain v h =
     (let d0 = desc v (unat h); d1 = desc v (unat (d_next d0)) in (d0, d1, desc v (unat (d_next d1))))"

definition request_ok :: "vdisk \<Rightarrow> u16 \<Rightarrow> bool" where
  "request_ok v h = (case dev_chain v h of (d0, d1, d2) \<Rightarrow>
     (\<exists>k b j. d_addr d0 = OpOf k \<and> d_addr d1 = DataOf b \<and> d_addr d2 = StatusOf j \<and> k < NUM \<and> j < NUM
        \<and> d_len d0 = 16 \<and> d_len d1 = 1024 \<and> d_len d2 = 1 \<and> d_flags d0 = F_NEXT \<and> d_flags d2 = F_WRITE
        \<and> (rq_type (ops v k) = 1 \<and> d_flags d1 = F_NEXT \<or> rq_type (ops v k) = 0 \<and> d_flags d1 = F_NEXT OR F_WRITE)))"

definition sectors_write :: "u64 \<Rightarrow> byte list \<Rightarrow> (u64 \<Rightarrow> byte list) \<Rightarrow> (u64 \<Rightarrow> byte list)" where
  "sectors_write n data ss = ss(n := take 512 data, n + 1 := drop 512 data)"

definition sectors_read :: "u64 \<Rightarrow> (u64 \<Rightarrow> byte list) \<Rightarrow> byte list" where
  "sectors_read n ss = ss n @ ss (n + 1)"

definition dev_done :: "u16 \<Rightarrow> vdisk \<Rightarrow> vdisk" where
  "dev_done h v = (case dev_chain v h of (d0, d1, d2) \<Rightarrow>
     (case (d_addr d0, d_addr d1, d_addr d2) of
        (OpOf k, DataOf b, StatusOf j) \<Rightarrow>
          let r = ops v k;
              v = (if rq_type r = 1 then v\<lparr>sectors := sectors_write (rq_sector r) (bf_data v b) (sectors v)\<rparr>
                   else v\<lparr>bf_data := (bf_data v)(b := sectors_read (rq_sector r) (sectors v))\<rparr>) in
          v\<lparr>info_status := (info_status v)(j := 0), pend := remove1 h (pend v), used := vr_push (ucast h) (used v)\<rparr>
      | _ \<Rightarrow> v))"

text \<open>A request that ends with an error status: the data of a failed read and the block of a failed write are
  not specified.\<close>

definition dev_error :: "u16 \<Rightarrow> byte \<Rightarrow> byte list \<Rightarrow> vdisk \<Rightarrow> vdisk" where
  "dev_error h st d v = (case dev_chain v h of (d0, d1, d2) \<Rightarrow>
     (case (d_addr d0, d_addr d1, d_addr d2) of
        (OpOf k, DataOf b, StatusOf j) \<Rightarrow>
          let r = ops v k;
              v = (if rq_type r = 1 then v\<lparr>sectors := sectors_write (rq_sector r) d (sectors v)\<rparr>
                   else v\<lparr>bf_data := (bf_data v)(b := d)\<rparr>) in
          v\<lparr>info_status := (info_status v)(j := st), pend := remove1 h (pend v), used := vr_push (ucast h) (used v)\<rparr>
      | _ \<Rightarrow> v))"

text \<open>A block device may report an error for any request (a sector it does not have, a failure of the medium).
  \<open>device\<close> is one that never does.\<close>

definition blk_device :: "(vdisk \<Rightarrow> vdisk \<Rightarrow> bool) \<Rightarrow> bool" where
  "blk_device dev \<longleftrightarrow>
     (\<forall>v v'. dev v v' \<longrightarrow> vr_q (avail v) \<noteq> [] \<and> v' = dev_fetch v
        \<or> (\<exists>h \<in> set (pend v). request_ok v h \<longrightarrow> v' = dev_done h v \<or> (\<exists>st d. st \<noteq> 0 \<and> v' = dev_error h st d v)))
     \<and> (\<forall>v. vr_q (avail v) \<noteq> [] \<or> pend v \<noteq> [] \<longrightarrow> (\<exists>v'. dev v v'))"

definition device :: "(vdisk \<Rightarrow> vdisk \<Rightarrow> bool) \<Rightarrow> bool" where
  "device dev \<longleftrightarrow>
     (\<forall>v v'. dev v v' \<longrightarrow> vr_q (avail v) \<noteq> [] \<and> v' = dev_fetch v
        \<or> (\<exists>h \<in> set (pend v). request_ok v h \<longrightarrow> v' = dev_done h v))
     \<and> (\<forall>v. vr_q (avail v) \<noteq> [] \<or> pend v \<noteq> [] \<longrightarrow> (\<exists>v'. dev v v'))"

lemma device_blk: "device dev \<Longrightarrow> blk_device dev"
  unfolding device_def blk_device_def by blast

text \<open>The state before \<open>virtio_disk_init\<close>, where the variables of the driver are zero, and after it.\<close>

definition vzero :: "(nat \<Rightarrow> byte list) \<Rightarrow> (nat \<Rightarrow> u32) \<Rightarrow> (u64 \<Rightarrow> byte list) \<Rightarrow> vdisk" where
  "vzero d n ss = \<lparr>desc = \<lambda>_. desc0, avail = zero_ring, used = zero_ring, vfree = \<lambda>i. False, info_b = \<lambda>_. None,
     info_status = \<lambda>_. 0, ops = \<lambda>_. \<lparr>rq_type = 0, rq_reserved = 0, rq_sector = 0\<rparr>, rw = \<lambda>_. Idle,
     bf_disk = \<lambda>_. False, bf_data = d, bf_blockno = n, pend = [], sectors = ss\<rparr>"

definition vinit :: "(nat \<Rightarrow> byte list) \<Rightarrow> (nat \<Rightarrow> u32) \<Rightarrow> (u64 \<Rightarrow> byte list) \<Rightarrow> vdisk" where
  "vinit d n ss = (vzero d n ss)\<lparr>vfree := \<lambda>i. i < NUM\<rparr>"

lemma virtio_disk_init_state:
  "virtio_disk_init rd ka (vzero d n ss) = Inr (ws, v) \<Longrightarrow> v = vinit d n ss"
  by (cases ka) (auto simp: virtio_disk_init_def vinit_def vzero_def zero_ring_def Let_def split: if_splits)

section \<open>The system\<close>

definition awake :: "vdisk \<Rightarrow> nat \<Rightarrow> bool" where
  "awake v b = (case rw v b of Idle \<Rightarrow> False | Want _ a \<Rightarrow> \<not> a | Waiting _ _ a \<Rightarrow> \<not> a)"

text \<open>\<open>kkill\<close> makes a sleeping process runnable whatever it waits for.\<close>

definition kill_wake :: "nat \<Rightarrow> vdisk \<Rightarrow> vdisk" where
  "kill_wake b v = set_rw b (case rw v b of Idle \<Rightarrow> Idle | Want w _ \<Rightarrow> Want w False | Waiting ids w _ \<Rightarrow> Waiting ids w False) v"

text \<open>The owner of a buffer that is not in \<open>virtio_disk_rw\<close> may change it, or call \<open>virtio_disk_rw\<close>.\<close>

inductive step :: "(vdisk \<Rightarrow> vdisk \<Rightarrow> bool) \<Rightarrow> vdisk \<Rightarrow> vdisk \<Rightarrow> bool" for dev where
  modify: "rw v b = Idle \<Longrightarrow> step dev v (v\<lparr>bf_data := (bf_data v)(b := d), bf_blockno := (bf_blockno v)(b := n)\<rparr>)"
| call: "rw v b = Idle \<Longrightarrow> step dev v (set_rw b (Want w False) v)"
| turn: "awake v b \<Longrightarrow> virtio_disk_rw b v = Inr v' \<Longrightarrow> step dev v v'"
| kill: "step dev v (kill_wake b v)"
| intr: "virtio_disk_intr v = Inr v' \<Longrightarrow> step dev v v'"
| devs: "dev v v' \<Longrightarrow> step dev v v'"

inductive_cases stepE: "step dev v v'"

definition reach :: "(vdisk \<Rightarrow> vdisk \<Rightarrow> bool) \<Rightarrow> vdisk \<Rightarrow> bool" where
  "reach dev v \<longleftrightarrow> (\<exists>d n ss. (step dev)\<^sup>*\<^sup>* (vinit d n ss) v)"

end
