(* ===== verification/VirtioInv.thy ===== *)
theory VirtioInv
  imports Virtio
begin

text \<open>
  The driver of the disk together with a device that keeps to the specification: which descriptors
  belong to which request, where the heads of the requests in progress are, and who may sleep
  (\<open>vinv\<close>). Every step of a process, the interrupt handler or the device keeps the invariant; a run of the
  interrupt handler takes note of all completed requests, or panics because the device reported an error for one.
\<close>

unbundle bit_operations_syntax

section \<open>The invariant\<close>

definition wt :: "vdisk \<Rightarrow> nat \<Rightarrow> ((nat \<times> nat \<times> nat) \<times> bool) option" where
  "wt v b = (case rw v b of Waiting ids w _ \<Rightarrow> Some (ids, w) | _ \<Rightarrow> None)"

definition chain :: "vdisk \<Rightarrow> nat \<Rightarrow> nat set" where
  "chain v b = (case wt v b of Some ((i0, i1, i2), _) \<Rightarrow> {i0, i1, i2} | None \<Rightarrow> {})"

definition heads :: "vdisk \<Rightarrow> nat set" where
  "heads v = {i0. \<exists>b i1 i2 w. wt v b = Some ((i0, i1, i2), w) \<and> bf_disk v b}"

definition queue :: "vdisk \<Rightarrow> nat list" where
  "queue v = map unat (vr_q (avail v)) @ map unat (pend v) @ map unat (vr_q (used v))"

definition own :: "vdisk \<Rightarrow> nat \<Rightarrow> bool \<Rightarrow> nat \<Rightarrow> nat \<Rightarrow> nat \<Rightarrow> bool" where
  "own v b w i0 i1 i2 \<longleftrightarrow> {i0, i1, i2} \<subseteq> busy v \<and> distinct [i0, i1, i2]
     \<and> desc v i0 = \<lparr>d_addr = OpOf i0, d_len = 16, d_flags = F_NEXT, d_next = of_nat i1\<rparr>
     \<and> desc v i1 = \<lparr>d_addr = DataOf b, d_len = 1024, d_flags = (if w then 0 else F_WRITE) OR F_NEXT, d_next = of_nat i2\<rparr>
     \<and> desc v i2 = \<lparr>d_addr = StatusOf i0, d_len = 1, d_flags = F_WRITE, d_next = 0\<rparr>
     \<and> ops v i0 = \<lparr>rq_type = (if w then 1 else 0), rq_reserved = 0, rq_sector = sector_of (bf_blockno v b)\<rparr>
     \<and> info_b v i0 = Some b"

definition chains_ok :: "vdisk \<Rightarrow> bool" where
  "chains_ok v \<longleftrightarrow>
     (\<forall>b i0 i1 i2 w. wt v b = Some ((i0, i1, i2), w) \<longrightarrow> own v b w i0 i1 i2)
     \<and> (\<forall>b b'. b \<noteq> b' \<longrightarrow> chain v b \<inter> chain v b' = {})
     \<and> busy v \<subseteq> (\<Union>b. chain v b)"

definition rings_ok :: "vdisk \<Rightarrow> bool" where
  "rings_ok v \<longleftrightarrow> vr_ok (avail v) \<and> vr_ok (used v) \<and> distinct (queue v) \<and> set (queue v) = heads v"

text \<open>No error is reported for a completed request that the interrupt handler has not seen.\<close>

definition status_ok :: "vdisk \<Rightarrow> bool" where
  "status_ok v \<longleftrightarrow> (\<forall>h \<in> set (vr_q (used v)). info_status v (unat h) = 0)"

definition nfree :: "vdisk \<Rightarrow> nat" where
  "nfree v = card {i. i < NUM \<and> vfree v i}"

definition sleepers_ok :: "vdisk \<Rightarrow> bool" where
  "sleepers_ok v \<longleftrightarrow> (\<forall>b. bf_disk v b \<longrightarrow> wt v b \<noteq> None)
     \<and> (\<forall>b ids w. rw v b = Waiting ids w True \<longrightarrow> bf_disk v b)
     \<and> (\<forall>b w. rw v b = Want w True \<longrightarrow> nfree v < 3)"

definition vinv :: "vdisk \<Rightarrow> bool" where
  "vinv v \<longleftrightarrow> chains_ok v \<and> rings_ok v \<and> sleepers_ok v"

lemma sleepers_diskD: "sleepers_ok v \<Longrightarrow> bf_disk v b \<Longrightarrow> wt v b \<noteq> None" by (simp add: sleepers_ok_def)
lemma sleepers_waitD: "sleepers_ok v \<Longrightarrow> rw v b = Waiting ids w True \<Longrightarrow> bf_disk v b" unfolding sleepers_ok_def by blast
lemma sleepers_wantD: "sleepers_ok v \<Longrightarrow> rw v b = Want w True \<Longrightarrow> nfree v < 3" by (auto simp: sleepers_ok_def)

lemma sleepers_okI:
  "(\<And>b. bf_disk v b \<Longrightarrow> wt v b \<noteq> None) \<Longrightarrow> (\<And>b ids w. rw v b = Waiting ids w True \<Longrightarrow> bf_disk v b) \<Longrightarrow>
   (\<And>b w. rw v b = Want w True \<Longrightarrow> nfree v < 3) \<Longrightarrow> sleepers_ok v"
  unfolding sleepers_ok_def by blast

subsection \<open>Frames\<close>

lemma chain_cong: "wt v' = wt v \<Longrightarrow> chain v' = chain v"
  by (simp add: chain_def fun_eq_iff)

lemma chains_ownD: "chains_ok v \<Longrightarrow> wt v b = Some ((i0, i1, i2), w) \<Longrightarrow> own v b w i0 i1 i2"
  by (simp add: chains_ok_def)

lemma chain_busy: "chains_ok v \<Longrightarrow> chain v b \<subseteq> busy v"
  using chains_ownD [of v b] by (cases "wt v b") (fastforce simp: chain_def own_def)+

lemma heads_busy: "chains_ok v \<Longrightarrow> heads v \<subseteq> busy v"
  by (auto simp: heads_def own_def dest!: chains_ownD)

lemma chains_cong:
  assumes "chains_ok v" and "wt v' = wt v" and "busy v' = busy v"
    and "\<And>i. i \<in> busy v \<Longrightarrow> desc v' i = desc v i \<and> ops v' i = ops v i \<and> info_b v' i = info_b v i"
    and "\<And>b. wt v b \<noteq> None \<Longrightarrow> bf_blockno v' b = bf_blockno v b"
  shows "chains_ok v'"
  unfolding chains_ok_def
proof (intro conjI allI impI)
  fix b i0 i1 i2 w
  assume "wt v' b = Some ((i0, i1, i2), w)"
  then have w: "wt v b = Some ((i0, i1, i2), w)" using assms(2) by simp
  from chains_ownD [OF assms(1) this] show "own v' b w i0 i1 i2"
    using assms(3,4) assms(5) [of b] w by (simp add: own_def)
qed (use assms(1-3) chain_cong [OF assms(2)] in \<open>auto simp: chains_ok_def\<close>)

lemma rings_cong:
  assumes "rings_ok v" and "wt v' = wt v" and "bf_disk v' = bf_disk v"
    and "avail v' = avail v" and "used v' = used v" and "pend v' = pend v"
  shows "rings_ok v'"
proof -
  have "heads v' = heads v" using assms(2,3) by (simp add: heads_def)
  then show ?thesis using assms by (simp add: rings_ok_def queue_def)
qed

lemma chain_distinct: "chains_ok v \<Longrightarrow> i \<in> chain v b \<Longrightarrow> i \<in> chain v b' \<Longrightarrow> b = b'"
  unfolding chains_ok_def by blast

lemma head_chain: "wt v b = Some ((i0, i1, i2), w) \<Longrightarrow> i0 \<in> chain v b"
  by (simp add: chain_def)

lemma headsE:
  assumes "i \<in> heads v"
  obtains b i1 i2 w where "wt v b = Some ((i, i1, i2), w)" "bf_disk v b"
  using assms by (auto simp: heads_def)

lemma rings_length: "chains_ok v \<Longrightarrow> rings_ok v \<Longrightarrow> length (queue v) \<le> card (busy v)"
  using heads_busy [of v] distinct_card [of "queue v"] card_mono [of "busy v" "set (queue v)"]
  by (simp add: rings_ok_def)

lemma wt_wake_free [simp]: "wt (wake_free v) = wt v"
  by (auto simp: wt_def wake_free_def fun_eq_iff split: rwpc.splits)

lemma wt_set_rw: "wt (set_rw b r v) = (wt v)(b := (case r of Waiting ids w _ \<Rightarrow> Some (ids, w) | _ \<Rightarrow> None))"
  by (auto simp: wt_def set_rw_def fun_eq_iff)

lemma wt_wake_buf [simp]: "wt (wake_buf b v) = wt v"
  by (auto simp: wt_def wake_buf_def fun_eq_iff split: rwpc.splits)

section \<open>Allocating descriptors\<close>

lemma alloc_desc_Some:
  "alloc_desc v = (Some i, v') \<Longrightarrow> i < NUM \<and> vfree v i \<and> v' = v\<lparr>vfree := (vfree v)(i := False)\<rparr>"
  by (auto simp: alloc_desc_def find_Some_iff split: option.splits)

lemma alloc_desc_None: "alloc_desc v = (None, v') \<Longrightarrow> v' = v \<and> nfree v = 0"
  by (auto simp: alloc_desc_def nfree_def find_None_iff split: option.splits)

lemma nfree_alloc: "i < NUM \<Longrightarrow> vfree v i \<Longrightarrow> nfree v = Suc (nfree (v\<lparr>vfree := (vfree v)(i := False)\<rparr>))"
proof -
  assume i: "i < NUM" "vfree v i"
  have "{j. j < NUM \<and> vfree v j} = insert i {j. j < NUM \<and> ((vfree v)(i := False)) j}" using i by auto
  then show ?thesis by (simp add: nfree_def)
qed

lemma alloc3_Some:
  assumes "alloc3_desc v = Inr (Some (i0, i1, i2), v')"
  shows "{i0, i1, i2} \<subseteq> {i. i < NUM \<and> vfree v i}" "distinct [i0, i1, i2]"
    "v' = v\<lparr>vfree := (vfree v)(i0 := False, i1 := False, i2 := False)\<rparr>"
  using assms by (auto simp: alloc3_desc_def dest!: alloc_desc_Some split: prod.splits option.splits sum.splits if_splits)

definition quiet :: "vdisk \<Rightarrow> vdisk \<Rightarrow> bool" where
  "quiet v v' \<longleftrightarrow> v' = v\<lparr>desc := desc v', rw := rw v'\<rparr> \<and> (\<forall>i \<in> busy v. desc v' i = desc v i)
     \<and> (\<forall>b. rw v' b = rw v b \<or> (\<exists>w. rw v b = Want w True \<and> rw v' b = Want w False))"

lemma quiet_refl [simp]: "quiet v v" by (simp add: quiet_def)

lemma quiet_fields:
  assumes "quiet v v'"
  shows "vfree v' = vfree v" "busy v' = busy v" "nfree v' = nfree v" "wt v' = wt v" "avail v' = avail v" "used v' = used v"
    "pend v' = pend v" "info_status v' = info_status v" "info_b v' = info_b v" "ops v' = ops v" "bf_disk v' = bf_disk v"
    "bf_blockno v' = bf_blockno v" "bf_data v' = bf_data v" "sectors v' = sectors v"
proof -
  have e: "v' = v\<lparr>desc := desc v', rw := rw v'\<rparr>" using assms by (simp add: quiet_def)
  show "vfree v' = vfree v" "avail v' = avail v" "used v' = used v" "pend v' = pend v" "info_status v' = info_status v"
    "info_b v' = info_b v" "ops v' = ops v" "bf_disk v' = bf_disk v" "bf_blockno v' = bf_blockno v" "bf_data v' = bf_data v" "sectors v' = sectors v"
    by (subst e, simp)+
  then show "busy v' = busy v" "nfree v' = nfree v" by (simp_all add: busy_def nfree_def)
  show "wt v' = wt v"
  proof
    fix b
    have "rw v' b = rw v b \<or> (\<exists>w. rw v b = Want w True \<and> rw v' b = Want w False)" using assms by (simp add: quiet_def)
    then show "wt v' b = wt v b" by (auto simp: wt_def)
  qed
qed

lemma quiet_inv:
  assumes "vinv v" and "quiet v v'"
  shows "vinv v'"
proof -
  note f = quiet_fields [OF assms(2)]
  have "chains_ok v'"
    by (rule chains_cong [of v]) (use assms f in \<open>auto simp: vinv_def quiet_def\<close>)
  moreover have "rings_ok v'"
    by (rule rings_cong [of v]) (use assms f in \<open>auto simp: vinv_def\<close>)
  moreover have "rw v b = Waiting ids w True" if "rw v' b = Waiting ids w True" for b ids w
    using assms(2) that unfolding quiet_def by (metis rwpc.distinct(5))
  moreover have "rw v b = Want w True" if "rw v' b = Want w True" for b w
    using assms(2) that unfolding quiet_def by (metis rwpc.inject(1))
  ultimately show ?thesis using assms(1) f unfolding vinv_def sleepers_ok_def by (metis (no_types, lifting))
qed

text \<open>Giving back descriptors that were just taken.\<close>

lemma give_back:
  assumes "quiet v u" and "vfree v i" and "i < NUM" and "t = u\<lparr>vfree := f\<rparr>" and "\<not> f i"
  shows "\<exists>t'. free_desc i t = Inr t' \<and> (\<exists>u'. quiet v u' \<and> t' = u'\<lparr>vfree := f(i := True)\<rparr>)"
proof -
  let ?u = "wake_free (u\<lparr>desc := (desc u)(i := desc0)\<rparr>)"
  obtain D R where u: "u = v\<lparr>desc := D, rw := R\<rparr>" and D: "\<forall>i \<in> busy v. D i = desc v i"
    and R: "\<forall>b. R b = rw v b \<or> (\<exists>w. rw v b = Want w True \<and> R b = Want w False)"
    using assms(1) unfolding quiet_def by blast
  have R': "(case R b of Want w _ \<Rightarrow> Want w False | r \<Rightarrow> r) = rw v b
      \<or> (\<exists>w. rw v b = Want w True \<and> (case R b of Want w _ \<Rightarrow> Want w False | r \<Rightarrow> r) = Want w False)" for b
    using R [rule_format, of b] by (cases "rw v b") auto
  have "i \<notin> busy v" using assms(2) by (simp add: busy_def)
  then have "quiet v ?u" using D R' by (auto simp: quiet_def wake_free_def u)
  moreover have "free_desc i t = Inr (?u\<lparr>vfree := f(i := True)\<rparr>)"
    using assms(3-5) by (simp add: free_desc_def wake_free_def)
  ultimately show ?thesis by blast
qed

lemma alloc3_cases:
  obtains (some) i0 i1 i2 v' where "alloc3_desc v = Inr (Some (i0, i1, i2), v')"
  | (none) v' where "alloc3_desc v = Inr (None, v')" "quiet v v'" "nfree v < 3"
proof (cases "alloc_desc v")
  case (Pair r0 v0)
  show ?thesis
  proof (cases r0)
    case None
    then show ?thesis using none [of v] alloc_desc_None [of v v0] Pair by (simp add: alloc3_desc_def)
  next
    case (Some i0)
    note a0 = alloc_desc_Some [OF Pair [unfolded Some]]
    note n0 = nfree_alloc [of i0 v] a0
    obtain r1 v1 where a1: "alloc_desc v0 = (r1, v1)" by (cases "alloc_desc v0")
    show ?thesis
    proof (cases r1)
      case None
      then have v1: "v1 = v0" "nfree v0 = 0" using alloc_desc_None [of v0 v1] a1 by auto
      obtain u' where "free_desc i0 v1 = Inr (u'\<lparr>vfree := ((vfree v)(i0 := False))(i0 := True)\<rparr>)" "quiet v u'"
        using give_back [of v v i0 v1 "(vfree v)(i0 := False)"] a0 v1 by auto
      moreover have "((vfree v)(i0 := False))(i0 := True) = vfree u'"
        using a0 quiet_fields(1) [OF \<open>quiet v u'\<close>] by auto
      ultimately show ?thesis using none [of u'] n0 v1 Pair Some a1 None by (simp add: alloc3_desc_def)
    next
      case s1: (Some i1)
      note b1 = alloc_desc_Some [OF a1 [unfolded s1]]
      note n1 = nfree_alloc [of i1 v0] b1
      obtain r2 v2 where a2: "alloc_desc v1 = (r2, v2)" by (cases "alloc_desc v1")
      show ?thesis
      proof (cases r2)
        case None
        then have v2: "v2 = v1" "nfree v1 = 0" using alloc_desc_None [of v1 v2] a2 by auto
        have ne: "i0 \<noteq> i1" using a0 b1 by auto
        obtain u1 where f0: "free_desc i0 v2 = Inr (u1\<lparr>vfree := ((vfree v)(i0 := False, i1 := False))(i0 := True)\<rparr>)" "quiet v u1"
          using give_back [of v v i0 v2 "(vfree v)(i0 := False, i1 := False)"] a0 b1 v2 ne by auto
        obtain u2 where f1: "free_desc i1 (u1\<lparr>vfree := ((vfree v)(i0 := False, i1 := False))(i0 := True)\<rparr>)
            = Inr (u2\<lparr>vfree := ((vfree v)(i0 := False, i1 := False))(i0 := True, i1 := True)\<rparr>)" "quiet v u2"
          using give_back [OF f0(2), of i1 _ "((vfree v)(i0 := False, i1 := False))(i0 := True)"] a0 b1 ne by auto
        have "((vfree v)(i0 := False, i1 := False))(i0 := True, i1 := True) = vfree u2"
          using a0 b1 ne quiet_fields(1) [OF f1(2)] by auto
        moreover have "nfree v < 3"
        proof -
          have "nfree v = Suc (nfree v0)" using nfree_alloc [of i0 v] a0 by simp
          moreover have "nfree v0 = Suc (nfree v1)" using nfree_alloc [of i1 v0] b1 by simp
          ultimately show ?thesis using v2 by simp
        qed
        ultimately show ?thesis using none [of u2] f0(1) f1 v2 Pair Some a1 s1 a2 None by (simp add: alloc3_desc_def)
      next
        case (Some i2)
        then show ?thesis using some \<open>r0 = Some i0\<close> Pair a1 s1 a2 by (simp add: alloc3_desc_def)
      qed
    qed
  qed
qed

lemma busy_lt: "i \<in> busy v \<Longrightarrow> i < NUM" by (simp add: busy_def)

lemma busy_card: "vfree v i \<Longrightarrow> i < NUM \<Longrightarrow> card (busy v) < 8"
proof -
  assume "vfree v i" "i < NUM"
  then have "busy v \<subseteq> {0..<8} - {i}" "i \<in> {0..<8}" by (auto simp: busy_def)
  then have "card (busy v) \<le> card ({0..<8} - {i})" "card ({0..<8} - {i}) < card {0..<8 :: nat}"
    by (intro card_mono card_Diff1_less; simp)+
  then show ?thesis by simp
qed

lemma push_room:
  assumes "vr_ok x" and "length (vr_q x) < 8"
  shows "vr_ok (vr_push a x)" "vr_q (vr_push a x) = vr_q x @ [a]"
  using vring_fifo.push_ok [OF assms(1), of a] vring_fifo.full_iff [OF assms(1)] assms(2) by auto

section \<open>Steps keep the invariant\<close>

lemma submit_fields [simp]:
  "rw (submit b w (i0, i1, i2) v) = rw v"
  "vfree (submit b w (i0, i1, i2) v) = vfree v"
  "desc (submit b w (i0, i1, i2) v) =
     (desc v)(i0 := \<lparr>d_addr = OpOf i0, d_len = 16, d_flags = F_NEXT, d_next = of_nat i1\<rparr>,
       i1 := \<lparr>d_addr = DataOf b, d_len = 1024, d_flags = (if w then 0 else F_WRITE) OR F_NEXT, d_next = of_nat i2\<rparr>,
       i2 := \<lparr>d_addr = StatusOf i0, d_len = 1, d_flags = F_WRITE, d_next = 0\<rparr>)"
  "ops (submit b w (i0, i1, i2) v) =
     (ops v)(i0 := \<lparr>rq_type = (if w then 1 else 0), rq_reserved = 0, rq_sector = sector_of (bf_blockno v b)\<rparr>)"
  "info_b (submit b w (i0, i1, i2) v) = (info_b v)(i0 := Some b)"
  "info_status (submit b w (i0, i1, i2) v) = (info_status v)(i0 := 0xFF)"
  "avail (submit b w (i0, i1, i2) v) = vr_push (of_nat i0) (avail v)"
  "used (submit b w (i0, i1, i2) v) = used v"
  "pend (submit b w (i0, i1, i2) v) = pend v"
  "bf_disk (submit b w (i0, i1, i2) v) = (bf_disk v)(b := True)"
  "bf_data (submit b w (i0, i1, i2) v) = bf_data v"
  "bf_blockno (submit b w (i0, i1, i2) v) = bf_blockno v"
  "sectors (submit b w (i0, i1, i2) v) = sectors v"
  by (simp_all add: submit_def Let_def)

lemma set_rw_fields [simp]:
  "rw (set_rw b r v) = (rw v)(b := r)" "vfree (set_rw b r v) = vfree v" "desc (set_rw b r v) = desc v"
  "ops (set_rw b r v) = ops v" "info_b (set_rw b r v) = info_b v" "info_status (set_rw b r v) = info_status v"
  "avail (set_rw b r v) = avail v" "used (set_rw b r v) = used v" "pend (set_rw b r v) = pend v"
  "bf_disk (set_rw b r v) = bf_disk v" "bf_data (set_rw b r v) = bf_data v" "bf_blockno (set_rw b r v) = bf_blockno v"
  "sectors (set_rw b r v) = sectors v"
  by (simp_all add: set_rw_def)

lemma wt_rw: "rw v' = rw v \<Longrightarrow> wt v' = wt v"
  by (simp add: wt_def fun_eq_iff)

lemma submit_inv:
  assumes "vinv v" and "wt v b = None" and a3: "alloc3_desc v = Inr (Some (i0, i1, i2), v1)"
  shows "vinv (set_rw b (Waiting (i0, i1, i2) w True) (submit b w (i0, i1, i2) v1))" (is "vinv ?u")
proof -
  note a = alloc3_Some [OF a3]
  have c: "chains_ok v" and r: "rings_ok v" and s: "sleepers_ok v" using assms(1) by (simp_all add: vinv_def)
  have nb: "i0 \<notin> busy v" "i1 \<notin> busy v" "i2 \<notin> busy v" and lt: "i0 < 8" "i1 < 8" "i2 < 8" using a(1) by (auto simp: busy_def)
  have "wt (submit b w (i0, i1, i2) v1) = wt v" by (rule wt_rw) (simp add: a(3))
  then have wt: "wt ?u = (wt v)(b := Some ((i0, i1, i2), w))" by (simp add: wt_set_rw)
  have busy: "busy ?u = busy v \<union> {i0, i1, i2}" using lt by (auto simp: busy_def a(3))
  have bd: "bf_disk ?u = (bf_disk v)(b := True)" by (simp add: a(3))
  have ch: "chain ?u b' = (if b' = b then {i0, i1, i2} else chain v b')" for b' by (simp add: chain_def wt)
  have "chains_ok ?u" unfolding chains_ok_def
  proof (intro conjI allI impI)
    fix b' j0 j1 j2 w'
    assume w': "wt ?u b' = Some ((j0, j1, j2), w')"
    show "own ?u b' w' j0 j1 j2"
    proof (cases "b' = b")
      case True
      then have "j0 = i0" "j1 = i1" "j2 = i2" "w' = w" using w' wt by auto
      then show ?thesis unfolding own_def busy using a(2) True by (auto simp: a(3))
    next
      case False
      then have "own v b' w' j0 j1 j2" using w' wt chains_ownD [OF c] by simp
      moreover from this have "{j0, j1, j2} \<inter> {i0, i1, i2} = {}" using nb by (auto simp: own_def)
      ultimately show ?thesis unfolding own_def busy by (auto simp: a(3))
    qed
  next
    fix b1 b2 :: nat
    assume ne: "b1 \<noteq> b2"
    show "chain ?u b1 \<inter> chain ?u b2 = {}"
      using ne chain_distinct [OF c] chain_busy [OF c, of b1] chain_busy [OF c, of b2] nb by (auto simp: ch)
  next
    have "busy v \<subseteq> (\<Union>b'. chain v b')" using c by (simp add: chains_ok_def)
    moreover have "chain v b = {}" using assms(2) by (simp add: chain_def)
    ultimately show "busy ?u \<subseteq> (\<Union>b'. chain ?u b')" unfolding busy by (fastforce simp: ch)
  qed
  moreover have "rings_ok ?u"
  proof -
    have u16: "unat (of_nat i0 :: u16) = i0" using lt by (simp add: unat_of_nat take_bit_eq_mod)
    have av: "vr_ok (avail v)" "vr_ok (used v)" and q: "distinct (queue v)" "set (queue v) = heads v" using r by (auto simp: rings_ok_def)
    have "length (vr_q (avail v)) \<le> length (queue v)" by (simp add: queue_def del: length_vr_q)
    then have "length (vr_q (avail v)) < 8"
      using rings_length [OF c r] busy_card [of v i0] a(1) by simp
    note p = push_room [OF av(1) this, of "of_nat i0"]
    have f: "avail ?u = vr_push (of_nat i0) (avail v)" "used ?u = used v" "pend ?u = pend v" by (simp_all add: a(3))
    have h: "heads ?u = insert i0 (heads v)"
      unfolding heads_def wt bd using assms(2) by (auto split: if_splits) (metis option.distinct(1))+
    have "i0 \<notin> set (queue v)" using heads_busy [OF c] nb(1) q(2) by blast
    moreover have "queue ?u = map unat (vr_q (avail v)) @ i0 # map unat (pend v) @ map unat (vr_q (used v))"
      unfolding queue_def f p(2) by (simp add: u16)
    ultimately have "distinct (queue ?u)" "set (queue ?u) = insert i0 (set (queue v))"
      using q(1) by (auto simp: queue_def)
    then show ?thesis unfolding rings_ok_def f(1) h using p(1) av(2) q(2) f(2) by metis
  qed
  moreover have "sleepers_ok ?u"
  proof -
    have "{i. i < NUM \<and> vfree ?u i} \<subseteq> {i. i < NUM \<and> vfree v i}" by (auto simp: a(3))
    then have nf: "nfree ?u \<le> nfree v" unfolding nfree_def by (rule card_mono [rotated]) simp
    have rw: "rw ?u = (rw v)(b := Waiting (i0, i1, i2) w True)" by (simp add: a(3))
    show ?thesis
    proof (rule sleepers_okI)
      show "wt ?u b' \<noteq> None" if "bf_disk ?u b'" for b'
        using that sleepers_diskD [OF s, of b'] unfolding wt bd by (cases "b' = b") auto
      show "bf_disk ?u b'" if "rw ?u b' = Waiting ids w' True" for b' ids w'
        using that sleepers_waitD [OF s, of b'] unfolding rw bd by (cases "b' = b") auto
      show "nfree ?u < 3" if "rw ?u b' = Want w' True" for b' w'
        using that sleepers_wantD [OF s, of b'] nf unfolding rw by (cases "b' = b") auto
    qed
  qed
  ultimately show ?thesis by (simp add: vinv_def)
qed

lemma wake_free_simps [simp]:
  "vfree (wake_free v) = vfree v" "desc (wake_free v) = desc v" "ops (wake_free v) = ops v" "info_b (wake_free v) = info_b v"
  "info_status (wake_free v) = info_status v" "avail (wake_free v) = avail v" "used (wake_free v) = used v"
  "pend (wake_free v) = pend v" "bf_disk (wake_free v) = bf_disk v" "bf_data (wake_free v) = bf_data v"
  "bf_blockno (wake_free v) = bf_blockno v" "sectors (wake_free v) = sectors v"
  "(wake_free v)\<lparr>desc := D\<rparr> = wake_free (v\<lparr>desc := D\<rparr>)" "(wake_free v)\<lparr>vfree := F\<rparr> = wake_free (v\<lparr>vfree := F\<rparr>)"
  by (simp_all add: wake_free_def)

lemma wake_free_twice [simp]: "wake_free (wake_free v) = wake_free v"
  by (auto simp: wake_free_def fun_eq_iff split: rwpc.splits intro!: vdisk.equality)

lemma small_u16: "i < 8 \<Longrightarrow> unat (of_nat i :: u16) = i"
  by (simp add: unat_of_nat take_bit_eq_mod)

text \<open>\<open>free_chain\<close> on the chain of a request: the three descriptors, no more.\<close>

lemma free_chain_own:
  assumes "own v b w i0 i1 i2"
  shows "free_chain i0 (v\<lparr>info_b := f\<rparr>) = Inr (wake_free (v\<lparr>info_b := f,
     desc := (desc v)(i0 := desc0, i1 := desc0, i2 := desc0), vfree := (vfree v)(i0 := True, i1 := True, i2 := True)\<rparr>))"
proof -
  have lt: "i0 < 8" "i1 < 8" "i2 < 8" and nf: "\<not> vfree v i0" "\<not> vfree v i1" "\<not> vfree v i2"
    and d: "i0 \<noteq> i1" "i0 \<noteq> i2" "i1 \<noteq> i2" using assms by (auto simp: own_def busy_def)
  have ds: "d_flags (desc v i0) = 1" "unat (d_next (desc v i0)) = i1" "d_flags (desc v i1) = (if w then 0 else 2) OR 1"
    "unat (d_next (desc v i1)) = i2" "d_flags (desc v i2) = 2" using assms lt by (auto simp: own_def small_u16)
  show ?thesis using lt nf d
    by (simp add: free_chain.simps [of i0] free_chain.simps [of i1] free_chain.simps [of i2] free_desc_def ds)
qed

lemma finish_inv:
  assumes "vinv v" and w: "wt v b = Some ((i0, i1, i2), w)" and nd: "\<not> bf_disk v b"
  shows "vinv (set_rw b Idle (wake_free (v\<lparr>info_b := (info_b v)(i0 := None),
     desc := (desc v)(i0 := desc0, i1 := desc0, i2 := desc0), vfree := (vfree v)(i0 := True, i1 := True, i2 := True)\<rparr>)))"
    (is "vinv ?u")
proof -
  let ?t = "v\<lparr>info_b := (info_b v)(i0 := None), desc := (desc v)(i0 := desc0, i1 := desc0, i2 := desc0),
    vfree := (vfree v)(i0 := True, i1 := True, i2 := True)\<rparr>"
  have c: "chains_ok v" and r: "rings_ok v" and s: "sleepers_ok v" using assms(1) by (simp_all add: vinv_def)
  have "wt (wake_free ?t) = wt v" by (simp add: wt_rw [of ?t v])
  then have wt: "wt ?u = (wt v)(b := None)" by (simp add: wt_set_rw)
  have busy: "busy ?u = busy v - {i0, i1, i2}" by (auto simp: busy_def)
  have ch: "chain ?u b' = (if b' = b then {} else chain v b')" for b' by (simp add: chain_def wt)
  have chb: "chain v b = {i0, i1, i2}" by (simp add: chain_def w)
  have "chains_ok ?u" unfolding chains_ok_def
  proof (intro conjI allI impI)
    fix b' j0 j1 j2 w'
    assume "wt ?u b' = Some ((j0, j1, j2), w')"
    then have b': "b' \<noteq> b" "wt v b' = Some ((j0, j1, j2), w')" unfolding wt by (auto split: if_splits)
    have "chain v b' \<inter> chain v b = {}" using c b'(1) unfolding chains_ok_def by blast
    moreover have "chain v b' = {j0, j1, j2}" by (simp add: chain_def b'(2))
    ultimately have "{j0, j1, j2} \<inter> {i0, i1, i2} = {}" using chb by simp
    then show "own ?u b' w' j0 j1 j2" using chains_ownD [OF c b'(2)] unfolding own_def busy by auto
  next
    fix b1 b2 :: nat
    assume ne: "b1 \<noteq> b2"
    show "chain ?u b1 \<inter> chain ?u b2 = {}" using ne chain_distinct [OF c] by (auto simp: ch)
  next
    have "busy v \<subseteq> (\<Union>b'. chain v b')" using c by (simp add: chains_ok_def)
    then show "busy ?u \<subseteq> (\<Union>b'. chain ?u b')" unfolding busy chb [symmetric] by (fastforce simp: ch)
  qed
  moreover have "heads ?u = heads v" unfolding heads_def wt using w nd by auto
  then have "rings_ok ?u" using r by (simp add: rings_ok_def queue_def)
  moreover have "sleepers_ok ?u"
  proof (rule sleepers_okI)
    show "wt ?u b' \<noteq> None" if "bf_disk ?u b'" for b'
      using that sleepers_diskD [OF s, of b'] nd unfolding wt by (cases "b' = b") auto
    show "bf_disk ?u b'" if "rw ?u b' = Waiting ids w' True" for b' ids w'
      using that sleepers_waitD [OF s, of b'] by (auto simp: wake_free_def split: rwpc.splits if_splits)
    show "nfree ?u < 3" if "rw ?u b' = Want w' True" for b' w'
      using that by (auto simp: wake_free_def split: rwpc.splits if_splits)
  qed
  ultimately show ?thesis by (simp add: vinv_def)
qed

text \<open>A change of a process that does not touch descriptors.\<close>

lemma set_rw_inv:
  assumes "vinv v" and wt: "wt (set_rw b r v) = wt v"
    and "\<And>ids w. r = Waiting ids w True \<Longrightarrow> bf_disk v b" and "\<And>w. r = Want w True \<Longrightarrow> nfree v < 3"
  shows "vinv (set_rw b r v)"
proof -
  have c: "chains_ok v" and r: "rings_ok v" and s: "sleepers_ok v" using assms(1) by (simp_all add: vinv_def)
  have "chains_ok (set_rw b r v)" by (rule chains_cong [OF c wt]) (simp_all add: busy_def)
  moreover have "rings_ok (set_rw b r v)" by (rule rings_cong [OF r wt]) simp_all
  moreover have "sleepers_ok (set_rw b r v)"
  proof (rule sleepers_okI)
    show "wt (set_rw b r v) b' \<noteq> None" if "bf_disk (set_rw b r v) b'" for b'
      using that sleepers_diskD [OF s, of b'] unfolding wt by simp
    show "bf_disk (set_rw b r v) b'" if "rw (set_rw b r v) b' = Waiting ids w' True" for b' ids w'
      using that assms(3) sleepers_waitD [OF s, of b'] by (cases "b' = b") auto
    show "nfree (set_rw b r v) < 3" if "rw (set_rw b r v) b' = Want w' True" for b' w'
      using that assms(4) sleepers_wantD [OF s, of b'] by (cases "b' = b") (auto simp: nfree_def)
  qed
  ultimately show ?thesis by (simp add: vinv_def)
qed

lemma rw_inv:
  assumes "vinv v"
  shows "\<exists>v'. virtio_disk_rw b v = Inr v' \<and> vinv v'"
proof (cases "rw v b")
  case Idle
  then show ?thesis using assms by (simp add: virtio_disk_rw_def)
next
  case (Want w a)
  then have wt: "wt v b = None" by (simp add: wt_def)
  show ?thesis
  proof (cases rule: alloc3_cases [of v])
    case (some i0 i1 i2 v')
    then show ?thesis using submit_inv [OF assms wt some] Want by (simp add: virtio_disk_rw_def)
  next
    case (none v')
    note f = quiet_fields [OF none(2)]
    have "vinv (set_rw b (Want w True) v')"
      by (rule set_rw_inv [OF quiet_inv [OF assms none(2)]]) (use none(3) f wt in \<open>auto simp: wt_set_rw\<close>)
    then show ?thesis using none(1) Want by (simp add: virtio_disk_rw_def)
  qed
next
  case (Waiting idx w a)
  obtain i0 i1 i2 where idx: "idx = (i0, i1, i2)" by (rule prod_cases3)
  then have wt: "wt v b = Some ((i0, i1, i2), w)" using Waiting by (simp add: wt_def)
  show ?thesis
  proof (cases "bf_disk v b")
    case True
    have "vinv (set_rw b (Waiting idx w True) v)"
      by (rule set_rw_inv [OF assms]) (use True wt idx in \<open>auto simp: wt_set_rw\<close>)
    then show ?thesis using True Waiting by (simp add: virtio_disk_rw_def)
  next
    case False
    have "own v b w i0 i1 i2" using assms chains_ownD wt by (simp add: vinv_def)
    then show ?thesis using free_chain_own finish_inv [OF assms wt False] False Waiting idx by (simp add: virtio_disk_rw_def)
  qed
qed

lemma wake_buf_simps [simp]:
  "vfree (wake_buf b v) = vfree v" "desc (wake_buf b v) = desc v" "ops (wake_buf b v) = ops v" "info_b (wake_buf b v) = info_b v"
  "info_status (wake_buf b v) = info_status v" "avail (wake_buf b v) = avail v" "used (wake_buf b v) = used v"
  "pend (wake_buf b v) = pend v" "bf_disk (wake_buf b v) = bf_disk v" "bf_data (wake_buf b v) = bf_data v"
  "bf_blockno (wake_buf b v) = bf_blockno v" "sectors (wake_buf b v) = sectors v"
  by (simp_all add: wake_buf_def)

text \<open>One completed request, as the interrupt handler takes note of it.\<close>

definition noted :: "nat \<Rightarrow> vdisk \<Rightarrow> vdisk" where
  "noted b v = (wake_buf b (v\<lparr>bf_disk := (bf_disk v)(b := False)\<rparr>))\<lparr>used := vr_pop (used v)\<rparr>"

lemma noted_simps [simp]:
  "vfree (noted b v) = vfree v" "desc (noted b v) = desc v" "ops (noted b v) = ops v" "info_b (noted b v) = info_b v"
  "info_status (noted b v) = info_status v" "avail (noted b v) = avail v" "used (noted b v) = vr_pop (used v)"
  "pend (noted b v) = pend v" "bf_disk (noted b v) = (bf_disk v)(b := False)" "bf_data (noted b v) = bf_data v"
  "bf_blockno (noted b v) = bf_blockno v" "sectors (noted b v) = sectors v"
  "rw (noted b v) = (rw v)(b := (case rw v b of Waiting ids w _ \<Rightarrow> Waiting ids w False | r \<Rightarrow> r))"
  by (simp_all add: noted_def) (simp add: wake_buf_def)

lemma wt_noted [simp]: "wt (noted b v) = wt v"
  by (auto simp: wt_def fun_eq_iff split: rwpc.splits)

lemma used_head:
  assumes "vinv v" and "h \<in> set (vr_q (used v))"
  obtains b i1 i2 w where "wt v b = Some ((unat h, i1, i2), w)" "bf_disk v b" "info_b v (unat h) = Some b"
proof -
  have "unat h \<in> heads v" using assms by (auto simp: vinv_def rings_ok_def queue_def)
  then obtain b i1 i2 w where w: "wt v b = Some ((unat h, i1, i2), w)" "bf_disk v b" by (rule headsE)
  moreover have "own v b w (unat h) i1 i2" using assms(1) chains_ownD [OF _ w(1)] by (simp add: vinv_def)
  ultimately show ?thesis using that by (simp add: own_def)
qed

lemma heads_unique:
  assumes "chains_ok v" and "wt v b = Some ((i0, i1, i2), w)" and "wt v b' = Some ((i0, j1, j2), w')"
  shows "b' = b"
  using chain_distinct [OF assms(1) head_chain [OF assms(2)] head_chain [OF assms(3)]] by simp

lemma noted_inv:
  assumes "vinv v" and q: "vr_q (used v) = h # hs" and w: "wt v b = Some ((unat h, i1, i2), w)" and d: "bf_disk v b"
  shows "vinv (noted b v)"
proof -
  have c: "chains_ok v" and r: "rings_ok v" and s: "sleepers_ok v" using assms(1) by (simp_all add: vinv_def)
  have "chains_ok (noted b v)" by (rule chains_cong [OF c wt_noted]) (simp_all add: busy_def)
  moreover have "rings_ok (noted b v)"
  proof -
    have ok: "vr_ok (used v)" using r by (simp add: rings_ok_def)
    note p = vring_fifo.pop_ok [OF ok q]
    have "heads (noted b v) = heads v - {unat h}"
    proof (intro set_eqI iffI)
      fix j assume "j \<in> heads (noted b v)"
      then obtain b' j1 j2 w' where "wt v b' = Some ((j, j1, j2), w')" "b' \<noteq> b" "bf_disk v b'"
        by (rule headsE) (auto split: if_splits)
      then show "j \<in> heads v - {unat h}" using heads_unique [OF c w] by (auto simp: heads_def)
    next
      fix j assume j: "j \<in> heads v - {unat h}"
      then have "j \<in> heads v" by simp
      then obtain b' j1 j2 w' where b': "wt v b' = Some ((j, j1, j2), w')" "bf_disk v b'" by (rule headsE)
      then have "b' \<noteq> b" using w j by auto
      then show "j \<in> heads (noted b v)" using b' by (auto simp: heads_def)
    qed
    moreover have "queue v = map unat (vr_q (avail v)) @ map unat (pend v) @ unat h # map unat hs"
      "queue (noted b v) = map unat (vr_q (avail v)) @ map unat (pend v) @ map unat hs"
      using q p by (simp_all add: queue_def)
    ultimately show ?thesis using r p q unfolding rings_ok_def by auto
  qed
  moreover have "sleepers_ok (noted b v)"
  proof (rule sleepers_okI)
    show "wt (noted b v) b' \<noteq> None" if "bf_disk (noted b v) b'" for b'
      using that sleepers_diskD [OF s, of b'] by (cases "b' = b") auto
    show "bf_disk (noted b v) b'" if "rw (noted b v) b' = Waiting ids w' True" for b' ids w'
      using that sleepers_waitD [OF s, of b'] by (cases "b' = b") (auto split: rwpc.splits)
    show "nfree (noted b v) < 3" if "rw (noted b v) b' = Want w' True" for b' w'
      using that sleepers_wantD [OF s, of b'] w by (cases "b' = b") (auto simp: nfree_def wt_def split: rwpc.splits)
  qed
  ultimately show ?thesis by (simp add: vinv_def)
qed

lemma intr_step:
  assumes "vinv v" and "vr_q (used v) = h # hs" and "info_status v (unat h) = 0"
  obtains b i1 i2 w where "virtio_disk_intr v = virtio_disk_intr (noted b v)" "vinv (noted b v)"
    "wt v b = Some ((unat h, i1, i2), w)" "bf_disk v b"
proof -
  obtain b i1 i2 w where b: "wt v b = Some ((unat h, i1, i2), w)" "bf_disk v b" "info_b v (unat h) = Some b"
    by (rule used_head [OF assms(1), of h]) (simp_all add: assms(2))
  have ok: "vr_ok (used v)" using assms(1) by (simp add: vinv_def rings_ok_def)
  have "vr_front (used v) = h" "vr_cons (used v) \<noteq> vr_prod (used v)"
    using vring_fifo.pop_ok [OF ok assms(2)] vring_fifo.empty_iff [OF ok] assms(2) by auto
  then have "virtio_disk_intr v = virtio_disk_intr (noted b v)"
    using b(3) assms(3) by (subst virtio_disk_intr.simps) (simp add: noted_def Let_def)
  then show ?thesis using that noted_inv [OF assms(1,2) b(1,2)] b(1,2) by blast
qed

lemma intr_empty: "vinv v \<Longrightarrow> vr_q (used v) = [] \<Longrightarrow> virtio_disk_intr v = Inr v"
  using vring_fifo.empty_iff [of "used v"] by (subst virtio_disk_intr.simps) (simp add: vinv_def rings_ok_def)

lemma intr_error:
  assumes "vinv v" and "vr_q (used v) = h # hs" and "info_status v (unat h) \<noteq> 0"
  shows "virtio_disk_intr v = Inl ''virtio_disk_intr status''"
proof -
  have ok: "vr_ok (used v)" using assms(1) by (simp add: vinv_def rings_ok_def)
  have "vr_front (used v) = h" "vr_cons (used v) \<noteq> vr_prod (used v)"
    using vring_fifo.pop_ok [OF ok assms(2)] vring_fifo.empty_iff [OF ok] assms(2) by auto
  then show ?thesis using assms(3) by (subst virtio_disk_intr.simps) (simp add: Let_def)
qed

text \<open>An induction over the completed requests that one run of the handler takes note of, which is all of them
  unless an error is reported.\<close>

lemma intr_induct [consumes 1, case_names empty noted]:
  assumes "vinv v"
    and "\<And>v. vinv v \<Longrightarrow> vr_q (used v) = [] \<Longrightarrow> P v v"
    and "\<And>v h hs b i1 i2 w v'. vinv v \<Longrightarrow> vr_q (used v) = h # hs \<Longrightarrow> wt v b = Some ((unat h, i1, i2), w) \<Longrightarrow> bf_disk v b \<Longrightarrow>
      vinv (noted b v) \<Longrightarrow> P (noted b v) v' \<Longrightarrow> P v v'"
  shows "if status_ok v then \<exists>v'. virtio_disk_intr v = Inr v' \<and> P v v'
    else virtio_disk_intr v = Inl ''virtio_disk_intr status''"
  using assms(1)
proof (induction "length (vr_q (used v))" arbitrary: v)
  case 0
  then have "vr_q (used v) = []" by (metis length_0_conv)
  then show ?case using intr_empty [OF 0(2)] assms(2) [OF 0(2)] by (simp add: status_ok_def)
next
  case (Suc n)
  obtain h hs where q: "vr_q (used v) = h # hs" using Suc.hyps(2) by (cases "vr_q (used v)") auto
  show ?case
  proof (cases "info_status v (unat h) = 0")
    case False
    then show ?thesis using intr_error [OF Suc.prems q] q by (simp add: status_ok_def)
  next
    case True
    obtain b i1 i2 w where s: "virtio_disk_intr v = virtio_disk_intr (noted b v)" "vinv (noted b v)"
      "wt v b = Some ((unat h, i1, i2), w)" "bf_disk v b" by (rule intr_step [OF Suc.prems q True])
    have qn: "vr_q (used (noted b v)) = hs" using vr_pop_q(1) [OF q] by simp
    then have "n = length (vr_q (used (noted b v)))" using Suc.hyps(2) q by (simp del: length_vr_q)
    moreover have "status_ok (noted b v) = status_ok v" using q qn True by (simp add: status_ok_def del: noted_simps(7))
    ultimately show ?thesis using Suc.hyps(1) [OF _ s(2)] assms(3) [OF Suc.prems q s(3,4,2)] s(1) by auto
  qed
qed

lemma intr_inv:
  "vinv v \<Longrightarrow> if status_ok v then \<exists>v'. virtio_disk_intr v = Inr v' \<and> vinv v' \<and> status_ok v'
    else virtio_disk_intr v = Inl ''virtio_disk_intr status''"
  by (induction rule: intr_induct) (auto simp: status_ok_def)

text \<open>The driver does not touch the status of a completed request.\<close>

lemma rw_status:
  assumes "vinv v" and "virtio_disk_rw b v = Inr v'"
  shows "status_ok v' = status_ok v"
proof -
  have "used v' = used v \<and> (\<forall>i \<in> busy v. info_status v' i = info_status v i)"
  proof (cases "rw v b")
    case Idle
    then show ?thesis using assms(2) by (simp add: virtio_disk_rw_def)
  next
    case (Want w a)
    show ?thesis
    proof (cases rule: alloc3_cases [of v])
      case (some i0 i1 i2 v1)
      then show ?thesis using assms(2) Want alloc3_Some [OF some] by (auto simp: virtio_disk_rw_def busy_def)
    next
      case (none v1)
      then show ?thesis using assms(2) Want quiet_fields [OF none(2)] by (auto simp: virtio_disk_rw_def)
    qed
  next
    case (Waiting idx w a)
    obtain i0 i1 i2 where idx: "idx = (i0, i1, i2)" by (rule prod_cases3)
    then have "own v b w i0 i1 i2" using assms(1) chains_ownD Waiting by (simp add: vinv_def wt_def)
    then show ?thesis using assms(2) Waiting idx free_chain_own by (auto simp: virtio_disk_rw_def split: if_splits)
  qed
  moreover have "unat h \<in> busy v" if "h \<in> set (vr_q (used v))" for h
    using that assms(1) heads_busy [of v] by (auto simp: vinv_def rings_ok_def queue_def)
  ultimately show ?thesis by (simp add: status_ok_def)
qed

end
