(* ===== verification/VirtioSim.thy ===== *)
theory VirtioSim
  imports VirtioInv
begin

text \<open>
  With a device that reports no error the driver implements an abstract disk that performs every request at one
  moment between the call of \<open>virtio_disk_rw\<close> and its return, and from every reachable state every request in progress
  can still be completed. With any device the only panic of the driver that can be reached is the one for an
  error status.
\<close>

unbundle bit_operations_syntax

section \<open>What the device does\<close>

lemma pend_head:
  assumes "vinv v" and "h \<in> set (pend v)"
  obtains b i1 i2 w where "wt v b = Some ((unat h, i1, i2), w)" "bf_disk v b" "own v b w (unat h) i1 i2"
proof -
  have "unat h \<in> heads v" using assms by (auto simp: vinv_def rings_ok_def queue_def)
  then obtain b i1 i2 w where w: "wt v b = Some ((unat h, i1, i2), w)" "bf_disk v b" by (rule headsE)
  then show ?thesis using that assms(1) chains_ownD [OF _ w(1)] by (simp add: vinv_def)
qed

lemma own_chain:
  assumes "own v b w (unat h) i1 i2"
  shows "dev_chain v h = (\<lparr>d_addr = OpOf (unat h), d_len = 16, d_flags = F_NEXT, d_next = of_nat i1\<rparr>,
    \<lparr>d_addr = DataOf b, d_len = 1024, d_flags = (if w then 0 else F_WRITE) OR F_NEXT, d_next = of_nat i2\<rparr>,
    \<lparr>d_addr = StatusOf (unat h), d_len = 1, d_flags = F_WRITE, d_next = 0\<rparr>)"
  using assms by (auto simp: own_def dev_chain_def Let_def small_u16 busy_def)

lemma own_request_ok: "own v b w (unat h) i1 i2 \<Longrightarrow> request_ok v h"
  by (simp add: request_ok_def own_chain) (auto simp: own_def busy_def)

definition completed :: "nat \<Rightarrow> bool \<Rightarrow> u16 \<Rightarrow> byte \<Rightarrow> byte list \<Rightarrow> vdisk \<Rightarrow> vdisk" where
  "completed b w h st d v =
     (if w then v\<lparr>sectors := sectors_write (sector_of (bf_blockno v b)) d (sectors v)\<rparr>
      else v\<lparr>bf_data := (bf_data v)(b := d)\<rparr>)
     \<lparr>info_status := (info_status v)(unat h := st), pend := remove1 h (pend v), used := vr_push (ucast h) (used v)\<rparr>"

definition performed :: "nat \<Rightarrow> bool \<Rightarrow> u16 \<Rightarrow> vdisk \<Rightarrow> vdisk" where
  "performed b w h v =
     completed b w h 0 (if w then bf_data v b else sectors_read (sector_of (bf_blockno v b)) (sectors v)) v"

lemma own_error: "own v b w (unat h) i1 i2 \<Longrightarrow> dev_error h st d v = completed b w h st d v"
  by (simp add: dev_error_def own_chain completed_def) (auto simp: own_def)

lemma own_done: "own v b w (unat h) i1 i2 \<Longrightarrow> dev_done h v = performed b w h v"
  by (simp add: dev_done_def own_chain performed_def completed_def) (auto simp: own_def)

lemma completed_simps [simp]:
  "rw (completed b w h st d v) = rw v" "vfree (completed b w h st d v) = vfree v" "desc (completed b w h st d v) = desc v"
  "ops (completed b w h st d v) = ops v" "info_b (completed b w h st d v) = info_b v" "bf_disk (completed b w h st d v) = bf_disk v"
  "bf_blockno (completed b w h st d v) = bf_blockno v" "avail (completed b w h st d v) = avail v"
  "pend (completed b w h st d v) = remove1 h (pend v)" "used (completed b w h st d v) = vr_push (ucast h) (used v)"
  "info_status (completed b w h st d v) = (info_status v)(unat h := st)"
  by (simp_all add: completed_def)

lemma completed_inv:
  assumes "vinv v" and h: "h \<in> set (pend v)"
  shows "vinv (completed b w h st d v)" "vr_q (used (completed b w h st d v)) = vr_q (used v) @ [ucast h]" (is "vr_q (used ?u) = _")
proof -
  have c: "chains_ok v" and r: "rings_ok v" and s: "sleepers_ok v" using assms(1) by (simp_all add: vinv_def)
  have wt: "wt ?u = wt v" by (rule wt_rw) simp
  obtain xs ys where p: "pend v = xs @ h # ys" "h \<notin> set xs" using split_list_first [OF h] by blast
  then have p': "remove1 h (xs @ h # ys) = xs @ ys" by (simp add: remove1_append)
  have "length (vr_q (used v)) < length (queue v)" by (simp add: queue_def p del: length_vr_q)
  also have "\<dots> \<le> card (busy v)" by (rule rings_length [OF c r])
  also have "\<dots> \<le> card {0..<8 :: nat}" by (rule card_mono) (auto simp: busy_def)
  finally have l: "length (vr_q (used v)) < 8" by simp
  have ok: "vr_ok (used v)" using r by (simp add: rings_ok_def)
  note q = push_room [OF ok l, of "ucast h"]
  show qu: "vr_q (used ?u) = vr_q (used v) @ [ucast h]" using q(2) by simp
  have "chains_ok ?u" by (rule chains_cong [OF c wt]) (simp_all add: busy_def)
  moreover have "rings_ok ?u"
  proof -
    have "heads ?u = heads v" by (simp add: heads_def wt)
    moreover have u: "unat (ucast h :: u32) = unat h"
      by (simp add: unsigned_ucast_eq take_bit_nat_eq_self less_le_trans [OF unsigned_less])
    moreover have "queue ?u = map unat (vr_q (avail v)) @ map unat xs @ map unat ys @ map unat (vr_q (used v)) @ [unat h]"
      "queue v = map unat (vr_q (avail v)) @ map unat xs @ unat h # map unat ys @ map unat (vr_q (used v))"
      unfolding queue_def qu by (simp_all add: p' p(1) u)
    ultimately show ?thesis using r q(1) qu unfolding rings_ok_def by auto
  qed
  moreover have "sleepers_ok ?u"
    by (rule sleepers_okI) (use sleepers_diskD [OF s] sleepers_waitD [OF s] sleepers_wantD [OF s] in \<open>auto simp: wt nfree_def\<close>)
  ultimately show "vinv ?u" by (simp add: vinv_def)
qed

lemma performed_simps [simp]:
  "rw (performed b w h v) = rw v" "pend (performed b w h v) = remove1 h (pend v)" "avail (performed b w h v) = avail v"
  "bf_disk (performed b w h v) = bf_disk v" "used (performed b w h v) = vr_push (ucast h) (used v)"
  by (simp_all add: performed_def)

lemma performed_inv:
  assumes "vinv v" and "h \<in> set (pend v)"
  shows "vinv (performed b w h v)" "vr_q (used (performed b w h v)) = vr_q (used v) @ [ucast h]"
  unfolding performed_def by (fact completed_inv [OF assms])+

lemma dev_fetch_simps [simp]:
  "rw (dev_fetch v) = rw v" "vfree (dev_fetch v) = vfree v" "desc (dev_fetch v) = desc v"
  "ops (dev_fetch v) = ops v" "info_b (dev_fetch v) = info_b v" "bf_disk (dev_fetch v) = bf_disk v"
  "bf_blockno (dev_fetch v) = bf_blockno v" "bf_data (dev_fetch v) = bf_data v" "sectors (dev_fetch v) = sectors v"
  "avail (dev_fetch v) = vr_pop (avail v)" "pend (dev_fetch v) = pend v @ [vr_front (avail v)]"
  "used (dev_fetch v) = used v" "info_status (dev_fetch v) = info_status v"
  by (simp_all add: dev_fetch_def)

lemma fetch_inv:
  assumes "vinv v" and "vr_q (avail v) \<noteq> []"
  shows "vinv (dev_fetch v)"
proof -
  have c: "chains_ok v" and r: "rings_ok v" and s: "sleepers_ok v" using assms(1) by (simp_all add: vinv_def)
  have wt: "wt (dev_fetch v) = wt v" by (rule wt_rw) simp
  obtain a as where q: "vr_q (avail v) = a # as" using assms(2) by (cases "vr_q (avail v)") auto
  have "vr_ok (avail v)" using r by (simp add: rings_ok_def)
  note p = vring_fifo.pop_ok [OF this q]
  have "chains_ok (dev_fetch v)" by (rule chains_cong [OF c wt]) (simp_all add: busy_def)
  moreover have "rings_ok (dev_fetch v)"
  proof -
    have "heads (dev_fetch v) = heads v" by (simp add: heads_def wt) 
    moreover have "queue (dev_fetch v) = map unat as @ map unat (pend v) @ unat a # map unat (vr_q (used v))"
      "queue v = unat a # map unat as @ map unat (pend v) @ map unat (vr_q (used v))"
      using p q by (simp_all add: queue_def)
    ultimately show ?thesis using r p unfolding rings_ok_def by auto
  qed
  moreover have "sleepers_ok (dev_fetch v)"
    by (rule sleepers_okI)
      (use sleepers_diskD [OF s] sleepers_waitD [OF s] sleepers_wantD [OF s] in \<open>auto simp: wt nfree_def\<close>)
  ultimately show ?thesis by (simp add: vinv_def)
qed

lemma device_step:
  assumes "device dev" and "vinv v" and "dev v v'"
  obtains (fetch) "vr_q (avail v) \<noteq> []" "v' = dev_fetch v"
  | (perform) h b i1 i2 w where "h \<in> set (pend v)" "wt v b = Some ((unat h, i1, i2), w)" "bf_disk v b" "v' = performed b w h v"
proof -
  have "vr_q (avail v) \<noteq> [] \<and> v' = dev_fetch v \<or> (\<exists>h \<in> set (pend v). request_ok v h \<longrightarrow> v' = dev_done h v)"
    using assms(1,3) unfolding device_def by blast
  then show ?thesis
  proof (elim disjE bexE)
    assume "vr_q (avail v) \<noteq> [] \<and> v' = dev_fetch v"
    then show ?thesis using fetch by blast
  next
    fix h assume h: "h \<in> set (pend v)" "request_ok v h \<longrightarrow> v' = dev_done h v"
    obtain b i1 i2 w where b: "wt v b = Some ((unat h, i1, i2), w)" "bf_disk v b" "own v b w (unat h) i1 i2"
      by (rule pend_head [OF assms(2) h(1)])
    then show ?thesis using perform [OF h(1) b(1,2)] h(2) own_request_ok [OF b(3)] own_done [OF b(3)] by simp
  qed
qed

lemma blk_step:
  assumes "blk_device dev" and "vinv v" and "dev v v'"
  obtains (fetch) "vr_q (avail v) \<noteq> []" "v' = dev_fetch v"
  | (complete) h b i1 i2 w st d where "h \<in> set (pend v)" "wt v b = Some ((unat h, i1, i2), w)" "bf_disk v b" "v' = completed b w h st d v"
proof -
  have "vr_q (avail v) \<noteq> [] \<and> v' = dev_fetch v
      \<or> (\<exists>h \<in> set (pend v). request_ok v h \<longrightarrow> v' = dev_done h v \<or> (\<exists>st d. st \<noteq> 0 \<and> v' = dev_error h st d v))"
    using assms(1,3) unfolding blk_device_def by blast
  then show ?thesis
  proof (elim disjE bexE)
    assume "vr_q (avail v) \<noteq> [] \<and> v' = dev_fetch v"
    then show ?thesis using fetch by blast
  next
    fix h assume h: "h \<in> set (pend v)" "request_ok v h \<longrightarrow> v' = dev_done h v \<or> (\<exists>st d. st \<noteq> 0 \<and> v' = dev_error h st d v)"
    obtain b i1 i2 w where b: "wt v b = Some ((unat h, i1, i2), w)" "bf_disk v b" "own v b w (unat h) i1 i2"
      by (rule pend_head [OF assms(2) h(1)])
    then show ?thesis using complete [OF h(1) b(1,2)] h(2) own_request_ok [OF b(3)] own_done [OF b(3)] own_error [OF b(3)]
      by (auto simp: performed_def)
  qed
qed

lemma kill_inv: "vinv v \<Longrightarrow> vinv (kill_wake b v)"
  unfolding kill_wake_def
  by (rule set_rw_inv) (auto simp: wt_set_rw wt_def fun_eq_iff split: rwpc.splits)

lemma modify_inv:
  assumes "vinv v" and "rw v b = Idle"
  shows "vinv (v\<lparr>bf_data := f, bf_blockno := (bf_blockno v)(b := n)\<rparr>)" (is "vinv ?u")
proof -
  have c: "chains_ok v" and r: "rings_ok v" and s: "sleepers_ok v" using assms(1) by (simp_all add: vinv_def)
  have wt: "wt ?u = wt v" by (rule wt_rw) simp
  have "chains_ok ?u" by (rule chains_cong [OF c wt]) (use assms(2) in \<open>auto simp: busy_def wt_def\<close>)
  moreover have "rings_ok ?u" by (rule rings_cong [OF r wt]) simp_all
  moreover have "sleepers_ok ?u"
    by (rule sleepers_okI) (use sleepers_diskD [OF s] sleepers_waitD [OF s] sleepers_wantD [OF s] in \<open>auto simp: wt nfree_def\<close>)
  ultimately show ?thesis by (simp add: vinv_def)
qed

lemma step_inv:
  assumes "blk_device dev" and "vinv v" and "step dev v v'"
  shows "vinv v'"
  using assms(3)
proof cases
  case (modify b d n)
  then show ?thesis using modify_inv [OF assms(2)] by simp
next
  case (call b w)
  then show ?thesis using set_rw_inv [OF assms(2), of b "Want w False"] by (simp add: wt_set_rw wt_def fun_eq_iff)
next
  case (turn b)
  then show ?thesis using rw_inv [OF assms(2), of b] by auto
next
  case (kill b)
  then show ?thesis using kill_inv [OF assms(2)] by simp
next
  case intr
  then show ?thesis using intr_inv [OF assms(2)] by (auto split: if_splits)
next
  case devs
  show ?thesis
    by (rule blk_step [OF assms(1,2) devs]) (use assms(2) fetch_inv completed_inv(1) in auto)
qed

text \<open>With a device that reports no error.\<close>

definition sinv :: "vdisk \<Rightarrow> bool" where
  "sinv v \<longleftrightarrow> vinv v \<and> status_ok v"

lemma sinv_vinv: "sinv v \<Longrightarrow> vinv v" by (simp add: sinv_def)

lemma status_cong: "status_ok v \<Longrightarrow> used v' = used v \<Longrightarrow> info_status v' = info_status v \<Longrightarrow> status_ok v'"
  by (simp add: status_ok_def)

lemma performed_status:
  assumes "vinv v" and "status_ok v" and "h \<in> set (pend v)"
  shows "status_ok (performed b w h v)"
proof -
  have "unat (ucast h :: u32) = unat h"
    by (simp add: unsigned_ucast_eq take_bit_nat_eq_self less_le_trans [OF unsigned_less])
  moreover have "info_status (performed b w h v) = (info_status v)(unat h := 0)" by (simp add: performed_def)
  ultimately show ?thesis using assms(2) unfolding status_ok_def performed_inv(2) [OF assms(1,3)] by auto
qed

lemma step_sinv:
  assumes "device dev" and "sinv v" and "step dev v v'"
  shows "sinv v'"
proof -
  have v: "vinv v" and s: "status_ok v" using assms(2) by (simp_all add: sinv_def)
  from assms(3) have "status_ok v'"
  proof cases
    case (turn b)
    then show ?thesis using rw_status [OF v] s by blast
  next
    case intr
    then show ?thesis using intr_inv [OF v] s by auto
  next
    case devs
    show ?thesis
      by (rule device_step [OF assms(1) v devs]) (use status_cong [OF s] performed_status [OF v s] in auto)
  qed (use status_cong [OF s] in \<open>auto simp: kill_wake_def\<close>)
  then show ?thesis using step_inv [OF device_blk [OF assms(1)] v assms(3)] by (simp add: sinv_def)
qed

lemma vinit_inv: "vinv (vinit d n ss)"
proof -
  have "wt (vinit d n ss) b = None" for b by (simp add: wt_def vinit_def vzero_def)
  moreover have "busy (vinit d n ss) = {}" by (auto simp: busy_def vinit_def vzero_def)
  moreover have "vr_q (avail (vinit d n ss)) = []" "vr_q (used (vinit d n ss)) = []" by (simp_all add: vinit_def vzero_def zero_ring_def vr_q_def)
  ultimately show ?thesis
    by (auto simp: vinv_def chains_ok_def chain_def rings_ok_def heads_def queue_def sleepers_ok_def)
      (auto simp: vinit_def vzero_def zero_ring_def vr_ok_def)
qed

lemma vinit_sinv: "sinv (vinit d n ss)"
  using vinit_inv by (simp add: sinv_def) (simp add: status_ok_def vinit_def vzero_def zero_ring_def vr_q_def)

lemma reach_sinv:
  assumes d: "device dev" and "reach dev v"
  shows "sinv v"
proof -
  obtain x n ss where "(step dev)\<^sup>*\<^sup>* (vinit x n ss) v" using assms(2) by (auto simp: reach_def)
  then show ?thesis by induction (use vinit_sinv step_sinv [OF d] in auto)
qed

lemmas reach_vinv = sinv_vinv [OF reach_sinv]

lemma reach_inv: "blk_device dev \<Longrightarrow> reach dev v \<Longrightarrow> vinv v"
proof -
  assume d: "blk_device dev" and "reach dev v"
  then obtain x n ss where "(step dev)\<^sup>*\<^sup>* (vinit x n ss) v" by (auto simp: reach_def)
  then show ?thesis by induction (use vinit_inv step_inv [OF d] in auto)
qed

section \<open>The abstract disk\<close>

datatype ast = AIdle | ARequested bool | ADone

record adisk =
  a_st :: "nat \<Rightarrow> ast"
  a_data :: "nat \<Rightarrow> byte list"
  a_block :: "nat \<Rightarrow> u32"
  a_sectors :: "u64 \<Rightarrow> byte list"

inductive astep :: "adisk \<Rightarrow> adisk \<Rightarrow> bool" where
  a_modify: "a_st a b = AIdle \<Longrightarrow> astep a (a\<lparr>a_data := (a_data a)(b := d), a_block := (a_block a)(b := n)\<rparr>)"
| a_request: "a_st a b = AIdle \<Longrightarrow> astep a (a\<lparr>a_st := (a_st a)(b := ARequested w)\<rparr>)"
| a_write: "a_st a b = ARequested True \<Longrightarrow>
    astep a (a\<lparr>a_st := (a_st a)(b := ADone), a_sectors := sectors_write (sector_of (a_block a b)) (a_data a b) (a_sectors a)\<rparr>)"
| a_read: "a_st a b = ARequested False \<Longrightarrow>
    astep a (a\<lparr>a_st := (a_st a)(b := ADone), a_data := (a_data a)(b := sectors_read (sector_of (a_block a b)) (a_sectors a))\<rparr>)"
| a_return: "a_st a b = ADone \<Longrightarrow> astep a (a\<lparr>a_st := (a_st a)(b := AIdle)\<rparr>)"

definition st_of :: "vdisk \<Rightarrow> nat \<Rightarrow> ast" where
  "st_of v b = (case rw v b of
     Idle \<Rightarrow> AIdle
   | Want w _ \<Rightarrow> ARequested w
   | Waiting (i0, _, _) w _ \<Rightarrow> if bf_disk v b \<and> i0 \<notin> unat ` set (vr_q (used v)) then ARequested w else ADone)"

definition absv :: "vdisk \<Rightarrow> adisk" where
  "absv v = \<lparr>a_st = st_of v, a_data = bf_data v, a_block = bf_blockno v, a_sectors = sectors v\<rparr>"

lemma st_of_wt: "wt v b = Some ((i0, i1, i2), w) \<Longrightarrow>
    st_of v b = (if bf_disk v b \<and> i0 \<notin> unat ` set (vr_q (used v)) then ARequested w else ADone)"
  by (auto simp: wt_def st_of_def split: rwpc.splits)

lemma st_of_cong:
  assumes "wt v' b = wt v b" and "wt v b = None \<Longrightarrow> rw v' b = rw v b \<or> (\<exists>w. rw v b = Want w True \<and> rw v' b = Want w False)"
    and "bf_disk v' b = bf_disk v b" and "used v' = used v"
  shows "st_of v' b = st_of v b"
proof (cases "wt v b")
  case None
  then have "rw v' b = rw v b \<or> (\<exists>w. rw v b = Want w True \<and> rw v' b = Want w False)" using assms(2) by simp
  then show ?thesis using None by (auto simp: st_of_def wt_def split: rwpc.splits)
next
  case (Some a)
  obtain i0 i1 i2 w where a: "a = ((i0, i1, i2), w)" by (metis prod_cases4 surj_pair)
  show ?thesis using st_of_wt [of v b i0 i1 i2 w] st_of_wt [of v' b i0 i1 i2 w] assms(1,3,4) Some a by simp
qed

text \<open>The interrupt handler changes nothing the callers can see.\<close>

lemma intr_abs: "vinv v \<Longrightarrow> if status_ok v then \<exists>v'. virtio_disk_intr v = Inr v' \<and> absv v' = absv v
    else virtio_disk_intr v = Inl ''virtio_disk_intr status''"
proof (induction rule: intr_induct)
  case (noted v h hs b i1 i2 w v')
  have ok: "vr_ok (used v)" and dq: "distinct (queue v)" using noted.hyps(1) by (simp_all add: vinv_def rings_ok_def)
  have q': "vr_q (used (noted b v)) = hs" using vr_pop_q(1) [OF noted.hyps(2)] by simp
  have "st_of (noted b v) b' = st_of v b'" for b'
  proof (cases "b' = b")
    case True
    then show ?thesis using st_of_wt [of v b "unat h" i1 i2 w] st_of_wt [of "noted b v" b "unat h" i1 i2 w] noted.hyps by simp
  next
    case False
    show ?thesis
    proof (cases "wt v b'")
      case None
      then show ?thesis using False by (auto simp: st_of_def wt_def split: rwpc.splits)
    next
      case (Some a)
      obtain j0 j1 j2 w' where a: "wt v b' = Some ((j0, j1, j2), w')" using Some by (metis prod_cases4 surj_pair)
      have "j0 \<noteq> unat h"
        using heads_unique [of v b "unat h" i1 i2 w b' j1 j2 w'] a noted.hyps(1,3) False by (auto simp: vinv_def)
      then show ?thesis using st_of_wt [OF a] st_of_wt [of "noted b v" b' j0 j1 j2 w'] a False noted.hyps(2) q' by auto
    qed
  qed
  then have "absv (noted b v) = absv v" by (simp add: absv_def fun_eq_iff)
  then show ?case using noted(6) by simp
qed simp

lemma rw_abs:
  assumes "vinv v" and "virtio_disk_rw b v = Inr v'"
  shows "absv v' = absv v \<or> astep (absv v) (absv v')"
proof (cases "rw v b")
  case Idle
  then show ?thesis using assms(2) by (simp add: virtio_disk_rw_def)
next
  case (Want w a)
  then have wt: "wt v b = None" by (simp add: wt_def)
  show ?thesis
  proof (cases rule: alloc3_cases [of v])
    case (some i0 i1 i2 v1)
    note al = alloc3_Some [OF some]
    have v': "v' = set_rw b (Waiting (i0, i1, i2) w True) (submit b w (i0, i1, i2) v1)"
      using assms(2) some Want by (simp add: virtio_disk_rw_def)
    have "i0 \<notin> busy v" using al(1) by (simp add: busy_def)
    then have n: "i0 \<notin> unat ` set (vr_q (used v))"
      using heads_busy [of v] assms(1) by (auto simp: vinv_def rings_ok_def queue_def)
    have "st_of v' b' = st_of v b'" for b'
      using n Want by (cases "b' = b") (auto simp: v' al(3) st_of_def split: rwpc.splits)
    then have "absv v' = absv v" by (simp add: absv_def fun_eq_iff v' al(3))
    then show ?thesis ..
  next
    case (none v1)
    note f = quiet_fields [OF none(2)]
    have v': "v' = set_rw b (Want w True) v1" using assms(2) none(1) Want by (simp add: virtio_disk_rw_def)
    have "st_of v' b' = st_of v b'" for b'
    proof (cases "b' = b")
      case False
      have "st_of v1 b' = st_of v b'" by (rule st_of_cong) (use f none(2) in \<open>auto simp: quiet_def\<close>)
      moreover have "st_of v' b' = st_of v1 b'" using False by (simp add: v' st_of_def split: rwpc.splits)
      ultimately show ?thesis by simp
    qed (use Want in \<open>simp add: v' st_of_def\<close>)
    then have "absv v' = absv v" by (simp add: absv_def fun_eq_iff v' f)
    then show ?thesis ..
  qed
next
  case (Waiting idx w a)
  obtain i0 i1 i2 where idx: "idx = (i0, i1, i2)" by (rule prod_cases3)
  then have wt: "wt v b = Some ((i0, i1, i2), w)" using Waiting by (simp add: wt_def)
  show ?thesis
  proof (cases "bf_disk v b")
    case True
    then have "v' = set_rw b (Waiting idx w True) v" using assms(2) Waiting by (simp add: virtio_disk_rw_def)
    then have "absv v' = absv v" using Waiting by (auto simp: absv_def fun_eq_iff st_of_def split: rwpc.splits)
    then show ?thesis ..
  next
    case False
    let ?t = "v\<lparr>info_b := (info_b v)(i0 := None), desc := (desc v)(i0 := desc0, i1 := desc0, i2 := desc0),
      vfree := (vfree v)(i0 := True, i1 := True, i2 := True)\<rparr>"
    have "own v b w i0 i1 i2" using assms(1) chains_ownD wt by (simp add: vinv_def)
    then have v': "v' = set_rw b Idle (wake_free ?t)" using assms(2) free_chain_own False Waiting idx by (simp add: virtio_disk_rw_def)
    have "st_of v' b' = (if b' = b then AIdle else st_of v b')" for b'
      by (auto simp: v' st_of_def wake_free_def split: rwpc.splits)
    then have "absv v' = (absv v)\<lparr>a_st := (a_st (absv v))(b := AIdle)\<rparr>" by (simp add: absv_def fun_eq_iff v')
    moreover have "a_st (absv v) b = ADone" using st_of_wt [OF wt] False by (simp add: absv_def)
    ultimately show ?thesis using a_return [of "absv v" b] by simp
  qed
qed

lemma performed_abs:
  assumes "vinv v" and h: "h \<in> set (pend v)" and w: "wt v b = Some ((unat h, i1, i2), w)" and d: "bf_disk v b"
  shows "astep (absv v) (absv (performed b w h v))"
proof -
  have c: "chains_ok v" and dq: "distinct (queue v)" using assms(1) by (simp_all add: vinv_def rings_ok_def)
  have u: "unat (ucast h :: u32) = unat h"
    by (simp add: unsigned_ucast_eq take_bit_nat_eq_self less_le_trans [OF unsigned_less])
  have q: "vr_q (used (performed b w h v)) = vr_q (used v) @ [ucast h]" by (rule performed_inv(2) [OF assms(1,2)])
  have "unat h \<notin> unat ` set (vr_q (used v))" using dq h by (auto simp: queue_def)
  then have st: "a_st (absv v) b = ARequested w" using st_of_wt [OF w] d by (simp add: absv_def)
  have "st_of (performed b w h v) b' = (if b' = b then ADone else st_of v b')" for b'
  proof -
    have wt: "wt (performed b w h v) = wt v" by (rule wt_rw) simp
    show ?thesis
    proof (cases "wt v b'")
      case None
      then show ?thesis using w by (auto simp: st_of_def wt_def split: rwpc.splits)
    next
      case (Some a)
      obtain j0 j1 j2 w' where a: "wt v b' = Some ((j0, j1, j2), w')" using Some by (metis prod_cases4 surj_pair)
      have e: "st_of (performed b w h v) b' = (if bf_disk v b' \<and> j0 \<notin> insert (unat h) (unat ` set (vr_q (used v))) then ARequested w' else ADone)"
        using st_of_wt [of "performed b w h v" b' j0 j1 j2 w'] a wt q u by (auto simp del: performed_simps(5))
      show ?thesis
      proof (cases "b' = b")
        case True
        then show ?thesis using e a w by simp
      next
        case False
        then have "j0 \<noteq> unat h" using heads_unique [OF c w] a by blast
        then show ?thesis using e False st_of_wt [OF a] by simp
      qed
    qed
  qed
  then have "st_of (performed b w h v) = (st_of v)(b := ADone)" by (simp add: fun_eq_iff)
  then show ?thesis using a_write [of "absv v" b] a_read [of "absv v" b] st
    by (cases w) (simp_all add: absv_def performed_def completed_def)
qed

lemma fetch_abs: "absv (dev_fetch v) = absv v"
  by (simp add: absv_def fun_eq_iff st_of_def split: rwpc.splits)

section \<open>Requests complete\<close>















section \<open>Properties of the driver\<close>

text \<open>A device that completes requests in the order it finds them.\<close>

definition plain_device :: "vdisk \<Rightarrow> vdisk \<Rightarrow> bool" where
  "plain_device v v' \<longleftrightarrow>
     (if vr_q (avail v) \<noteq> [] then v' = dev_fetch v else pend v \<noteq> [] \<and> v' = dev_done (hd (pend v)) v)"

lemma plain_device: "device plain_device"
proof -
  have "\<exists>h \<in> set (pend v). request_ok v h \<longrightarrow> dev_done (hd (pend v)) v = dev_done h v" if "pend v \<noteq> []" for v
    using that hd_in_set by blast
  then show ?thesis unfolding device_def plain_device_def by auto
qed

text \<open>C4: The driver and the device implement the abstract disk: every step from a reachable state, whichever
  processes are in \<open>virtio_disk_rw\<close> and however the device orders the requests, is one step of the abstract
  disk or invisible to it. So each request reads or writes its whole block at one moment between call
  and return, and only its own buffer or its own block changes.\<close>

theorem virtio_refines:
  assumes "device dev" and "reach dev v" and "step dev v v'"
  shows "absv v' = absv v \<or> astep (absv v) (absv v')"
  using assms(3)
proof cases
  case (modify b n d)
  have "st_of v' = st_of v" by (simp add: fun_eq_iff st_of_def modify split: rwpc.splits)
  then have "absv v' = (absv v)\<lparr>a_data := (a_data (absv v))(b := d), a_block := (a_block (absv v))(b := n)\<rparr>"
    by (simp add: absv_def modify(1))
  moreover have "a_st (absv v) b = AIdle" by (simp add: absv_def st_of_def modify(2))
  ultimately show ?thesis using a_modify [where a = "absv v" and b = b and d = d and n = n] by simp
next
  case (call b w)
  have "st_of v' = (st_of v)(b := ARequested w)" by (simp add: fun_eq_iff st_of_def call(1) split: rwpc.splits)
  then have "absv v' = (absv v)\<lparr>a_st := (a_st (absv v))(b := ARequested w)\<rparr>" by (simp add: absv_def call(1))
  moreover have "a_st (absv v) b = AIdle" by (simp add: absv_def st_of_def call(2))
  ultimately show ?thesis using a_request [of "absv v" b w] by simp
next
  case (turn b)
  then show ?thesis using rw_abs [OF reach_vinv [OF assms(1,2)]] by blast
next
  case (kill b)
  then have "absv v' = absv v" by (auto simp: absv_def kill_wake_def fun_eq_iff st_of_def split: rwpc.splits)
  then show ?thesis ..
next
  case intr
  then show ?thesis using intr_abs [OF reach_vinv [OF assms(1,2)]] by (auto split: if_splits)
next
  case devs
  show ?thesis
    by (rule device_step [OF assms(1) reach_vinv [OF assms(1,2)] devs])
      (use fetch_abs performed_abs [OF reach_vinv [OF assms(1,2)]] in auto)
qed

definition quiet0 :: vdisk where
  "quiet0 = vinit (\<lambda>_. []) (\<lambda>_. 0) (\<lambda>_. [])"

lemma reach_quiet0: "reach dev quiet0" "step dev quiet0 (set_rw 0 (Want True False) quiet0)" "reach dev (set_rw 0 (Want True False) quiet0)"
proof -
  show "reach dev quiet0" unfolding reach_def quiet0_def by blast
  show "step dev quiet0 (set_rw 0 (Want True False) quiet0)" by (rule call) (simp add: quiet0_def vinit_def vzero_def)
  then show "reach dev (set_rw 0 (Want True False) quiet0)" unfolding reach_def quiet0_def by (metis r_into_rtranclp)
qed

theorem virtio_refines_witness:
  "astep (absv quiet0) (absv (set_rw 0 (Want True False) quiet0))"
proof -
  have "st_of (set_rw 0 (Want True False) quiet0) 0 \<noteq> st_of quiet0 0" by (simp add: st_of_def quiet0_def vinit_def vzero_def)
  then have "absv (set_rw 0 (Want True False) quiet0) \<noteq> absv quiet0" by (auto simp: absv_def)
  then show ?thesis using virtio_refines [OF plain_device reach_quiet0(1,2)] by simp
qed

text \<open>C12: Whatever errors the device reports, the only panic of the driver that can be reached is the one for an error
  status, and the interrupt handler raises it exactly when the device has completed a request with an error:
  never \<open>free_desc 1\<close> or \<open>free_desc 2\<close>, and no completed descriptor without a buffer. Every process finds
  its own three descriptors as it left them, also when \<open>kkill\<close> wakes it early.\<close>

theorem virtio_no_panic:
  assumes "blk_device dev" and "reach dev v"
  shows "(\<exists>v'. virtio_disk_rw b v = Inr v')
    \<and> (if \<exists>h \<in> set (vr_q (used v)). info_status v (unat h) \<noteq> 0
       then virtio_disk_intr v = Inl ''virtio_disk_intr status''
       else \<exists>v'. virtio_disk_intr v = Inr v')"
  using rw_inv [OF reach_inv [OF assms], of b] intr_inv [OF reach_inv [OF assms]]
  by (auto simp: status_ok_def split: if_splits)

text \<open>A device on which every request fails.\<close>

definition broken_device :: "vdisk \<Rightarrow> vdisk \<Rightarrow> bool" where
  "broken_device v v' \<longleftrightarrow>
     (if vr_q (avail v) \<noteq> [] then v' = dev_fetch v else pend v \<noteq> [] \<and> v' = dev_error (hd (pend v)) 1 [] v)"

lemma broken_device: "blk_device broken_device"
proof -
  have "\<exists>h \<in> set (pend v). request_ok v h \<longrightarrow> dev_error (hd (pend v)) 1 [] v = dev_done h v
      \<or> (\<exists>st d. st \<noteq> 0 \<and> dev_error (hd (pend v)) 1 [] v = dev_error h st d v)" if "pend v \<noteq> []" for v
    using that hd_in_set [OF that] by (intro bexI [of _ "hd (pend v)"]) (auto intro!: exI [of _ 1])
  then show ?thesis unfolding blk_device_def broken_device_def by auto
qed

theorem virtio_no_panic_witness:
  "\<exists>v. reach broken_device v \<and> virtio_disk_intr v = Inl ''virtio_disk_intr status'' \<and> (\<exists>v'. virtio_disk_rw 0 v = Inr v')"
proof -
  define v1 where "v1 = set_rw 0 (Want True False) quiet0"
  define v2 where "v2 = set_rw 0 (Waiting (0, 1, 2) True True)
    (submit 0 True (0, 1, 2) (v1\<lparr>vfree := (vfree v1)(0 := False, 1 := False, 2 := False)\<rparr>))"
  define v3 where "v3 = dev_fetch v2"
  define v4 where "v4 = dev_error 0 1 [] v3"
  note defs = quiet0_def vinit_def vzero_def zero_ring_def
  have "virtio_disk_rw 0 v1 = Inr v2"
    by (simp add: virtio_disk_rw_def v1_def v2_def defs alloc3_desc_def alloc_desc_def upt_rec numeral_2_eq_2)
  then have 2: "step broken_device v1 v2" by (intro turn [of v1 0]) (simp_all add: v1_def awake_def)
  have a: "avail v2 = vr_push 0 zero_ring" "pend v2 = []" "used v2 = zero_ring"
    by (simp_all add: v2_def v1_def defs)
  have q: "vr_q (vr_push 0 (zero_ring :: u16 vring)) = [0]" "vr_front (vr_push 0 (zero_ring :: u16 vring)) = 0"
    by (simp_all add: vr_q_def vr_push_def vr_front_def zero_ring_def)
  have "broken_device v2 v3" using a q by (simp add: broken_device_def v3_def)
  then have 3: "step broken_device v2 v3" by (rule devs)
  have p: "pend v3 = [0]" "vr_q (avail v3) = []"
    using vr_pop_q(1) [OF q(1)] a q by (simp_all add: v3_def)
  then have "broken_device v3 v4" by (simp add: broken_device_def v4_def)
  then have "step broken_device v3 v4" by (rule devs)
  with 2 3 reach_quiet0(3) [of broken_device] have r: "reach broken_device v4"
    unfolding reach_def v1_def [symmetric] by (meson rtranclp.rtrancl_into_rtrancl)
  have "used v4 = vr_push 0 zero_ring" "info_status v4 0 = 1"
    by (simp_all add: v4_def v3_def v2_def dev_error_def dev_chain_def Let_def) (simp_all add: v1_def defs)
  moreover have "vr_q (vr_push 0 (zero_ring :: u32 vring)) = [0]"
    by (simp add: vr_q_def vr_push_def zero_ring_def)
  ultimately have "\<exists>h \<in> set (vr_q (used v4)). info_status v4 (unat h) \<noteq> 0" by simp
  with virtio_no_panic [OF broken_device r, of 0] r show ?thesis by auto
qed



text \<open>With two descriptors free and two processes waiting for three, each failed attempt wakes the other process.\<close>

definition spin0 :: vdisk where
  "spin0 = quiet0\<lparr>vfree := \<lambda>i. i < 2, rw := (rw quiet0)(1 := Want False False, 2 := Want False True)\<rparr>"

lemma alloc3_spins:
  "\<exists>v1 v2. virtio_disk_rw 1 spin0 = Inr v1 \<and> rw v1 1 = Want False True \<and> awake v1 2
     \<and> virtio_disk_rw 2 v1 = Inr v2 \<and> rw v2 2 = Want False True \<and> awake v2 1"
  by (simp add: virtio_disk_rw_def spin0_def alloc3_desc_def alloc_desc_def free_desc_def upt_rec wake_free_def awake_def)

end
