(* ===== verification/Umalloc.thy ===== *)
theory Umalloc
  imports Prelude
begin

text \<open>
  The memory allocator of user programs, \<^verbatim>\<open>user/umalloc.c\<close>. Addresses are counted in headers (16 bytes); \<open>h_ptr\<close>
  and \<open>h_size\<close> are the fields of the header at an address, \<open>m_base\<close> is the address of the static variable
  \<open>base\<close>, \<open>m_brk\<close> the end of the heap. The size is an unsigned 32-bit number: sums are taken modulo
  \<open>2 ^ 32\<close>. The system call \<open>sbrk\<close> is a parameter: for a number of bytes and the end of the heap it
  gives the address of the new memory and the new end, or nothing. The loops take fuel; \<open>None\<close> is a loop that
  has not ended, or a \<open>free\<close> of the null pointer or before the first \<open>malloc\<close>, which goes through headers that
  are not the allocator's.
\<close>

section \<open>user/umalloc.c\<close>

record umem =
  h_ptr :: "nat \<Rightarrow> nat"
  h_size :: "nat \<Rightarrow> nat"
  m_base :: nat
  m_freep :: "nat option"
  m_brk :: nat

type_synonym sbrk = "int \<Rightarrow> nat \<Rightarrow> (nat \<times> nat) option"

definition to_uint :: "nat \<Rightarrow> nat" where "to_uint x = x mod 2 ^ 32"

definition to_int :: "nat \<Rightarrow> int" where
  "to_int x = (let y = int (x mod 2 ^ 32) in if y < 2 ^ 31 then y else y - 2 ^ 32)"

fun free_find :: "nat \<Rightarrow> umem \<Rightarrow> nat \<Rightarrow> nat \<Rightarrow> nat option" where
  "free_find 0 m bp p = None"
| "free_find (Suc n) m bp p =
     (if p < bp \<and> bp < h_ptr m p then Some p
      else if h_ptr m p \<le> p \<and> (p < bp \<or> bp < h_ptr m p) then Some p
      else free_find n m bp (h_ptr m p))"

definition free_link :: "nat \<Rightarrow> nat \<Rightarrow> umem \<Rightarrow> umem" where
  "free_link bp p m =
     (let q = h_ptr m p;
          m = (if bp + h_size m bp = q
               then m\<lparr>h_size := (h_size m)(bp := to_uint (h_size m bp + h_size m q)), h_ptr := (h_ptr m)(bp := h_ptr m q)\<rparr>
               else m\<lparr>h_ptr := (h_ptr m)(bp := q)\<rparr>);
          m = (if p + h_size m p = bp
               then m\<lparr>h_size := (h_size m)(p := to_uint (h_size m p + h_size m bp)), h_ptr := (h_ptr m)(p := h_ptr m bp)\<rparr>
               else m\<lparr>h_ptr := (h_ptr m)(p := bp)\<rparr>) in
      m\<lparr>m_freep := Some p\<rparr>)"

definition free :: "nat \<Rightarrow> nat \<Rightarrow> umem \<Rightarrow> umem option" where
  "free fuel ap m =
     (if ap = 0 then None else
      let bp = ap - 1 in
      case m_freep m of
        None \<Rightarrow> None
      | Some f \<Rightarrow> (case free_find fuel m bp f of None \<Rightarrow> None | Some p \<Rightarrow> Some (free_link bp p m)))"

definition morecore :: "nat \<Rightarrow> sbrk \<Rightarrow> nat \<Rightarrow> umem \<Rightarrow> (nat option \<times> umem) option" where
  "morecore fuel sb nu m =
     (let nu = max nu 4096 in
      case sb (to_int (nu * 16)) (m_brk m) of
        None \<Rightarrow> Some (None, m)
      | Some (hp, e) \<Rightarrow>
          (case free fuel (hp + 1) (m\<lparr>h_size := (h_size m)(hp := nu), m_brk := e\<rparr>) of
             None \<Rightarrow> None
           | Some m \<Rightarrow> Some (m_freep m, m)))"

text \<open>Taking \<open>nunits\<close> headers from the free block at \<open>p\<close>, whose predecessor is \<open>prevp\<close>.\<close>

definition malloc_take :: "nat \<Rightarrow> nat \<Rightarrow> nat \<Rightarrow> umem \<Rightarrow> nat \<times> umem" where
  "malloc_take nunits prevp p m =
     (let (p, m) =
        (if h_size m p = nunits then (p, m\<lparr>h_ptr := (h_ptr m)(prevp := h_ptr m p)\<rparr>)
         else
           let m = m\<lparr>h_size := (h_size m)(p := h_size m p - nunits)\<rparr>;
               p = p + h_size m p in
           (p, m\<lparr>h_size := (h_size m)(p := nunits)\<rparr>)) in
      (p + 1, m\<lparr>m_freep := Some prevp\<rparr>))"

fun malloc_loop :: "nat \<Rightarrow> sbrk \<Rightarrow> nat \<Rightarrow> nat \<Rightarrow> nat \<Rightarrow> umem \<Rightarrow> (nat option \<times> umem) option" where
  "malloc_loop 0 sb nunits prevp p m = None"
| "malloc_loop (Suc n) sb nunits prevp p m =
     (if nunits \<le> h_size m p then (case malloc_take nunits prevp p m of (a, m) \<Rightarrow> Some (Some a, m))
      else if Some p = m_freep m then
        (case morecore n sb nunits m of
           None \<Rightarrow> None
         | Some (None, m) \<Rightarrow> Some (None, m)
         | Some (Some p, m) \<Rightarrow> malloc_loop n sb nunits p (h_ptr m p) m)
      else malloc_loop n sb nunits p (h_ptr m p) m)"

definition units :: "nat \<Rightarrow> nat" where
  "units nbytes = to_uint ((nbytes + 16 - 1) div 16 + 1)"

definition malloc :: "nat \<Rightarrow> sbrk \<Rightarrow> nat \<Rightarrow> umem \<Rightarrow> (nat option \<times> umem) option" where
  "malloc fuel sb nbytes m =
     (case m_freep m of
        None \<Rightarrow>
          let b = m_base m;
              m = m\<lparr>h_ptr := (h_ptr m)(b := b), h_size := (h_size m)(b := 0), m_freep := Some b\<rparr> in
          malloc_loop fuel sb (units nbytes) b (h_ptr m b) m
      | Some prevp \<Rightarrow> malloc_loop fuel sb (units nbytes) prevp (h_ptr m prevp) m)"

section \<open>The free list\<close>

text \<open>Consecutive blocks are linked, the last one to \<open>z\<close>; consecutive blocks do not touch, the last one
  ends before \<open>e\<close>.\<close>

fun lk :: "(nat \<Rightarrow> nat) \<Rightarrow> nat list \<Rightarrow> nat \<Rightarrow> bool" where
  "lk f [] z = True"
| "lk f (x # xs) z = (f x = hd (xs @ [z]) \<and> lk f xs z)"

fun gaps :: "(nat \<Rightarrow> nat) \<Rightarrow> nat list \<Rightarrow> nat \<Rightarrow> bool" where
  "gaps s [] e = True"
| "gaps s (x # xs) e = (x + s x < hd (xs @ [e]) \<and> gaps s xs e)"

lemma lk_append [simp]: "lk f (xs @ ys) z \<longleftrightarrow> lk f xs (hd (ys @ [z])) \<and> lk f ys z"
  by (induction xs) (auto simp: hd_append)

lemma gaps_append [simp]: "gaps s (xs @ ys) e \<longleftrightarrow> gaps s xs (hd (ys @ [e])) \<and> gaps s ys e"
  by (induction xs) (auto simp: hd_append)

lemma lk_cong: "(\<And>x. x \<in> set xs \<Longrightarrow> f x = g x) \<Longrightarrow> lk f xs z = lk g xs z"
  by (induction xs) auto

lemma gaps_cong: "(\<And>x. x \<in> set xs \<Longrightarrow> f x = g x) \<Longrightarrow> gaps f xs z = gaps g xs z"
  by (induction xs) auto

lemma gaps_le: "\<forall>x\<in>set xs. t x \<le> s x \<Longrightarrow> gaps s xs e \<Longrightarrow> gaps t xs e"
  by (induction xs) (auto dest: order.strict_trans1 [OF add_left_mono])

lemma lk_upd [simp]: "x \<notin> set xs \<Longrightarrow> lk (f(x := v)) xs z = lk f xs z"
  by (rule lk_cong) auto

lemma gaps_upd [simp]: "x \<notin> set xs \<Longrightarrow> gaps (s(x := v)) xs z = gaps s xs z"
  by (rule gaps_cong) auto

lemma lk_next: "lk f xs z \<Longrightarrow> x \<in> set xs \<Longrightarrow> f x \<in> insert z (set xs)"
proof (induction xs)
  case (Cons y ys)
  then show ?case by (cases ys) auto
qed simp

lemma gaps_all: "gaps s xs e \<Longrightarrow> \<forall>x\<in>set xs. x + s x < e"
proof (induction xs)
  case (Cons y ys)
  then show ?case by (cases ys) auto
qed auto

lemma gaps_less: "gaps s xs e \<Longrightarrow> x \<in> set xs \<Longrightarrow> x + s x < e"
  using gaps_all by blast

lemma gaps_mono: "gaps s xs e \<Longrightarrow> e \<le> e' \<Longrightarrow> gaps s xs e'"
proof (induction xs)
  case (Cons y ys)
  then show ?case by (cases ys) auto
qed auto

lemma gaps_sorted: "gaps s (xs @ y # ys) e \<Longrightarrow> x \<in> set xs \<Longrightarrow> x + s x < y"
  using gaps_less [of s xs y] by auto

lemma gaps_distinct: "gaps s xs e \<Longrightarrow> distinct xs"
proof (induction xs arbitrary: e rule: rev_induct)
  case (snoc x xs)
  then show ?case using gaps_less [of s xs x] by fastforce
qed auto

lemma gaps_apart:
  assumes g: "gaps s xs e" and p: "p \<in> set xs" and q: "q \<in> set xs" and "p \<noteq> q"
  shows "p + s p < q \<or> q + s q < p"
proof -
  obtain us vs where uv: "xs = us @ p # vs" using p by (meson split_list)
  from q uv \<open>p \<noteq> q\<close> consider "q \<in> set us" | "q \<in> set vs" by auto
  then show ?thesis
  proof cases
    case 1
    then show ?thesis using gaps_sorted [of s us p vs e q] g uv by blast
  next
    case 2
    then obtain ws zs where "vs = ws @ q # zs" by (meson split_list)
    then show ?thesis using gaps_sorted [of s "us @ p # ws" q zs e p] g uv by simp
  qed
qed

lemma free_find_mono: "free_find n m bp p = Some r \<Longrightarrow> n \<le> n' \<Longrightarrow> free_find n' m bp p = Some r"
proof (induction n arbitrary: p n')
  case (Suc n)
  then show ?case by (cases n') (auto split: if_splits)
qed simp

text \<open>The search for the place of a block walks up to its predecessor.\<close>

lemma free_find_up:
  assumes "lk (h_ptr m) (us @ [p]) q" and "gaps (h_size m) (us @ [p]) e" and "p < bp" and "bp < q \<or> q \<le> p"
  shows "free_find (Suc (length us)) m bp (hd (us @ [p])) = Some p"
  using assms
proof (induction us)
  case Nil
  then show ?case by auto
next
  case (Cons u us)
  have n: "h_ptr m u = hd (us @ [p])" using Cons.prems(1) by (simp add: hd_append)
  have "u + h_size m u < hd (us @ [p])" using Cons.prems(2) by (cases us) simp_all
  moreover have "hd (us @ [p]) \<le> p"
  proof (cases us)
    case us: (Cons v vs)
    have "gaps (h_size m) us p" using Cons.prems(2) by simp
    then show ?thesis using gaps_less [of "h_size m" us p v] us by fastforce
  qed simp
  ultimately have "\<not> (u < bp \<and> bp < h_ptr m u)" "\<not> h_ptr m u \<le> u" using n Cons.prems(3) by auto
  then have "free_find (Suc (Suc (length us))) m bp u = free_find (Suc (length us)) m bp (h_ptr m u)"
    by (metis free_find.simps(2))
  moreover have "free_find (Suc (length us)) m bp (hd (us @ [p])) = Some p"
    by (rule Cons.IH) (use Cons.prems in simp_all)
  ultimately show ?case by (simp only: n append_Cons list.sel(1) list.size add_Suc_right add_0_right)
qed


text \<open>From a higher block the search first walks to the end of the list and on to \<open>base\<close>.\<close>

lemma free_find_down:
  assumes "lk (h_ptr m) vs b" and "gaps (h_size m) vs e" and "\<forall>v\<in>set vs. bp < v" and "b < bp"
  shows "free_find (length vs + n) m bp (hd (vs @ [b])) = free_find n m bp b"
  using assms
proof (induction vs)
  case (Cons v vs)
  have "\<not> (h_ptr m v \<le> v \<and> (v < bp \<or> bp < h_ptr m v))"
    using Cons.prems by (cases vs) auto
  moreover have "\<not> v < bp" using Cons.prems(3) by auto
  ultimately show ?case using Cons by auto
qed simp

section \<open>The invariant of the heap\<close>

text \<open>The headers a block covers, and those the blocks of a list cover.\<close>

definition hblk :: "(nat \<Rightarrow> nat) \<Rightarrow> nat \<Rightarrow> nat set" where "hblk s p = {p..<p + s p}"

definition cells :: "(nat \<Rightarrow> nat) \<Rightarrow> nat set \<Rightarrow> nat set" where "cells s P = (\<Union>p\<in>P. hblk s p)"

text \<open>\<open>fl\<close> is the free list after \<open>base\<close>, \<open>A\<close> the allocated blocks, \<open>G\<close> the memory the heap has been
  given.\<close>

definition uminv :: "umem \<Rightarrow> nat list \<Rightarrow> nat set \<Rightarrow> nat set \<Rightarrow> bool" where
  "uminv m fl A G \<longleftrightarrow>
     lk (h_ptr m) (m_base m # fl) (m_base m) \<and> gaps (h_size m) (m_base m # fl) (Suc (m_brk m)) \<and>
     h_size m (m_base m) = 0 \<and> (\<forall>p\<in>set fl \<union> A. 0 < h_size m p) \<and>
     (\<exists>f\<in>set (m_base m # fl). m_freep m = Some f) \<and> m_base m < m_brk m \<and> m_brk m < 2 ^ 32 \<and>
     (\<forall>a\<in>A. \<forall>b\<in>A. a \<noteq> b \<longrightarrow> hblk (h_size m) a \<inter> hblk (h_size m) b = {}) \<and>
     cells (h_size m) A \<inter> cells (h_size m) (set fl) = {} \<and>
     cells (h_size m) A \<union> cells (h_size m) (set fl) = G \<and> (\<forall>x\<in>G. m_base m < x \<and> x < m_brk m)"

lemma uminvD:
  assumes "uminv m fl A G"
  shows "lk (h_ptr m) (m_base m # fl) (m_base m)" and "gaps (h_size m) (m_base m # fl) (Suc (m_brk m))"
    and "h_size m (m_base m) = 0" and "\<forall>p\<in>set fl \<union> A. 0 < h_size m p"
    and "\<exists>f\<in>set (m_base m # fl). m_freep m = Some f" and "m_base m < m_brk m" and "m_brk m < 2 ^ 32"
    and "\<forall>a\<in>A. \<forall>b\<in>A. a \<noteq> b \<longrightarrow> hblk (h_size m) a \<inter> hblk (h_size m) b = {}"
    and "cells (h_size m) A \<inter> cells (h_size m) (set fl) = {}"
    and "cells (h_size m) A \<union> cells (h_size m) (set fl) = G" and "\<forall>x\<in>G. m_base m < x \<and> x < m_brk m"
  using assms unfolding uminv_def by - (elim conjE; assumption)+

lemma cells_simps [simp]:
  "cells s {} = {}" "cells s (insert p P) = hblk s p \<union> cells s P" "cells s (P \<union> Q) = cells s P \<union> cells s Q"
  by (auto simp: cells_def)

lemma cells_cong: "(\<And>p. p \<in> P \<Longrightarrow> s p = t p) \<Longrightarrow> cells s P = cells t P"
  by (auto simp: cells_def hblk_def)

lemma cells_upd [simp]: "x \<notin> P \<Longrightarrow> cells (s(x := v)) P = cells s P"
  by (rule cells_cong) auto

lemma blk_self [simp]: "p \<in> hblk s p \<longleftrightarrow> 0 < s p"
  by (auto simp: hblk_def)

lemma cellsI: "p \<in> P \<Longrightarrow> x \<in> hblk s p \<Longrightarrow> x \<in> cells s P"
  by (auto simp: cells_def)

lemma gaps_hd_le:
  assumes "gaps s ys e" and "y \<in> set ys"
  shows "hd ys \<le> y"
proof (cases ys)
  case (Cons z zs)
  then show ?thesis using assms gaps_sorted [of s "[z]" y] by (metis (no_types, lifting) add_leD1 gaps.simps(2) gaps_less
    gaps_append less_imp_le list.sel(1) set_ConsD split_list append_Cons hd_append list.set_intros(1) order_refl)
qed (use assms in simp)

lemma cells_disjointD: "cells s P \<inter> cells s Q = {} \<Longrightarrow> \<forall>p\<in>P. 0 < s p \<Longrightarrow> P \<inter> Q = {}"
  using blk_self [of _ s] unfolding cells_def by blast

lemma blk_insert:
  assumes "\<forall>a\<in>A. \<forall>b\<in>A. a \<noteq> b \<longrightarrow> hblk s a \<inter> hblk s b = {}" and "\<forall>x\<in>A. hblk s n \<inter> hblk s x = {}"
  shows "\<forall>a\<in>insert n A. \<forall>b\<in>insert n A. a \<noteq> b \<longrightarrow> hblk s a \<inter> hblk s b = {}"
  using assms by blast

lemma blk_subset: "p \<in> P \<Longrightarrow> hblk s p \<subseteq> cells s P"
  by (auto simp: cells_def)

text \<open>The place of a block between the free blocks.\<close>

lemma blk_place:
  assumes g: "gaps s (b # fl) e" and b: "b < bp" and n: "0 < s bp" and pos: "\<forall>p\<in>set fl. 0 < s p" and b0: "s b = 0"
    and d: "hblk s bp \<inter> cells s (set fl) = {}"
  obtains xs p ys where "b # fl = xs @ p # ys" and "p + s p \<le> bp" and "\<forall>y\<in>set ys. bp + s bp \<le> y" and "p < bp"
proof -
  let ?t = "takeWhile (\<lambda>x. x < bp) (b # fl)" and ?d = "dropWhile (\<lambda>x. x < bp) (b # fl)"
  have "?t \<noteq> []" using b by simp
  then obtain xs p where t: "?t = xs @ [p]" by (metis rev_exhaust)
  have e: "b # fl = xs @ p # ?d" using takeWhile_dropWhile_id [of "\<lambda>x. x < bp" "b # fl"] t by (metis append.assoc append_Cons append_Nil)
  have p: "p < bp" using t by (metis in_set_conv_decomp set_takeWhileD)
  have ps: "p + s p \<le> bp"
  proof (rule ccontr)
    assume "\<not> ?thesis"
    then have "bp \<in> hblk s p" and "p \<noteq> b" using p b0 b by (auto simp: hblk_def)
    moreover have "p \<in> set (b # fl)" by (subst e) simp
    ultimately have "bp \<in> cells s (set fl)" by (auto intro: cellsI)
    then show False using d n by (metis disjoint_iff blk_self)
  qed
  have ys: "bp + s bp \<le> y" if y: "y \<in> set ?d" for y
  proof (rule ccontr)
    assume a: "\<not> ?thesis"
    have "gaps s ?d e" using g by (subst (asm) e) simp
    then have "hd ?d \<le> y" using y by (rule gaps_hd_le)
    moreover have "\<not> hd ?d < bp" using y by (metis hd_dropWhile empty_iff empty_set)
    ultimately have yb: "bp \<le> y" by simp
    moreover have "y \<in> set fl" using y b by (auto dest: set_dropWhileD)
    ultimately have "y \<in> cells s (set fl)" using pos by (auto intro: cellsI)
    moreover have "y \<in> hblk s bp" using a yb by (simp add: hblk_def)
    ultimately show False using d by auto
  qed
  show thesis by (rule that [OF e ps _ p]) (use ys in blast)
qed

text \<open>The first half of \<open>free\<close>: the block takes in the free block right after it.\<close>

lemma merge_up:
  assumes l: "lk f ys b" and g: "gaps s ys e" and bp: "b < bp" "\<forall>y\<in>set ys. bp + s bp \<le> y" "0 < s bp"
    and e: "bp + s bp < e" "e \<le> 2 ^ 32"
  obtains ys' where "set ys' \<subseteq> set ys" and "length ys' \<le> length ys"
    and "(if bp + s bp = hd (ys @ [b]) then f(bp := f (hd (ys @ [b]))) else f(bp := hd (ys @ [b]))) = f(bp := hd (ys' @ [b]))"
    and "lk f ys' b"
    and "gaps (if bp + s bp = hd (ys @ [b]) then s(bp := to_uint (s bp + s (hd (ys @ [b])))) else s) (bp # ys') e"
    and "cells (if bp + s bp = hd (ys @ [b]) then s(bp := to_uint (s bp + s (hd (ys @ [b])))) else s) (insert bp (set ys'))
         = hblk s bp \<union> cells s (set ys)"
    and "s bp \<le> (if bp + s bp = hd (ys @ [b]) then s(bp := to_uint (s bp + s (hd (ys @ [b])))) else s) bp"
proof (cases "bp + s bp = hd (ys @ [b])")
  case True
  then obtain q ys' where ys: "ys = q # ys'" using bp(1) by (cases ys) auto
  have nin: "bp \<notin> set ys'" using bp(2,3) by (auto simp: ys)
  have qe: "q + s q < e" using gaps_less [OF g] by (simp add: ys)
  have u: "to_uint (s bp + s q) = s bp + s q" using qe e True by (simp add: to_uint_def ys)
  have c: "cells (s(bp := n)) (set ys') = cells s (set ys')" for n using nin by (intro cells_cong) auto
  have gc: "gaps (s(bp := n)) ys' e = gaps s ys' e" for n using nin by (intro gaps_cong) auto
  have bb: "hblk (s(bp := s bp + s q)) bp = hblk s bp \<union> hblk s q" using True by (auto simp: hblk_def ys)
  show ?thesis
    by (rule that [of ys']) (use l g True in \<open>auto simp: ys u c gc bb\<close>)
next
  case False
  have "bp + s bp < hd (ys @ [e])" using False bp(2) e by (cases ys) auto
  then show ?thesis by (intro that [of ys]) (use l g False in auto)
qed


text \<open>The second half: the free block right before takes in the block.\<close>

lemma merge_down:
  assumes l: "lk f xs p" "lk f ys b" and g: "gaps s (xs @ [p]) e" "gaps s (bp # ys) e" and ne: "hd (xs @ [p]) = b"
    and p: "p < bp" "p + s p \<le> bp" and e: "e \<le> 2 ^ 32" and pos: "\<forall>x\<in>set xs. x < p"
    and nx: "f bp = hd (ys @ [b])"
  obtains zs where "set zs \<subseteq> set xs \<union> {p, bp} \<union> set ys" and "p \<in> set zs" and "length zs \<le> length xs + 2 + length ys" and "hd zs = b"
    and "lk (if p + s p = bp then f(p := f bp) else f(p := bp)) zs b"
    and "gaps (if p + s p = bp then s(p := to_uint (s p + s bp)) else s) zs e"
    and "cells (if p + s p = bp then s(p := to_uint (s p + s bp)) else s) (set zs) = cells s (set xs \<union> {p, bp} \<union> set ys)"
    and "s p \<le> (if p + s p = bp then s(p := to_uint (s p + s bp)) else s) p"
proof -
  have ysb: "\<forall>y\<in>set ys. bp < y"
  proof
    fix y assume y: "y \<in> set ys"
    then obtain u v where "ys = u @ y # v" by (meson split_list)
    then show "bp < y" using gaps_sorted [of s "bp # u" y v e bp] g(2) by simp
  qed
  have nin: "p \<notin> set xs" "p \<notin> set ys" "p \<noteq> bp" using pos ysb p(1) by auto
  have fc: "lk (f(p := n)) xs z = lk f xs z" "lk (f(p := n)) ys z = lk f ys z" for n z using nin by (intro lk_cong; auto)+
  have lz: "hd (xs @ p # us) = b" for us using ne by (cases xs) auto
  have gxs: "gaps s xs p" using g(1) by simp
  show ?thesis
  proof (cases "p + s p = bp")
    case True
    have be: "bp + s bp < e" using gaps_less [OF g(2)] by simp
    have u: "to_uint (s p + s bp) = s p + s bp" using be e True by (simp add: to_uint_def)
    have c: "cells (s(p := n)) (set xs) = cells s (set xs)" "cells (s(p := n)) (set ys) = cells s (set ys)" for n
      using nin by (intro cells_cong; auto)+
    have gc: "gaps (s(p := n)) xs z = gaps s xs z" "gaps (s(p := n)) ys z = gaps s ys z" for n z
      using nin by (intro gaps_cong; auto)+
    have bb: "hblk (s(p := s p + s bp)) p = hblk s p \<union> hblk s bp" using True by (auto simp: hblk_def)
    show ?thesis
      by (rule that [of "xs @ p # ys"])
        (use l g gxs True in \<open>auto simp: u c gc bb fc lz nx add.assoc [symmetric]\<close>)
  next
    case False
    have fb: "(f(p := bp)) bp = f bp" using p(1) by simp
    show ?thesis
      by (rule that [of "xs @ p # bp # ys"])
        (use l g gxs False p in \<open>auto simp: fc lz nx fb\<close>)
  qed
qed

text \<open>\<open>free\<close> with enough fuel returns, and the block joins the free memory.\<close>

lemma free_find_pred:
  assumes l: "lk (h_ptr m) (b # fl) b" and g: "gaps (h_size m) (b # fl) e" and s: "b # fl = xs @ p # ys"
    and p: "p < bp" and ys: "\<forall>y\<in>set ys. bp < y" and f: "f \<in> set (b # fl)"
  shows "free_find (length fl + 2) m bp f = Some p"
proof -
  have lx: "lk (h_ptr m) (xs @ [p]) (hd (ys @ [b]))" "lk (h_ptr m) ys b" using l unfolding s by simp_all
  have gx: "gaps (h_size m) (xs @ [p]) (hd (ys @ [e]))" "gaps (h_size m) ys e" using g unfolding s by simp_all
  have hb: "hd (xs @ [p]) = b" using s by (cases xs) auto
  have bp: "b \<le> p" using hb gaps_hd_le [OF gx(1), of p] by simp
  have q: "bp < hd (ys @ [b]) \<or> hd (ys @ [b]) \<le> p" using ys bp by (cases ys) auto
  have len: "length fl = length xs + length ys" using arg_cong [OF s, of length] by simp
  from f consider "f \<in> set (xs @ [p])" | "f \<in> set ys" unfolding s by auto
  then show ?thesis
  proof cases
    case 1
    then obtain us vs where uv: "xs @ [p] = us @ f # vs" by (meson split_list)
    then obtain ws where ws: "f # vs = ws @ [p]" and xw: "xs = us @ ws"
      by (metis append.assoc append_butlast_last_id butlast_append last_appendR last_snoc list.discI butlast_snoc)
    have "free_find (Suc (length ws)) m bp (hd (ws @ [p])) = Some p"
      by (rule free_find_up [where q = "hd (ys @ [b])" and e = "hd (ys @ [e])"]) (use lx gx p q in \<open>auto simp: xw\<close>)
    then have "free_find (Suc (length ws)) m bp f = Some p" by (simp only: ws [symmetric] list.sel)
    then show ?thesis by (rule free_find_mono) (simp add: len xw)
  next
    case 2
    then obtain us vs where uv: "ys = us @ f # vs" by (meson split_list)
    have "free_find (length (f # vs) + Suc (length xs)) m bp (hd ((f # vs) @ [b])) = free_find (Suc (length xs)) m bp b"
      by (rule free_find_down [where e = e]) (use lx gx ys p bp in \<open>auto simp: uv\<close>)
    also have "\<dots> = Some p"
      using free_find_up [OF lx(1) gx(1) p q] by (simp add: hb)
    finally have "free_find (length (f # vs) + Suc (length xs)) m bp f = Some p" by simp
    then show ?thesis by (rule free_find_mono) (simp add: len uv)
  qed
qed


lemma free_fields [simp]:
  "m_base (free_link bp p m) = m_base m" "m_brk (free_link bp p m) = m_brk m" "m_freep (free_link bp p m) = Some p"
  by (simp_all add: free_link_def Let_def)

lemma free_link_sizes:
  fixes m :: umem
  assumes "p \<noteq> bp"
  defines "c \<equiv> bp + h_size m bp = h_ptr m p"
  defines "s \<equiv> if c then (h_size m)(bp := to_uint (h_size m bp + h_size m (h_ptr m p))) else h_size m"
    and "f \<equiv> if c then (h_ptr m)(bp := h_ptr m (h_ptr m p)) else (h_ptr m)(bp := h_ptr m p)"
  shows "h_size (free_link bp p m) = (if p + s p = bp then s(p := to_uint (s p + s bp)) else s)"
    and "h_ptr (free_link bp p m) = (if p + s p = bp then f(p := f bp) else f(p := bp))"
  using assms by (auto simp: free_link_def Let_def)

lemma free_link_ok:
  fixes m :: umem
  assumes l: "lk (h_ptr m) (b # fl) b" and g: "gaps (h_size m) (b # fl) e" and s: "b # fl = xs @ p # ys"
    and p: "p + h_size m p \<le> bp" "p < bp" and ys: "\<forall>y\<in>set ys. bp + h_size m bp \<le> y" and bb: "b < bp"
    and pos: "0 < h_size m bp" and e: "bp + h_size m bp < e" "e \<le> 2 ^ 32" and b0: "h_size m b = 0"
  defines "m' \<equiv> free_link bp p m"
  obtains zs where "set zs \<subseteq> set (b # fl) \<union> {bp}" and "p \<in> set zs" and "length zs \<le> length fl + 2" and "hd zs = b"
    and "lk (h_ptr m') zs b" and "gaps (h_size m') zs e"
    and "cells (h_size m') (set zs) = cells (h_size m) (set (b # fl)) \<union> hblk (h_size m) bp"
    and "\<forall>x. h_size m x \<le> h_size m' x" and "\<forall>x. x \<notin> set fl \<union> {bp} \<longrightarrow> h_size m' x = h_size m x"
proof -
  let ?s = "h_size m" and ?f = "h_ptr m"
  have lx: "lk ?f xs p" "?f p = hd (ys @ [b])" "lk ?f ys b" using l unfolding s by simp_all
  have gx: "gaps ?s xs p" "p + ?s p < hd (ys @ [e])" "gaps ?s ys e" using g unfolding s by simp_all
  have xp: "\<forall>x\<in>set xs. x < p" using gaps_less [OF gx(1)] by fastforce
  define s1 where "s1 = (if bp + ?s bp = hd (ys @ [b]) then ?s(bp := to_uint (?s bp + ?s (hd (ys @ [b])))) else ?s)"
  define f1 where "f1 = (if bp + ?s bp = hd (ys @ [b]) then ?f(bp := ?f (hd (ys @ [b]))) else ?f(bp := hd (ys @ [b])))"
  obtain ys' where y: "set ys' \<subseteq> set ys" "length ys' \<le> length ys" "f1 = ?f(bp := hd (ys' @ [b]))" "lk ?f ys' b"
    "gaps s1 (bp # ys') e" "cells s1 (insert bp (set ys')) = hblk ?s bp \<union> cells ?s (set ys)" "?s bp \<le> s1 bp"
    unfolding s1_def f1_def by (rule merge_up [OF lx(3) gx(3) bb ys pos e])
  have nin: "bp \<notin> set xs" "bp \<notin> set ys" "p \<noteq> bp" using xp p ys pos by fastforce+
  have s1: "s1 x = ?s x" if "x \<noteq> bp" for x using that by (simp add: s1_def)
  have sx: "\<forall>x\<in>set xs. s1 x = ?s x" using nin s1 by metis
  have nin': "bp \<notin> set ys'" using y(1) nin by blast
  have l1: "lk f1 xs p" "lk f1 ys' b" using lx(1) y(3,4) nin nin' by simp_all
  have g1: "gaps s1 (xs @ [p]) e" using gx(1,2) e p s1 [of p] nin gaps_cong [of xs s1 ?s] sx by simp
  have hb: "hd (xs @ [p]) = b" using s by (cases xs) auto
  have fs: "h_size m' = (if p + s1 p = bp then s1(p := to_uint (s1 p + s1 bp)) else s1)"
    "h_ptr m' = (if p + s1 p = bp then f1(p := f1 bp) else f1(p := bp))"
    using free_link_sizes [OF nin(3), of m] by (simp_all add: m'_def s1_def f1_def lx(2))
  obtain zs where z: "set zs \<subseteq> set xs \<union> {p, bp} \<union> set ys'" "p \<in> set zs" "length zs \<le> length xs + 2 + length ys'"
    "hd zs = b" "lk (h_ptr m') zs b" "gaps (h_size m') zs e" "cells (h_size m') (set zs) = cells s1 (set xs \<union> {p, bp} \<union> set ys')"
    "s1 p \<le> h_size m' p"
    unfolding fs by (rule merge_down [OF l1 g1 y(5) hb p(2) _ e(2) xp]) (use p s1 [of p] nin y(3) in auto)
  have c: "cells s1 (set xs) = cells ?s (set xs)" "hblk s1 p = hblk ?s p"
    using cells_cong [of "set xs" s1 ?s] sx s1 [of p] nin by (auto simp: hblk_def)
  have len: "length fl = length xs + length ys" using arg_cong [OF s, of length] by simp
  have fl: "set (b # fl) = set xs \<union> {p} \<union> set ys" unfolding s by auto
  have mono: "?s x \<le> h_size m' x" for x
    using z(8) y(7) s1 [of x] s1 [of p] nin by (cases "x = p"; cases "x = bp") (auto simp: fs(1))
  have out: "h_size m' x = ?s x" if "x \<notin> set fl \<union> {bp}" for x
  proof (cases "x = p")
    case True
    then have "p = b" using fl that by auto
    then show ?thesis using True bb b0 s1 [of p] nin by (simp add: fs(1))
  next
    case False
    then show ?thesis using that s1 [of x] by (simp add: fs(1))
  qed
  show thesis
  proof (rule that [of zs])
    show "cells (h_size m') (set zs) = cells ?s (set (b # fl)) \<union> hblk ?s bp"
      unfolding z(7) fl using y(6) c by auto
    show "length zs \<le> length fl + 2" using z(3) y(2) len by simp
    show "set zs \<subseteq> set (b # fl) \<union> {bp}" using z(1) y(1) fl by auto
  qed (use z mono out in auto)
qed

lemma free_keeps:
  assumes i: "uminv m fl A G" and a: "bp \<in> A" and n: "length fl + 2 \<le> fuel"
  obtains m' fl' where "free fuel (bp + 1) m = Some m'" and "uminv m' fl' (A - {bp}) G" and "length fl' \<le> length fl + 1"
    and "m_base m' = m_base m" and "m_brk m' = m_brk m" and "\<forall>c\<in>A - {bp}. h_size m' c = h_size m c"
    and "cells (h_size m') (set fl') = cells (h_size m) (set fl) \<union> hblk (h_size m) bp"
proof -
  let ?s = "h_size m" and ?f = "h_ptr m" and ?b = "m_base m" and ?e = "Suc (m_brk m)"
  note l = uminvD(1) [OF i] and g = uminvD(2) [OF i] and b0 = uminvD(3) [OF i] and pos = uminvD(4) [OF i]
    and brk = uminvD(7,6) [OF i] and da = uminvD(8) [OF i] and dj = uminvD(9) [OF i] and G = uminvD(11,10) [OF i]
  obtain f where f: "f \<in> set (?b # fl)" "m_freep m = Some f" using uminvD(5) [OF i] by blast
  have bG: "x \<in> G" if "x \<in> hblk ?s bp" for x using a G(2) that cellsI by blast
  have bpos: "0 < ?s bp" using pos a by auto
  have bb: "?b < bp" using bG [of bp] bpos G(1) by simp
  have be: "bp + ?s bp < ?e" using bG [of "bp + ?s bp - 1"] bpos G(1) by (fastforce simp: hblk_def)
  obtain xs p ys where s: "?b # fl = xs @ p # ys" and p: "p + ?s p \<le> bp" "p < bp" and ys: "\<forall>y\<in>set ys. bp + ?s bp \<le> y"
    by (rule blk_place [OF g bb bpos _ b0]) (use pos dj blk_subset [OF a, of ?s] in auto)
  have ff: "free_find fuel m bp f = Some p"
    by (rule free_find_mono [OF free_find_pred [OF l g s p(2) _ f(1)] n]) (use ys bpos in fastforce)
  obtain zs where z: "set zs \<subseteq> set (?b # fl) \<union> {bp}" "p \<in> set zs" "length zs \<le> length fl + 2" "hd zs = ?b"
    "lk (h_ptr (free_link bp p m)) zs ?b" "gaps (h_size (free_link bp p m)) zs ?e"
    "cells (h_size (free_link bp p m)) (set zs) = cells ?s (set (?b # fl)) \<union> hblk ?s bp"
    "\<forall>x. ?s x \<le> h_size (free_link bp p m) x" "\<forall>x. x \<notin> set fl \<union> {bp} \<longrightarrow> h_size (free_link bp p m) x = ?s x"
    by (rule free_link_ok [OF l g s p ys bb bpos be _ b0]) (use brk in auto)
  define m' where "m' = free_link bp p m"
  obtain fl' where fl': "zs = ?b # fl'" using z(2,4) by (cases zs) auto
  have bfl: "?b \<notin> set fl" using gaps_distinct [OF g] by simp
  have Afl: "A \<inter> set fl = {}" by (rule cells_disjointD [OF dj]) (use pos in simp)
  have b0': "h_size m' ?b = 0" using z(9) bfl bb b0 by (simp add: m'_def)
  have bfl': "?b \<notin> set fl'" using gaps_distinct [OF z(6)] by (simp add: fl')
  have sA: "\<forall>c\<in>A - {bp}. h_size m' c = ?s c" using z(9) Afl by (auto simp: m'_def)
  have cfl: "cells (h_size m') (set fl') = cells ?s (set fl) \<union> hblk ?s bp"
    using z(7) b0 b0' by (simp add: fl' hblk_def m'_def)
  have cA: "cells (h_size m') (A - {bp}) = cells ?s (A - {bp})" using sA by (intro cells_cong) auto
  have cAb: "cells ?s A = hblk ?s bp \<union> cells ?s (A - {bp})" using a by (metis cells_simps(2) insert_Diff)
  have dbp: "hblk ?s bp \<inter> cells ?s (A - {bp}) = {}" using da a by (fastforce simp: cells_def)
  have bA: "hblk (h_size m') c = hblk ?s c" if "c \<in> A - {bp}" for c using sA that by (auto simp: hblk_def)
  have pos': "\<forall>p\<in>set fl' \<union> (A - {bp}). 0 < h_size m' p"
  proof
    fix x assume "x \<in> set fl' \<union> (A - {bp})"
    then have "x \<in> set fl \<union> A" using z(1) bfl' a by (auto simp: fl')
    then have "0 < ?s x" using pos by blast
    then show "0 < h_size m' x" using z(8) [rule_format, of x] by (simp add: m'_def)
  qed
  have fields: "m_base m' = ?b" "m_brk m' = m_brk m" "m_freep m' = Some p" by (simp_all add: m'_def)
  have "uminv m' fl' (A - {bp}) G"
    unfolding uminv_def fields
  proof (intro conjI)
    show "lk (h_ptr m') (?b # fl') ?b" "gaps (h_size m') (?b # fl') ?e" using z(5,6) by (simp_all only: fl' m'_def)
    show "\<exists>f\<in>set (?b # fl'). Some p = Some f" using z(2) unfolding fl' by blast
    show "\<forall>a\<in>A - {bp}. \<forall>b\<in>A - {bp}. a \<noteq> b \<longrightarrow> hblk (h_size m') a \<inter> hblk (h_size m') b = {}" using da bA by simp
    show "cells (h_size m') (A - {bp}) \<inter> cells (h_size m') (set fl') = {}" unfolding cA cfl using dj dbp cAb by blast
    show "cells (h_size m') (A - {bp}) \<union> cells (h_size m') (set fl') = G" unfolding cA cfl using G(2) cAb by blast
  qed (use b0' pos' brk G(1) in blast)+
  moreover have "free fuel (bp + 1) m = Some m'" using f(2) ff by (simp add: free_def m'_def)
  moreover have "length fl' \<le> length fl + 1" using z(3) by (simp add: fl')
  ultimately show thesis using fields sA cfl by (intro that [of m' fl'])
qed


section \<open>\<open>malloc\<close>\<close>

text \<open>What \<open>sbrk\<close> promises for a positive number of bytes (an \<open>int\<close>), if it grants them: the new memory lies above the
  old end of the heap and has the size asked for, and the heap stays below 2^36 bytes.\<close>

definition sbrk_ok :: "sbrk \<Rightarrow> bool" where
  "sbrk_ok sb \<longleftrightarrow> (\<forall>n b p e. 0 < n \<and> n < 2 ^ 31 \<longrightarrow> b < 2 ^ 32 \<longrightarrow> sb n b = Some (p, e) \<longrightarrow>
     b \<le> p \<and> p + nat n div 16 \<le> e \<and> e < 2 ^ 32)"

text \<open>The memory of the heap after a call: as before, or with what \<open>sbrk\<close> gave for one request of \<open>morecore\<close>.\<close>

definition grown :: "sbrk \<Rightarrow> nat \<Rightarrow> umem \<Rightarrow> nat set \<Rightarrow> umem \<Rightarrow> nat set \<Rightarrow> bool" where
  "grown sb nu m G m' G' \<longleftrightarrow>
     m_brk m' = m_brk m \<and> G' = G \<or>
     (\<exists>hp. sb (int (max nu 4096 * 16)) (m_brk m) = Some (hp, m_brk m') \<and> G' = G \<union> {hp..<hp + max nu 4096})"

lemma to_int_small: "x < 2 ^ 31 \<Longrightarrow> to_int x = int x"
  by (simp add: to_int_def)

text \<open>Free blocks do not touch: memory that is free as a whole is in one block.\<close>

lemma cells_in_one:
  assumes g: "gaps s xs e" and sub: "{h..<h + k} \<subseteq> cells s (set xs)" and k: "0 < k"
  obtains p where "p \<in> set xs" and "k \<le> s p"
proof -
  have "h \<in> cells s (set xs)" using sub k by auto
  then obtain p where p: "p \<in> set xs" "h \<in> hblk s p" by (auto simp: cells_def)
  have "h + k \<le> p + s p"
  proof (rule ccontr)
    assume "\<not> ?thesis"
    then have "p + s p \<in> cells s (set xs)" using sub p(2) by (auto simp: hblk_def)
    then obtain q where "q \<in> set xs" "p + s p \<in> hblk s q" by (auto simp: cells_def)
    then show False using gaps_apart [OF g p(1), of q] by (cases "p = q") (auto simp: hblk_def)
  qed
  then show thesis using p that [of p] by (auto simp: hblk_def)
qed

text \<open>New memory joins the heap as an allocated block.\<close>

lemma uminv_extend:
  assumes i: "uminv m fl A G" and h: "m_brk m \<le> hp" "hp + n \<le> e" "e < 2 ^ 32" "0 < n"
  shows "uminv (m\<lparr>h_size := (h_size m)(hp := n), m_brk := e\<rparr>) fl (insert hp A) (G \<union> {hp..<hp + n})"
proof -
  let ?s = "h_size m" and ?s' = "(h_size m)(hp := n)" and ?b = "m_base m"
  note l = uminvD(1) [OF i] and g = uminvD(2) [OF i] and b0 = uminvD(3) [OF i] and pos = uminvD(4) [OF i]
    and fp = uminvD(5) [OF i] and b = uminvD(6) [OF i] and da = uminvD(8) [OF i] and dj = uminvD(9) [OF i]
    and G = uminvD(11,10) [OF i]
  have nG: "hblk ?s' hp \<inter> G = {}" using G(1) h(1) by (fastforce simp: hblk_def)
  have inG: "hblk ?s a \<subseteq> G" if "a \<in> A \<union> set fl" for a using that G(2) blk_subset [of a] by blast
  have out: "hp \<notin> A \<union> set fl"
  proof
    assume a: "hp \<in> A \<union> set fl"
    then have "hp \<in> G" using inG [OF a] pos blk_self [of hp ?s] by auto
    then show False using G(1) h(1) by fastforce
  qed
  then have c: "cells ?s' A = cells ?s A" "cells ?s' (set fl) = cells ?s (set fl)" by simp_all
  have bA: "hblk ?s' a = hblk ?s a" if "a \<in> A" for a using that out by (auto simp: hblk_def)
  have hb: "hp \<noteq> ?b" using b h(1) by simp
  have s: "h_size (m\<lparr>h_size := ?s', m_brk := e\<rparr>) = ?s'" "m_brk (m\<lparr>h_size := ?s', m_brk := e\<rparr>) = e" by simp_all
  show ?thesis
    unfolding uminv_def s
  proof (intro conjI)
    have "gaps ?s (?b # fl) (Suc e)" by (rule gaps_mono [OF g]) (use h in simp)
    then show "gaps ?s' (m_base (m\<lparr>h_size := ?s', m_brk := e\<rparr>) # fl) (Suc e)" using out hb by simp
    show "cells ?s' (insert hp A) \<inter> cells ?s' (set fl) = {}" using dj c nG G(2) by auto
    show "cells ?s' (insert hp A) \<union> cells ?s' (set fl) = G \<union> {hp..<hp + n}" using G(2) c by (auto simp: hblk_def)
    show "\<forall>a\<in>insert hp A. \<forall>b\<in>insert hp A. a \<noteq> b \<longrightarrow> hblk ?s' a \<inter> hblk ?s' b = {}"
      by (rule blk_insert) (use da bA nG inG in \<open>simp, fastforce\<close>)
    show "\<forall>x\<in>G \<union> {hp..<hp + n}. m_base (m\<lparr>h_size := ?s', m_brk := e\<rparr>) < x \<and> x < e" using G(1) h b by fastforce
  qed (use l b0 pos fp b h hb in \<open>simp_all add: hb [symmetric]\<close>)
qed

lemma morecore_ok:
  assumes i: "uminv m fl A G" and sb: "sbrk_ok sb" and nu: "nu < 2 ^ 27" and n: "length fl + 2 \<le> fuel"
  obtains "sb (int (max nu 4096 * 16)) (m_brk m) = None" and "morecore fuel sb nu m = Some (None, m)"
  | m' fl' f G' where "morecore fuel sb nu m = Some (Some f, m')" and "uminv m' fl' A G'" and "grown sb nu m G m' G'"
    and "m_freep m' = Some f" and "\<exists>p\<in>set fl'. nu \<le> h_size m' p" and "length fl' \<le> length fl + 1"
    and "m_base m' = m_base m" and "\<forall>c\<in>A. h_size m' c = h_size m c"
proof (cases "sb (int (max nu 4096 * 16)) (m_brk m)")
  case None
  have "to_int (max nu 4096 * 16) = int (max nu 4096 * 16)" by (rule to_int_small) (use nu in auto)
  then show ?thesis using None by (intro that(1)) (simp_all add: morecore_def Let_def)
next
  case (Some r)
  obtain hp e where r: "r = (hp, e)" by (cases r)
  let ?n = "max nu 4096"
  have eq: "to_int (?n * 16) = int (?n * 16)" by (rule to_int_small) (use nu in auto)
  note brk = uminvD(7) [OF i]
  have "nat (int (?n * 16)) div 16 = ?n" "0 < int (?n * 16) \<and> int (?n * 16) < 2 ^ 31" using nu by auto
  then have h: "m_brk m \<le> hp" "hp + ?n \<le> e" "e < 2 ^ 32"
    using sb [unfolded sbrk_ok_def, rule_format, OF _ brk Some [unfolded r]] by simp_all
  define m1 where "m1 = m\<lparr>h_size := (h_size m)(hp := ?n), m_brk := e\<rparr>"
  have i1: "uminv m1 fl (insert hp A) (G \<union> {hp..<hp + ?n})"
    unfolding m1_def by (rule uminv_extend [OF i h]) simp
  have out: "hp \<notin> A"
  proof
    assume a: "hp \<in> A"
    then have "hp \<in> G"
      using uminvD(4,10) [OF i] blk_subset [OF a, of "h_size m"] blk_self [of hp "h_size m"] by auto
    then show False using uminvD(11) [OF i] h by fastforce
  qed
  obtain m' fl' where k: "free fuel (hp + 1) m1 = Some m'" "uminv m' fl' (insert hp A - {hp}) (G \<union> {hp..<hp + ?n})"
    "length fl' \<le> length fl + 1" "m_base m' = m_base m1" "\<forall>c\<in>insert hp A - {hp}. h_size m' c = h_size m1 c"
    "m_brk m' = m_brk m1"
    "cells (h_size m') (set fl') = cells (h_size m1) (set fl) \<union> hblk (h_size m1) hp"
    by (rule free_keeps [OF i1 insertI1 n])
  have gm: "gaps (h_size m') fl' (Suc (m_brk m'))" using uminvD(2) [OF k(2)] by simp
  have "{hp..<hp + ?n} \<subseteq> cells (h_size m') (set fl')" unfolding k(7) by (simp add: m1_def hblk_def)
  with gm obtain p where "p \<in> set fl'" "?n \<le> h_size m' p" by (rule cells_in_one) simp_all
  moreover obtain f where "m_freep m' = Some f" using uminvD(5) [OF k(2)] by blast
  ultimately show ?thesis
    using k Some out eq by (intro that(2) [of f m' fl']) (auto simp: morecore_def Let_def r m1_def grown_def)
qed

text \<open>Taking memory out of a free block that is large enough.\<close>

lemma malloc_take_exact:
  assumes i: "uminv m fl A G" and fl: "m_base m # fl = us @ pv # p # ys" and fl': "m_base m # fl' = us @ pv # ys"
    and p: "p \<in> set fl"
  shows "uminv (m\<lparr>h_ptr := (h_ptr m)(pv := h_ptr m p), m_freep := Some pv\<rparr>) fl' (insert p A) G"
proof -
  let ?s = "h_size m" and ?f = "h_ptr m" and ?b = "m_base m" and ?e = "Suc (m_brk m)"
  note l = uminvD(1) [OF i] and g = uminvD(2) [OF i] and pos = uminvD(4) [OF i] and b = uminvD(3,6,7) [OF i]
    and da = uminvD(8) [OF i] and dj = uminvD(9) [OF i] and G = uminvD(11,10) [OF i]
  have d: "distinct (us @ pv # p # ys)" using gaps_distinct [OF g] unfolding fl .
  have "distinct (?b # fl')" using d unfolding fl' by auto
  then have sfl: "set fl = insert p (set fl')" and pfl': "p \<notin> set fl'"
  proof -
    assume d': "distinct (?b # fl')"
    have "set (?b # fl) = insert p (set (?b # fl'))" unfolding fl fl' by auto
    then show "set fl = insert p (set fl')" using gaps_distinct [OF g] d' p by auto
    have "p \<notin> set (?b # fl')" using d unfolding fl' by auto
    then show "p \<notin> set fl'" by simp
  qed
  have c: "cells ?s (set fl) = hblk ?s p \<union> cells ?s (set fl')" by (simp add: sfl)
  have dp: "hblk ?s p \<inter> cells ?s (set fl') = {}"
  proof -
    have "hblk ?s p \<inter> hblk ?s q = {}" if "q \<in> set fl'" for q
      using gaps_apart [OF g, of p q] that pfl' by (fastforce simp: hblk_def sfl)
    then show ?thesis by (auto simp: cells_def)
  qed
  have gp: "gaps ?s (?b # fl') ?e" using g unfolding fl fl' by (cases ys) auto
  have lp: "lk (?f(pv := ?f p)) (?b # fl') ?b" using l d unfolding fl fl' by (simp add: hd_append)
  have dpA: "\<forall>a\<in>A. hblk ?s p \<inter> hblk ?s a = {}" using dj c blk_subset by fastforce
  have r: "h_size (m\<lparr>h_ptr := X, m_freep := Y\<rparr>) = ?s" "h_ptr (m\<lparr>h_ptr := X, m_freep := Y\<rparr>) = X"
    "m_base (m\<lparr>h_ptr := X, m_freep := Y\<rparr>) = ?b" "m_brk (m\<lparr>h_ptr := X, m_freep := Y\<rparr>) = m_brk m"
    "m_freep (m\<lparr>h_ptr := X, m_freep := Y\<rparr>) = Y" for X Y by simp_all
  show ?thesis
    unfolding uminv_def r
  proof (intro conjI)
    show "\<exists>f\<in>set (?b # fl'). Some pv = Some f" unfolding fl' by simp
    show "\<forall>a\<in>insert p A. \<forall>b\<in>insert p A. a \<noteq> b \<longrightarrow> hblk ?s a \<inter> hblk ?s b = {}" using da dpA by blast
    show "cells ?s (insert p A) \<inter> cells ?s (set fl') = {}" using dj c dp by auto
    show "cells ?s (insert p A) \<union> cells ?s (set fl') = G" using G(2) c by auto
    show "\<forall>q\<in>set fl' \<union> insert p A. 0 < ?s q" using pos sfl by auto
  qed (use gp lp b G(1) in blast)+
qed

lemma malloc_take_split:
  assumes i: "uminv m fl A G" and p: "p \<in> set fl" and n: "0 < nu" "nu < h_size m p" and pv: "pv \<in> set (m_base m # fl)"
  defines "a \<equiv> p + (h_size m p - nu)"
  shows "uminv (m\<lparr>h_size := (h_size m)(p := h_size m p - nu, a := nu), m_freep := Some pv\<rparr>) fl (insert a A) G"
    and "a \<notin> A" and "p \<notin> A"
proof -
  let ?s = "h_size m" and ?b = "m_base m" and ?e = "Suc (m_brk m)"
  define s' where "s' = ?s(p := ?s p - nu, a := nu)"
  note l = uminvD(1) [OF i] and g = uminvD(2) [OF i] and pos = uminvD(4) [OF i] and b = uminvD(3,6,7) [OF i]
    and da = uminvD(8) [OF i] and dj = uminvD(9) [OF i] and G = uminvD(11,10) [OF i]
  let ?R = "cells ?s (set fl - {p})"
  have ap: "a \<in> hblk ?s p" "p < a" "a \<noteq> p" using n by (auto simp: a_def hblk_def)
  have c: "cells ?s (set fl) = hblk ?s p \<union> ?R" using p by (metis cells_simps(2) insert_Diff)
  have sub: "hblk ?s p \<subseteq> G" using c G(2) by auto
  have afl: "a \<notin> set (?b # fl)"
  proof
    assume "a \<in> set (?b # fl)"
    then show False using gaps_apart [OF g, of p a] ap p by (auto simp: hblk_def)
  qed
  have Ap: "\<forall>x\<in>A. hblk ?s x \<inter> hblk ?s p = {}" using dj c blk_subset by fastforce
  show aA: "a \<notin> A" and pA: "p \<notin> A"
    using Ap pos ap n blk_self [of a ?s] blk_self [of p ?s] by (metis UnCI disjoint_iff, metis UnCI disjoint_iff p)
  have pb: "p \<noteq> ?b" using gaps_distinct [OF g] p by auto
  have s': "s' x = ?s x" if "x \<noteq> p" "x \<noteq> a" for x using that by (simp add: s'_def)
  have bs: "hblk s' a \<union> hblk s' p = hblk ?s p" "hblk s' a \<inter> hblk s' p = {}" using n ap by (auto simp: hblk_def s'_def a_def)
  have "cells s' (set fl - {p}) = ?R" using s' afl by (intro cells_cong) auto
  then have c': "cells s' (set fl) = hblk s' p \<union> ?R" using p by (metis cells_simps(2) insert_Diff)
  have cA: "cells s' A = cells ?s A" using aA pA by (simp add: s'_def)
  have bA: "hblk s' x = hblk ?s x" if "x \<in> A" for x using aA pA that by (auto simp: hblk_def s'_def)
  have pR: "hblk ?s p \<inter> ?R = {}" using gaps_apart [OF g, of p] p by (fastforce simp: cells_def hblk_def)
  have le: "s' x \<le> ?s x" if "x \<noteq> a" for x using that by (simp add: s'_def)
  have r: "h_size (m\<lparr>h_size := X, m_freep := Y\<rparr>) = X" "h_ptr (m\<lparr>h_size := X, m_freep := Y\<rparr>) = h_ptr m"
    "m_base (m\<lparr>h_size := X, m_freep := Y\<rparr>) = ?b" "m_brk (m\<lparr>h_size := X, m_freep := Y\<rparr>) = m_brk m"
    "m_freep (m\<lparr>h_size := X, m_freep := Y\<rparr>) = Y" for X Y by simp_all
  show "uminv (m\<lparr>h_size := ?s(p := ?s p - nu, a := nu), m_freep := Some pv\<rparr>) fl (insert a A) G"
    unfolding uminv_def r s'_def [symmetric]
  proof (intro conjI)
    show "gaps s' (?b # fl) ?e" by (rule gaps_le [OF _ g]) (metis le afl)
    show "s' ?b = 0" using s' [of ?b] b pb afl by simp
    show "\<exists>f\<in>set (?b # fl). Some pv = Some f" using pv by blast
    have "\<forall>x\<in>A. hblk s' a \<inter> hblk s' x = {}" using Ap bs(1) by (fastforce simp: bA)
    then show "\<forall>x\<in>insert a A. \<forall>b\<in>insert a A. x \<noteq> b \<longrightarrow> hblk s' x \<inter> hblk s' b = {}"
      by (intro blk_insert) (use da bA in simp)
    show "cells s' (insert a A) \<inter> cells s' (set fl) = {}" unfolding cells_simps c' cA using dj bs pR unfolding c by blast
    show "cells s' (insert a A) \<union> cells s' (set fl) = G"
      unfolding cells_simps c' cA using G(2) bs(1) unfolding c by blast
    show "\<forall>x\<in>set fl \<union> insert a A. 0 < s' x" using pos n by (simp add: s'_def)
  qed (use l b G(1) in blast)+
qed

lemma malloc_take_ok:
  assumes i: "uminv m fl A G" and n: "0 < nu" "nu \<le> h_size m p" and pv: "pv \<in> set (m_base m # fl)" "h_ptr m pv = p"
  obtains a m' fl' where "malloc_take nu pv p m = (a + 1, m')" and "uminv m' fl' (insert a A) G" and "a \<notin> A"
    and "h_size m' a = nu" and "m_brk m' = m_brk m" and "\<forall>c\<in>A. h_size m' c = h_size m c"
proof -
  note l = uminvD(1) [OF i] and b0 = uminvD(3) [OF i] and dj = uminvD(9) [OF i]
  have pos: "\<forall>p\<in>A. 0 < h_size m p" using uminvD(4) [OF i] by blast
  obtain us zs where u: "m_base m # fl = us @ pv # zs" using pv(1) by (meson split_list)
  have "p = hd (zs @ [m_base m])" using l pv(2) unfolding u by simp
  moreover have pb: "p \<noteq> m_base m" using b0 n by auto
  ultimately obtain ys where z: "zs = p # ys" by (cases zs) auto
  have "p \<in> set (m_base m # fl)" unfolding u z by simp
  then have p: "p \<in> set fl" using pb by simp
  show thesis
  proof (cases "h_size m p = nu")
    case True
    obtain fl' where fl': "m_base m # fl' = us @ pv # ys" using u by (cases us) auto
    show ?thesis
      by (rule that [OF _ malloc_take_exact [OF i u [unfolded z] fl' p]])
        (use True p cells_disjointD [OF dj pos] in \<open>auto simp: malloc_take_def\<close>)
  next
    case False
    then have lt: "nu < h_size m p" using n by simp
    note sp = malloc_take_split [OF i p n(1) lt pv(1)]
    show ?thesis
      by (rule that [OF _ sp(1,2)]) (use False sp(2,3) in \<open>auto simp: malloc_take_def Let_def\<close>)
  qed
qed

lemma malloc_walk:
  assumes "lk (h_ptr m) (ws @ [f]) z" and "m_freep m = Some f" and "f \<notin> set ws" and "h_ptr m pv = hd (ws @ [f])"
  shows "(\<exists>pv' p. pv' \<in> insert pv (set ws) \<and> h_ptr m pv' = p \<and> nu \<le> h_size m p \<and>
            malloc_loop (length ws + Suc n) sb nu pv (hd (ws @ [f])) m
            = (case malloc_take nu pv' p m of (a, m) \<Rightarrow> Some (Some a, m))) \<or>
         (\<forall>p\<in>set (ws @ [f]). h_size m p < nu) \<and>
         malloc_loop (length ws + Suc n) sb nu pv (hd (ws @ [f])) m
         = (case morecore n sb nu m of
              None \<Rightarrow> None
            | Some (None, m) \<Rightarrow> Some (None, m)
            | Some (Some p, m) \<Rightarrow> malloc_loop n sb nu p (h_ptr m p) m)"
  using assms
proof (induction ws arbitrary: pv)
  case Nil
  then show ?case by auto
next
  case (Cons w ws)
  show ?case
  proof (cases "nu \<le> h_size m w")
    case True
    then show ?thesis using Cons.prems(4) by (intro disjI1 exI [of _ pv] exI [of _ w]) simp
  next
    case False
    have hw: "h_ptr m w = hd (ws @ [f])" using Cons.prems(1) by (cases ws) auto
    have "malloc_loop (length (w # ws) + Suc n) sb nu pv (hd ((w # ws) @ [f])) m
      = malloc_loop (length ws + Suc n) sb nu w (hd (ws @ [f])) m"
      using False Cons.prems hw by simp
    moreover have "lk (h_ptr m) (ws @ [f]) z" "f \<notin> set ws" using Cons.prems(1,3) by simp_all
    note Cons.IH [OF this(1) Cons.prems(2) this(2) hw]
    ultimately show ?thesis
      by (elim disjE exE conjE) (use False in \<open>(intro disjI1 exI conjI; simp only: insert_iff list.set; blast), (intro disjI2 conjI, simp, simp only:)\<close>)
  qed
qed


lemma uminv_round:
  assumes i: "uminv m fl A G" and f: "m_freep m = Some f"
  obtains ws z where "lk (h_ptr m) (ws @ [f]) z" and "f \<notin> set ws" and "h_ptr m f = hd (ws @ [f])"
    and "insert f (set ws) = set (m_base m # fl)" and "length ws = length fl"
proof -
  let ?b = "m_base m"
  have "f \<in> set (?b # fl)" using uminvD(5) [OF i] f by auto
  then obtain xs ys where s: "?b # fl = xs @ f # ys" by (meson split_list)
  have hb: "hd (xs @ f # r) = ?b" for r using s by (cases xs) auto
  have l: "lk (h_ptr m) xs f" "h_ptr m f = hd (ys @ [?b])" "lk (h_ptr m) ys ?b"
    using uminvD(1) [OF i] unfolding s by simp_all
  have d: "distinct (xs @ f # ys)" using gaps_distinct [OF uminvD(2) [OF i]] unfolding s .
  show thesis
  proof (rule that [of "ys @ xs" "hd (ys @ [?b])"])
    show "lk (h_ptr m) ((ys @ xs) @ [f]) (hd (ys @ [?b]))" using l hb by simp
    show "h_ptr m f = hd ((ys @ xs) @ [f])" using l(2) hb [of "[]"] by (cases ys) auto
    show "length (ys @ xs) = length fl" using arg_cong [OF s, of length] by simp
  qed (use d in \<open>auto simp: s\<close>)
qed

text \<open>The result of the loop: no memory, and then \<open>sbrk\<close> has refused it, the heap is as it was and nowhere are \<open>nu\<close> headers
  in a row free; or a new block.\<close>

definition malloc_result :: "sbrk \<Rightarrow> nat \<Rightarrow> nat set \<Rightarrow> nat set \<Rightarrow> umem \<Rightarrow> nat option \<Rightarrow> umem \<Rightarrow> bool" where
  "malloc_result sb nu A G m r m' \<longleftrightarrow>
     (case r of
        None \<Rightarrow> m' = m \<and> sb (int (max nu 4096 * 16)) (m_brk m) = None \<and>
          (\<forall>h. \<not> {h..<h + nu} \<subseteq> G - cells (h_size m) A)
      | Some ap \<Rightarrow> \<exists>a fl' G'. ap = a + 1 \<and> uminv m' fl' (insert a A) G' \<and> grown sb nu m G m' G' \<and> a \<notin> A \<and> h_size m' a = nu \<and>
          (\<forall>c\<in>A. h_size m' c = h_size m c))"

lemma malloc_loop_fit:
  assumes i: "uminv m fl A G" and f: "m_freep m = Some f" and nu: "0 < nu" and n: "length fl < fuel"
    and fit: "\<exists>p\<in>set fl. nu \<le> h_size m p"
  obtains a m' fl' where "malloc_loop fuel sb nu f (h_ptr m f) m = Some (Some (a + 1), m')" and "uminv m' fl' (insert a A) G"
    and "a \<notin> A" and "h_size m' a = nu" and "m_brk m' = m_brk m" and "\<forall>c\<in>A. h_size m' c = h_size m c"
proof -
  obtain ws z where w: "lk (h_ptr m) (ws @ [f]) z" "f \<notin> set ws" "h_ptr m f = hd (ws @ [f])"
    "insert f (set ws) = set (m_base m # fl)" "length ws = length fl" by (rule uminv_round [OF i f])
  obtain n where fuel: "fuel = length ws + Suc n" using n w(5) by (metis add_Suc_right less_imp_Suc_add)
  have "\<not> (\<forall>p\<in>set (ws @ [f]). h_size m p < nu)" using fit w(4) by fastforce
  then obtain pv p where p: "pv \<in> set (m_base m # fl)" "h_ptr m pv = p" "nu \<le> h_size m p"
    "malloc_loop fuel sb nu f (h_ptr m f) m = (case malloc_take nu pv p m of (a, m) \<Rightarrow> Some (Some a, m))"
    using malloc_walk [OF w(1) f w(2,3), of nu n sb] unfolding fuel w(3,4) by blast
  obtain a m' fl' where "malloc_take nu pv p m = (a + 1, m')" "uminv m' fl' (insert a A) G" "a \<notin> A"
    "h_size m' a = nu" "m_brk m' = m_brk m" "\<forall>c\<in>A. h_size m' c = h_size m c"
    by (rule malloc_take_ok [OF i nu p(3,1,2)])
  then show ?thesis by (intro that [of a m' fl']) (simp_all add: p(4))
qed

lemma malloc_loop_ok:
  assumes i: "uminv m fl A G" and f: "m_freep m = Some f" and nu: "0 < nu" "nu < 2 ^ 27" and sb: "sbrk_ok sb"
    and n: "2 * length fl + 3 \<le> fuel"
  shows "\<exists>r m'. malloc_loop fuel sb nu f (h_ptr m f) m = Some (r, m') \<and> malloc_result sb nu A G m r m'"
proof (cases "\<exists>p\<in>set fl. nu \<le> h_size m p")
  case True
  obtain a m' fl' where "malloc_loop fuel sb nu f (h_ptr m f) m = Some (Some (a + 1), m')" "uminv m' fl' (insert a A) G"
    "a \<notin> A" "h_size m' a = nu" "m_brk m' = m_brk m" "\<forall>c\<in>A. h_size m' c = h_size m c"
    by (rule malloc_loop_fit [OF i f nu(1) _ True, of fuel sb]) (use n in auto)
  then show ?thesis by (auto simp: malloc_result_def grown_def)
next
  case False
  obtain ws z where w: "lk (h_ptr m) (ws @ [f]) z" "f \<notin> set ws" "h_ptr m f = hd (ws @ [f])"
    "insert f (set ws) = set (m_base m # fl)" "length ws = length fl" by (rule uminv_round [OF i f])
  define k where "k = fuel - Suc (length ws)"
  have fuel: "fuel = length ws + Suc k" "length fl + 2 \<le> k" using n w(5) by (simp_all add: k_def)
  have "\<forall>p\<in>set (m_base m # fl). h_size m p < nu" using False uminvD(3) [OF i] nu(1) by auto
  moreover have "p \<in> set (m_base m # fl)" if "pv \<in> insert f (set ws)" "h_ptr m pv = p" for pv p
  proof -
    have "p \<in> set (ws @ [f])"
    proof (cases "pv = f")
      case True
      then show ?thesis using that w(3) by (cases ws) auto
    next
      case False
      then have "pv \<in> set ws" using that(1) by simp
      then show ?thesis using lk_next [of "h_ptr m" ws f pv] w(1) that(2) by simp
    qed
    then show ?thesis unfolding w(4) [symmetric] by simp
  qed
  ultimately have e: "malloc_loop fuel sb nu f (h_ptr m f) m
    = (case morecore k sb nu m of
         None \<Rightarrow> None
       | Some (None, m) \<Rightarrow> Some (None, m)
       | Some (Some p, m) \<Rightarrow> malloc_loop k sb nu p (h_ptr m p) m)"
    using malloc_walk [OF w(1) f w(2,3), of nu k sb] unfolding fuel(1) w(3) by (meson not_le)
  show ?thesis
  proof (rule morecore_ok [OF i sb nu(2) fuel(2)])
    assume "sb (int (max nu 4096 * 16)) (m_brk m) = None" "morecore k sb nu m = Some (None, m)"
    moreover have "\<not> {h..<h + nu} \<subseteq> G - cells (h_size m) A" for h
    proof
      assume "{h..<h + nu} \<subseteq> G - cells (h_size m) A"
      then have "{h..<h + nu} \<subseteq> cells (h_size m) (set fl)" using uminvD(10) [OF i] by blast
      moreover have "gaps (h_size m) fl (Suc (m_brk m))" using uminvD(2) [OF i] by simp
      ultimately obtain p where "p \<in> set fl" "nu \<le> h_size m p" using nu(1) cells_in_one by metis
      then show False using False by blast
    qed
    ultimately show ?thesis by (simp add: e malloc_result_def)
  next
    fix m' fl' f' G'
    assume c: "morecore k sb nu m = Some (Some f', m')" "uminv m' fl' A G'" "grown sb nu m G m' G'" "m_freep m' = Some f'"
      "\<exists>p\<in>set fl'. nu \<le> h_size m' p" "length fl' \<le> length fl + 1" "\<forall>c\<in>A. h_size m' c = h_size m c"
    obtain a m'' fl'' where "malloc_loop k sb nu f' (h_ptr m' f') m' = Some (Some (a + 1), m'')" "uminv m'' fl'' (insert a A) G'"
      "a \<notin> A" "h_size m'' a = nu" "m_brk m'' = m_brk m'" "\<forall>c\<in>A. h_size m'' c = h_size m' c"
      by (rule malloc_loop_fit [OF c(2,4) nu(1) _ c(5), of k sb]) (use c(6) fuel(2) in auto)
    moreover from this have "grown sb nu m G m'' G'" using c(3) by (simp add: grown_def)
    ultimately show ?thesis using c(7)
      by (intro exI [of _ "Some (a + 1)"] exI [of _ m'']) (auto simp: e c(1) malloc_result_def)
  qed
qed


section \<open>Correctness of the allocator\<close>

text \<open>A heap before the first call of \<open>malloc\<close>, or with a free list: the blocks \<open>A\<close> are allocated and
  disjoint, and every header of the memory \<open>G\<close> is in one of them or in exactly one free block.\<close>

definition heap_ok :: "umem \<Rightarrow> nat set \<Rightarrow> nat set \<Rightarrow> bool" where
  "heap_ok m A G \<longleftrightarrow>
     m_freep m = None \<and> A = {} \<and> G = {} \<and> m_base m < m_brk m \<and> m_brk m < 2 ^ 32 \<or> (\<exists>fl. uminv m fl A G)"

lemma units_bounds:
  assumes "nbytes \<le> 2 ^ 31 - 32"
  shows "0 < units nbytes" and "units nbytes < 2 ^ 27" and "nbytes \<le> 16 * (units nbytes - 1)"
proof -
  have "units nbytes = (nbytes + 15) div 16 + 1" using assms by (simp add: units_def to_uint_def)
  then show "0 < units nbytes" and "units nbytes < 2 ^ 27" and "nbytes \<le> 16 * (units nbytes - 1)" using assms by auto
qed

lemma uminv_first:
  assumes "m_base m < m_brk m" and "m_brk m < 2 ^ 32"
  shows "uminv (m\<lparr>h_ptr := (h_ptr m)(m_base m := m_base m), h_size := (h_size m)(m_base m := 0), m_freep := Some (m_base m)\<rparr>) [] {} {}"
  using assms by (simp add: uminv_def)

lemma malloc_ok:
  assumes h: "heap_ok m A G" and sb: "sbrk_ok sb" and n: "nbytes \<le> 2 ^ 31 - 32"
  obtains N m0 where "heap_ok m0 A G" and "m_brk m0 = m_brk m" and "\<forall>c\<in>A. h_size m0 c = h_size m c"
    and "\<forall>fuel\<ge>N. \<exists>r m'. malloc fuel sb nbytes m = Some (r, m') \<and> malloc_result sb (units nbytes) A G m0 r m'"
proof (cases "m_freep m")
  case None
  define m0 where "m0 = m\<lparr>h_ptr := (h_ptr m)(m_base m := m_base m), h_size := (h_size m)(m_base m := 0), m_freep := Some (m_base m)\<rparr>"
  have A: "A = {}" "G = {}" "m_base m < m_brk m" "m_brk m < 2 ^ 32" using h None by (auto simp: heap_ok_def uminv_def)
  have i: "uminv m0 [] A G" using uminv_first [OF A(3,4)] by (simp add: m0_def A)
  have f: "m_freep m0 = Some (m_base m)" by (simp add: m0_def)
  have e: "malloc fuel sb nbytes m = malloc_loop fuel sb (units nbytes) (m_base m) (h_ptr m0 (m_base m)) m0" for fuel
    by (simp add: malloc_def None Let_def m0_def)
  show thesis
    by (rule that [of m0 3])
      (use i A malloc_loop_ok [OF i f units_bounds(1,2) [OF n] sb] in \<open>auto simp: e heap_ok_def m0_def\<close>)
next
  case (Some f)
  then obtain fl where i: "uminv m fl A G" using h by (auto simp: heap_ok_def)
  have e: "malloc fuel sb nbytes m = malloc_loop fuel sb (units nbytes) f (h_ptr m f) m" for fuel by (simp add: malloc_def Some)
  show thesis
    by (rule that [of m "2 * length fl + 3"]) (use h malloc_loop_ok [OF i Some units_bounds(1,2) [OF n] sb] in \<open>auto simp: e\<close>)
qed

text \<open>C18: For sizes up to 2^31 - 32 bytes \<open>malloc\<close> returns, with enough fuel, on every well-formed heap. It returns null
  only if no sequence of free headers is long enough for the block and \<open>sbrk\<close> has refused the memory \<open>morecore\<close> asks
  for; the heap is then as before. Otherwise the result is the address after the header of a new block of at
  least the number of bytes asked for, disjoint from every block allocated before; the heap is well formed with this
  block allocated, on the memory it had or that and what \<open>sbrk\<close> has just granted. Allocated blocks keep their sizes.\<close>

theorem malloc_correct:
  assumes "heap_ok m A G" and "sbrk_ok sb" and "nbytes \<le> 2 ^ 31 - 32"
  shows "\<exists>N. \<forall>fuel\<ge>N. \<exists>r m'. malloc fuel sb nbytes m = Some (r, m') \<and> (\<forall>c\<in>A. h_size m' c = h_size m c) \<and>
    (case r of
       None \<Rightarrow> heap_ok m' A G \<and> sb (int (max (units nbytes) 4096 * 16)) (m_brk m) = None \<and>
         (\<forall>h. \<not> {h..<h + units nbytes} \<subseteq> G - cells (h_size m') A)
     | Some ap \<Rightarrow> \<exists>a G'. ap = a + 1 \<and> a \<notin> A \<and> heap_ok m' (insert a A) G' \<and> grown sb (units nbytes) m G m' G' \<and>
         nbytes \<le> 16 * (h_size m' a - 1) \<and> (\<forall>c\<in>A. hblk (h_size m') a \<inter> hblk (h_size m') c = {}))"
proof (rule malloc_ok [OF assms])
  fix N m0
  assume m0: "heap_ok m0 A G" "m_brk m0 = m_brk m" "\<forall>c\<in>A. h_size m0 c = h_size m c"
    and N: "\<forall>fuel\<ge>N. \<exists>r m'. malloc fuel sb nbytes m = Some (r, m') \<and> malloc_result sb (units nbytes) A G m0 r m'"
  note u = units_bounds [OF assms(3)]
  show ?thesis
  proof (rule exI [of _ N], intro allI impI)
    fix fuel assume "N \<le> fuel"
    then obtain r m' where r: "malloc fuel sb nbytes m = Some (r, m')" "malloc_result sb (units nbytes) A G m0 r m'"
      using N by blast
    show "\<exists>r m'. malloc fuel sb nbytes m = Some (r, m') \<and> (\<forall>c\<in>A. h_size m' c = h_size m c) \<and>
      (case r of
         None \<Rightarrow> heap_ok m' A G \<and> sb (int (max (units nbytes) 4096 * 16)) (m_brk m) = None \<and>
         (\<forall>h. \<not> {h..<h + units nbytes} \<subseteq> G - cells (h_size m') A)
       | Some ap \<Rightarrow> \<exists>a G'. ap = a + 1 \<and> a \<notin> A \<and> heap_ok m' (insert a A) G' \<and> grown sb (units nbytes) m G m' G' \<and>
           nbytes \<le> 16 * (h_size m' a - 1) \<and> (\<forall>c\<in>A. hblk (h_size m') a \<inter> hblk (h_size m') c = {}))"
    proof (cases r)
      case None
      then show ?thesis using r m0 by (simp add: malloc_result_def)
    next
      case (Some ap)
      then obtain a fl' G' where a: "ap = a + 1" "uminv m' fl' (insert a A) G'" "grown sb (units nbytes) m0 G m' G'" "a \<notin> A"
        "h_size m' a = units nbytes" "\<forall>c\<in>A. h_size m' c = h_size m0 c" using r(2) by (auto simp: malloc_result_def)
      have "\<forall>c\<in>A. hblk (h_size m') a \<inter> hblk (h_size m') c = {}" using uminvD(8) [OF a(2)] a(4) by (metis insertI1 insertI2)
      moreover have "grown sb (units nbytes) m G m' G'" using a(3) m0(2) by (simp add: grown_def)
      moreover have "heap_ok m' (insert a A) G'" using a(2) by (auto simp: heap_ok_def)
      ultimately have "\<exists>a G'. ap = a + 1 \<and> a \<notin> A \<and> heap_ok m' (insert a A) G' \<and> grown sb (units nbytes) m G m' G' \<and>
           nbytes \<le> 16 * (h_size m' a - 1) \<and> (\<forall>c\<in>A. hblk (h_size m') a \<inter> hblk (h_size m') c = {})"
        using a(1,4,5) u(3) by (intro exI [of _ a] exI [of _ G']) simp
      moreover have "\<forall>c\<in>A. h_size m' c = h_size m c" using a(6) m0(3) by simp
      ultimately show ?thesis using r(1) unfolding Some by (intro exI [of _ "Some ap"] exI [of _ m']) simp
    qed
  qed
qed

definition sbrk0 :: sbrk where
  "sbrk0 n b = (if 0 \<le> n \<and> b + nat n div 16 \<le> 10000 then Some (b, b + nat n div 16) else None)"

definition umem0 :: umem where
  "umem0 = \<lparr>h_ptr = \<lambda>_. 0, h_size = \<lambda>_. 0, m_base = 10, m_freep = None, m_brk = 100\<rparr>"

theorem malloc_correct_witness:
  "heap_ok umem0 {} {} \<and> sbrk_ok sbrk0 \<and>
   (\<exists>N. \<forall>fuel\<ge>N. \<exists>r m'. malloc fuel sbrk0 24 umem0 = Some (r, m') \<and> (\<forall>c\<in>{}. h_size m' c = h_size umem0 c) \<and>
    (case r of
       None \<Rightarrow> heap_ok m' {} {} \<and> sbrk0 (int (max (units 24) 4096 * 16)) (m_brk umem0) = None \<and>
         (\<forall>h. \<not> {h..<h + units 24} \<subseteq> {} - cells (h_size m') {})
     | Some ap \<Rightarrow> \<exists>a G'. ap = a + 1 \<and> a \<notin> {} \<and> heap_ok m' (insert a {}) G' \<and> grown sbrk0 (units 24) umem0 {} m' G' \<and>
         24 \<le> 16 * (h_size m' a - 1) \<and> (\<forall>c\<in>{}. hblk (h_size m') a \<inter> hblk (h_size m') c = {})))"
proof -
  have h: "heap_ok umem0 {} {}" by (simp add: heap_ok_def umem0_def)
  have s: "sbrk_ok sbrk0" by (simp add: sbrk_ok_def sbrk0_def)
  show ?thesis by (intro conjI h s malloc_correct [of umem0 "{}" "{}" sbrk0 24, OF h s]) simp
qed

text \<open>C24: With enough fuel \<open>free\<close> of an allocated block returns; the heap is well formed with the same memory and
  without this block among the allocated ones (its headers are in free blocks, merged with their neighbours), and the
  other allocated blocks keep their sizes.\<close>

theorem free_correct:
  assumes "heap_ok m A G" and "bp \<in> A"
  shows "\<exists>N. \<forall>fuel\<ge>N. \<exists>m'. free fuel (bp + 1) m = Some m' \<and> heap_ok m' (A - {bp}) G \<and>
    (\<forall>c\<in>A - {bp}. h_size m' c = h_size m c)"
proof -
  obtain fl where i: "uminv m fl A G" using assms by (auto simp: heap_ok_def)
  show ?thesis
  proof (rule exI [of _ "length fl + 2"], intro allI impI)
    fix fuel assume n: "length fl + 2 \<le> fuel"
    show "\<exists>m'. free fuel (bp + 1) m = Some m' \<and> heap_ok m' (A - {bp}) G \<and> (\<forall>c\<in>A - {bp}. h_size m' c = h_size m c)"
      by (rule free_keeps [OF i assms(2) n]) (auto simp: heap_ok_def)
  qed
qed

definition umem1 :: umem where
  "umem1 = \<lparr>h_ptr = (\<lambda>_. 0)(10 := 100, 100 := 10), h_size = (\<lambda>_. 0)(100 := 4, 104 := 2), m_base = 10,
            m_freep = Some 100, m_brk = 106\<rparr>"

theorem free_correct_witness:
  "heap_ok umem1 {104} {100..<106} \<and>
   (\<exists>N. \<forall>fuel\<ge>N. \<exists>m'. free fuel (104 + 1) umem1 = Some m' \<and> heap_ok m' ({104} - {104}) {100..<106} \<and>
     (\<forall>c\<in>{104} - {104}. h_size m' c = h_size umem1 c))"
proof -
  have "uminv umem1 [100] {104} {100..<106}" by (auto simp: uminv_def umem1_def hblk_def)
  then have h: "heap_ok umem1 {104} {100..<106}" by (auto simp: heap_ok_def)
  show ?thesis by (intro conjI h free_correct [of umem1 "{104}" "{100..<106}" 104, OF h]) simp
qed

text \<open>The bound on the number of bytes is needed: the number of bytes that \<open>morecore\<close> asks \<open>sbrk\<close> for is truncated to
  an \<open>int\<close>. For 4294967295 bytes it is 16, and \<open>malloc\<close> returns a block that ends far above the end of the
  heap.\<close>

lemma malloc_wraps:
  "case malloc (Suc (Suc (Suc 0))) sbrk0 4294967295 umem0 of
     Some (Some ap, m') \<Rightarrow> ap = 101 \<and> h_size m' 100 = 268435457 \<and> m_brk m' = 101 | _ \<Rightarrow> False"
  by (simp add: malloc_def units_def to_uint_def to_int_def umem0_def sbrk0_def morecore_def free_def free_link_def malloc_take_def)

end
