(* ===== verification/Asm.thy ===== *)
theory Asm
  imports Vm
begin

text \<open>
  The assembly code of the kernel: \<^verbatim>\<open>kernel/trampoline.S\<close>, \<^verbatim>\<open>kernel/kernelvec.S\<close>, \<^verbatim>\<open>kernel/swtch.S\<close> and
  \<^verbatim>\<open>kernel/entry.S\<close>, as lists of instructions, and the instructions they use. A hart has its registers and
  the control registers the code touches; \<open>lab\<close> gives the addresses of labels, and \<open>tr satp\<close> is the translation of
  the page table \<open>satp\<close>. A piece of code ends where it leaves the file (\<open>jalr\<close>, \<open>call\<close>, \<open>ret\<close>, \<open>sret\<close>). The
  properties say that what the C code was interrupted in finds its registers again.
\<close>

section \<open>Instructions\<close>

datatype reg = RA | SP | GP | TP | T0 | T1 | T2 | S0 | S1 | A0 | A1 | A2 | A3 | A4 | A5 | A6 | A7
  | S2 | S3 | S4 | S5 | S6 | S7 | S8 | S9 | S10 | S11 | T3 | T4 | T5 | T6

datatype csr = Sscratch | Satp | Mhartid

record hart =
  x_regs :: "reg \<Rightarrow> u64"
  x_pc :: u64
  x_sscratch :: u64
  x_satp :: u64
  x_mhartid :: u64
  x_sepc :: u64
  x_super :: bool
  x_spp :: bool
  x_sie :: bool
  x_spie :: bool
  x_mem :: "addr \<Rightarrow> byte"

datatype instr =
    Sd reg nat reg
  | Ld reg nat reg
  | Li reg u64
  | La reg string
  | Addi reg reg u64
  | Add reg reg reg
  | Mul reg reg reg
  | Csrw csr reg
  | Csrr reg csr
  | Sfence
  | Jalr reg string
  | Call string string
  | Ret
  | Sret

definition set_reg :: "reg \<Rightarrow> u64 \<Rightarrow> hart \<Rightarrow> hart" where
  "set_reg r v m = m\<lparr>x_regs := (x_regs m)(r := v)\<rparr>"

fun csr_read :: "csr \<Rightarrow> hart \<Rightarrow> u64" where
  "csr_read Sscratch m = x_sscratch m"
| "csr_read Satp m = x_satp m"
| "csr_read Mhartid m = x_mhartid m"

fun csr_write :: "csr \<Rightarrow> u64 \<Rightarrow> hart \<Rightarrow> hart" where
  "csr_write Sscratch v m = m\<lparr>x_sscratch := v\<rparr>"
| "csr_write Satp v m = m\<lparr>x_satp := v\<rparr>"
| "csr_write Mhartid v m = m"

text \<open>\<open>Jalr r l\<close> and \<open>Call f l\<close> link to the label \<open>l\<close> that follows them.\<close>

fun exec1 :: "(string \<Rightarrow> u64) \<Rightarrow> (u64 \<Rightarrow> addr \<Rightarrow> addr) \<Rightarrow> instr \<Rightarrow> hart \<Rightarrow> hart" where
  "exec1 lab tr (Sd r off b) m =
     m\<lparr>x_mem := store64 (x_mem m) (tr (x_satp m) (x_regs m b + of_nat off)) (x_regs m r)\<rparr>"
| "exec1 lab tr (Ld r off b) m = set_reg r (load64 (x_mem m) (tr (x_satp m) (x_regs m b + of_nat off))) m"
| "exec1 lab tr (Li r v) m = set_reg r v m"
| "exec1 lab tr (La r l) m = set_reg r (lab l) m"
| "exec1 lab tr (Addi r s v) m = set_reg r (x_regs m s + v) m"
| "exec1 lab tr (Add r s t) m = set_reg r (x_regs m s + x_regs m t) m"
| "exec1 lab tr (Mul r s t) m = set_reg r (x_regs m s * x_regs m t) m"
| "exec1 lab tr (Csrw c r) m = csr_write c (x_regs m r) m"
| "exec1 lab tr (Csrr r c) m = set_reg r (csr_read c m) m"
| "exec1 lab tr Sfence m = m"
| "exec1 lab tr (Jalr r l) m = set_reg RA (lab l) (m\<lparr>x_pc := x_regs m r\<rparr>)"
| "exec1 lab tr (Call f l) m = set_reg RA (lab l) (m\<lparr>x_pc := lab f\<rparr>)"
| "exec1 lab tr Ret m = m\<lparr>x_pc := x_regs m RA\<rparr>"
| "exec1 lab tr Sret m = m\<lparr>x_pc := x_sepc m, x_super := x_spp m, x_spp := False, x_sie := x_spie m, x_spie := True\<rparr>"

definition exec_code :: "(string \<Rightarrow> u64) \<Rightarrow> (u64 \<Rightarrow> addr \<Rightarrow> addr) \<Rightarrow> instr list \<Rightarrow> hart \<Rightarrow> hart" where
  "exec_code lab tr is m = fold (exec1 lab tr) is m"

section \<open>The code\<close>

text \<open>\<^verbatim>\<open>kernel/trampoline.S\<close>\<close>

definition uservec :: "instr list" where
  "uservec = [
    Csrw Sscratch A0, Li A0 TRAPFRAME,
    Sd RA 40 A0, Sd SP 48 A0, Sd GP 56 A0, Sd TP 64 A0, Sd T0 72 A0, Sd T1 80 A0, Sd T2 88 A0,
    Sd S0 96 A0, Sd S1 104 A0, Sd A1 120 A0, Sd A2 128 A0, Sd A3 136 A0, Sd A4 144 A0, Sd A5 152 A0,
    Sd A6 160 A0, Sd A7 168 A0, Sd S2 176 A0, Sd S3 184 A0, Sd S4 192 A0, Sd S5 200 A0, Sd S6 208 A0,
    Sd S7 216 A0, Sd S8 224 A0, Sd S9 232 A0, Sd S10 240 A0, Sd S11 248 A0, Sd T3 256 A0, Sd T4 264 A0,
    Sd T5 272 A0, Sd T6 280 A0,
    Csrr T0 Sscratch, Sd T0 112 A0,
    Ld SP 8 A0, Ld TP 32 A0, Ld T0 16 A0, Ld T1 0 A0,
    Sfence, Csrw Satp T1, Sfence, Jalr T0 ''userret'']"

definition userret :: "instr list" where
  "userret = [
    Sfence, Csrw Satp A0, Sfence, Li A0 TRAPFRAME,
    Ld RA 40 A0, Ld SP 48 A0, Ld GP 56 A0, Ld TP 64 A0, Ld T0 72 A0, Ld T1 80 A0, Ld T2 88 A0, Ld S0 96 A0,
    Ld S1 104 A0, Ld A1 120 A0, Ld A2 128 A0, Ld A3 136 A0, Ld A4 144 A0, Ld A5 152 A0, Ld A6 160 A0,
    Ld A7 168 A0, Ld S2 176 A0, Ld S3 184 A0, Ld S4 192 A0, Ld S5 200 A0, Ld S6 208 A0, Ld S7 216 A0,
    Ld S8 224 A0, Ld S9 232 A0, Ld S10 240 A0, Ld S11 248 A0, Ld T3 256 A0, Ld T4 264 A0, Ld T5 272 A0,
    Ld T6 280 A0,
    Ld A0 112 A0, Sret]"

text \<open>\<^verbatim>\<open>kernel/swtch.S\<close>\<close>

definition swtch :: "instr list" where
  "swtch = [
    Sd RA 0 A0, Sd SP 8 A0, Sd S0 16 A0, Sd S1 24 A0, Sd S2 32 A0, Sd S3 40 A0, Sd S4 48 A0,
    Sd S5 56 A0, Sd S6 64 A0, Sd S7 72 A0, Sd S8 80 A0, Sd S9 88 A0, Sd S10 96 A0, Sd S11 104 A0,
    Ld RA 0 A1, Ld SP 8 A1, Ld S0 16 A1, Ld S1 24 A1, Ld S2 32 A1, Ld S3 40 A1, Ld S4 48 A1,
    Ld S5 56 A1, Ld S6 64 A1, Ld S7 72 A1, Ld S8 80 A1, Ld S9 88 A1, Ld S10 96 A1, Ld S11 104 A1, Ret]"

text \<open>\<^verbatim>\<open>kernel/kernelvec.S\<close>, before and after the call of \<open>kerneltrap\<close>\<close>

definition kernelvec :: "instr list" where
  "kernelvec = [
    Addi SP SP (- 256),
    Sd RA 0 SP, Sd GP 16 SP, Sd TP 24 SP, Sd T0 32 SP, Sd T1 40 SP, Sd T2 48 SP,
    Sd A0 72 SP, Sd A1 80 SP, Sd A2 88 SP, Sd A3 96 SP, Sd A4 104 SP, Sd A5 112 SP, Sd A6 120 SP,
    Sd A7 128 SP, Sd T3 216 SP, Sd T4 224 SP, Sd T5 232 SP, Sd T6 240 SP, Call ''kerneltrap'' ''kernelvec_ret'']"

definition kernelvec_ret :: "instr list" where
  "kernelvec_ret = [
    Ld RA 0 SP, Ld GP 16 SP, Ld T0 32 SP, Ld T1 40 SP, Ld T2 48 SP, Ld A0 72 SP, Ld A1 80 SP,
    Ld A2 88 SP, Ld A3 96 SP, Ld A4 104 SP, Ld A5 112 SP, Ld A6 120 SP, Ld A7 128 SP, Ld T3 216 SP,
    Ld T4 224 SP, Ld T5 232 SP, Ld T6 240 SP, Addi SP SP 256, Sret]"

text \<open>\<^verbatim>\<open>kernel/entry.S\<close>\<close>

definition entry_code :: "instr list" where
  "entry_code = [
    La SP ''stack0'', Li A0 (1024 * 4), Csrr A1 Mhartid, Addi A1 A1 1, Mul A0 A0 A1, Add SP SP A0, Call ''start'' ''spin'']"

text \<open>The offsets of the registers in \<open>struct trapframe\<close> of \<^verbatim>\<open>kernel/proc.h\<close> and in \<open>struct context\<close>.\<close>

fun tf_off :: "reg \<Rightarrow> nat" where
  "tf_off RA = 40" | "tf_off SP = 48" | "tf_off GP = 56" | "tf_off TP = 64" | "tf_off T0 = 72" | "tf_off T1 = 80"
| "tf_off T2 = 88" | "tf_off S0 = 96" | "tf_off S1 = 104" | "tf_off A0 = 112" | "tf_off A1 = 120" | "tf_off A2 = 128"
| "tf_off A3 = 136" | "tf_off A4 = 144" | "tf_off A5 = 152" | "tf_off A6 = 160" | "tf_off A7 = 168" | "tf_off S2 = 176"
| "tf_off S3 = 184" | "tf_off S4 = 192" | "tf_off S5 = 200" | "tf_off S6 = 208" | "tf_off S7 = 216" | "tf_off S8 = 224"
| "tf_off S9 = 232" | "tf_off S10 = 240" | "tf_off S11 = 248" | "tf_off T3 = 256" | "tf_off T4 = 264" | "tf_off T5 = 272"
| "tf_off T6 = 280"

definition context_regs :: "reg list" where
  "context_regs = [RA, SP, S0, S1, S2, S3, S4, S5, S6, S7, S8, S9, S10, S11]"

definition ctx_slots :: "(reg \<times> nat) list" where
  "ctx_slots = zip context_regs (map (\<lambda>i. 8 * i) [0..<14])"

section \<open>Runs of stores and loads\<close>

fun saves :: "reg \<Rightarrow> (reg \<times> nat) list \<Rightarrow> instr list" where
  "saves b [] = []"
| "saves b ((r, off) # L) = Sd r off b # saves b L"

fun loads :: "reg \<Rightarrow> (reg \<times> nat) list \<Rightarrow> instr list" where
  "loads b [] = []"
| "loads b ((r, off) # L) = Ld r off b # loads b L"

fun save_mem :: "(reg \<Rightarrow> u64) \<Rightarrow> addr \<Rightarrow> (reg \<times> nat) list \<Rightarrow> (addr \<Rightarrow> byte) \<Rightarrow> addr \<Rightarrow> byte" where
  "save_mem R pa [] M = M"
| "save_mem R pa ((r, off) # L) M = save_mem R pa L (store64 M (pa + of_nat off) (R r))"

fun load_regs :: "(addr \<Rightarrow> byte) \<Rightarrow> addr \<Rightarrow> (reg \<times> nat) list \<Rightarrow> (reg \<Rightarrow> u64) \<Rightarrow> reg \<Rightarrow> u64" where
  "load_regs M pa [] R = R"
| "load_regs M pa ((r, off) # L) R = load_regs M pa L (R(r := load64 M (pa + of_nat off)))"

text \<open>Slots of eight bytes in a page.\<close>

definition slot :: "nat \<Rightarrow> bool" where "slot n \<longleftrightarrow> n mod 8 = 0 \<and> n < 4096"

lemma slot_other:
  assumes "slot a" and "slot b" and "a \<noteq> b"
  shows "load64 (store64 M (pa + of_nat a) w) (pa + of_nat b) = load64 M (pa + of_nat b)"
proof (rule load64_store64_other)
  fix i j :: nat
  assume ij: "i < 8" "j < 8"
  have "(b + j) div 8 = b div 8" "(a + i) div 8 = a div 8" using assms(1,2) ij by (auto simp: slot_def)
  moreover have "b div 8 \<noteq> a div 8" using assms by (metis slot_def mult_div_mod_eq add_0_right)
  ultimately have "b + j \<noteq> a + i" by metis
  moreover have "b + j < 2 ^ 64" "a + i < 2 ^ 64" using assms ij by (simp_all add: slot_def)
  ultimately have "unat (of_nat (b + j) :: u64) \<noteq> unat (of_nat (a + i) :: u64)" by (simp add: unat_of_nat take_bit_eq_mod del: of_nat_add)
  then have "(of_nat (b + j) :: u64) \<noteq> of_nat (a + i)" by metis
  then show "pa + of_nat b + of_nat j \<noteq> pa + of_nat a + of_nat i" by (simp add: add.assoc)
qed

lemma exec_code_simps [simp]:
  "exec_code lab tr [] m = m" "exec_code lab tr (i # is) m = exec_code lab tr is (exec1 lab tr i m)"
  "exec_code lab tr (is @ js) m = exec_code lab tr js (exec_code lab tr is m)"
  by (simp_all add: exec_code_def)

text \<open>The page table \<open>s\<close> maps \<open>len\<close> bytes from the virtual address \<open>va\<close> to the physical address \<open>pa\<close>.\<close>

definition va_mapped :: "(u64 \<Rightarrow> addr \<Rightarrow> addr) \<Rightarrow> u64 \<Rightarrow> addr \<Rightarrow> addr \<Rightarrow> nat \<Rightarrow> bool" where
  "va_mapped tr s va pa len \<longleftrightarrow> (\<forall>n<len. tr s (va + of_nat n) = pa + of_nat n)"

lemma va_mappedD: "va_mapped tr s va pa len \<Longrightarrow> n < len \<Longrightarrow> tr s (va + of_nat n) = pa + of_nat n"
  by (simp add: va_mapped_def)

lemma exec_saves:
  assumes "\<forall>(r, off)\<in>set L. tr (x_satp m) (x_regs m b + of_nat off) = pa + of_nat off"
  shows "exec_code lab tr (saves b L) m = m\<lparr>x_mem := save_mem (x_regs m) pa L (x_mem m)\<rparr>"
  using assms
proof (induction L arbitrary: m)
  case (Cons x L)
  then show ?case by (cases x) auto
qed simp

lemma exec_loads:
  assumes "\<forall>(r, off)\<in>set L. tr (x_satp m) (x_regs m b + of_nat off) = pa + of_nat off" and "b \<notin> fst ` set L"
  shows "exec_code lab tr (loads b L) m = m\<lparr>x_regs := load_regs (x_mem m) pa L (x_regs m)\<rparr>"
  using assms
proof (induction L arbitrary: m)
  case (Cons x L)
  then show ?case by (cases x) (auto simp: set_reg_def)
qed simp

lemma save_mem_other:
  assumes "\<forall>(r, off)\<in>set L. slot off" and "slot n" and "n \<notin> snd ` set L"
  shows "load64 (save_mem R pa L M) (pa + of_nat n) = load64 M (pa + of_nat n)"
  using assms
proof (induction L arbitrary: M)
  case (Cons x L)
  then show ?case by (cases x) (auto simp: slot_other)
qed simp

lemma save_mem_at:
  assumes "\<forall>(r, off)\<in>set L. slot off" and "distinct (map snd L)" and "(r, n) \<in> set L"
  shows "load64 (save_mem R pa L M) (pa + of_nat n) = R r"
  using assms
proof (induction L arbitrary: M)
  case (Cons x L)
  obtain r' n' where x: "x = (r', n')" by (cases x)
  show ?case
  proof (cases "(r, n) \<in> set L")
    case True
    then show ?thesis using Cons by (auto simp: x)
  next
    case False
    then have "r = r'" "n = n'" using Cons.prems(3) by (auto simp: x)
    moreover have "slot n'" "n' \<notin> snd ` set L" "\<forall>(r, off)\<in>set L. slot off" using Cons.prems by (auto simp: x)
    ultimately show ?thesis using save_mem_other [where n = n' and L = L] by (simp add: x)
  qed
qed simp

lemma load_regs_other: "r \<notin> fst ` set L \<Longrightarrow> load_regs M pa L R r = R r"
proof (induction L arbitrary: R)
  case (Cons x L)
  then show ?case by (cases x) auto
qed simp

lemma load_regs_at:
  assumes "distinct (map fst L)" and "(r, n) \<in> set L"
  shows "load_regs M pa L R r = load64 M (pa + of_nat n)"
  using assms
proof (induction L arbitrary: R)
  case (Cons x L)
  obtain r' n' where x: "x = (r', n')" by (cases x)
  show ?case
  proof (cases "(r, n) \<in> set L")
    case True
    then show ?thesis using Cons by (simp add: x)
  next
    case False
    then have "r = r'" "n = n'" using Cons.prems(2) by (auto simp: x)
    moreover have "r' \<notin> fst ` set L" using Cons.prems(1) by (auto simp: x)
    ultimately show ?thesis using load_regs_other [where r = r' and L = L] by (simp add: x)
  qed
qed simp


section \<open>Entering and leaving the kernel\<close>

definition tf_regs :: "reg list" where
  "tf_regs = [RA, SP, GP, TP, T0, T1, T2, S0, S1, A1, A2, A3, A4, A5, A6, A7, S2, S3, S4, S5, S6, S7, S8, S9, S10, S11,
     T3, T4, T5, T6]"

definition tf_slots :: "(reg \<times> nat) list" where "tf_slots = map (\<lambda>r. (r, tf_off r)) tf_regs"

lemma tf_slots_iff [simp]: "(r, n) \<in> set tf_slots \<longleftrightarrow> r \<in> set tf_regs \<and> n = tf_off r"
  by (auto simp: tf_slots_def)

lemma uservec_split:
  "uservec = [Csrw Sscratch A0, Li A0 TRAPFRAME] @ saves A0 tf_slots @
     [Csrr T0 Sscratch, Sd T0 112 A0, Ld SP 8 A0, Ld TP 32 A0, Ld T0 16 A0, Ld T1 0 A0,
      Sfence, Csrw Satp T1, Sfence, Jalr T0 ''userret'']"
  by (simp add: uservec_def tf_slots_def tf_regs_def)

lemma userret_split:
  "userret = [Sfence, Csrw Satp A0, Sfence, Li A0 TRAPFRAME] @ loads A0 tf_slots @ [Ld A0 112 A0, Sret]"
  by (simp add: userret_def tf_slots_def tf_regs_def)

lemma tf_regs_all: "r \<noteq> A0 \<Longrightarrow> r \<in> set tf_regs" "A0 \<notin> set tf_regs" "distinct tf_regs"
  by (cases r) (simp_all add: tf_regs_def)

lemma tf_off_slot: "slot (tf_off r)" "tf_off r < 4096" "40 \<le> tf_off r" "tf_off r < 288" "r \<noteq> A0 \<Longrightarrow> tf_off r \<noteq> 112"
  by (cases r; simp add: slot_def)+

lemma tf_off_inj: "tf_off r = tf_off r' \<Longrightarrow> r = r'"
  by (cases r; cases r'; simp)


text \<open>What \<open>uservec\<close> leaves: the registers in the trap frame, the kernel's values in the registers.\<close>

lemma uservec_exec:
  assumes t: "va_mapped tr (x_satp m) TRAPFRAME tf 4096"
  defines "M \<equiv> store64 (save_mem ((x_regs m)(A0 := TRAPFRAME)) tf tf_slots (x_mem m)) (tf + 112) (x_regs m A0)"
  shows "exec_code lab tr uservec m =
    m\<lparr>x_sscratch := x_regs m A0, x_mem := M,
      x_regs := (x_regs m)(A0 := TRAPFRAME, T0 := x_regs m A0, SP := load64 M (tf + 8), TP := load64 M (tf + 32), T0 := load64 M (tf + 16),
        T1 := load64 M tf, RA := lab ''userret''),
      x_satp := load64 M tf, x_pc := load64 M (tf + 16)\<rparr>"
proof -
  define T where "T = TRAPFRAME"
  let ?m = "m\<lparr>x_sscratch := x_regs m A0, x_regs := (x_regs m)(A0 := T)\<rparr>"
  have e: "exec_code lab tr (saves A0 tf_slots) ?m = ?m\<lparr>x_mem := save_mem (x_regs ?m) tf tf_slots (x_mem ?m)\<rparr>"
    by (rule exec_saves) (use t tf_off_slot in \<open>auto simp: va_mapped_def T_def\<close>)
  have a: "tr (x_satp m) (T + 112) = tf + 112" "tr (x_satp m) (T + 8) = tf + 8"
    "tr (x_satp m) (T + 32) = tf + 32" "tr (x_satp m) (T + 16) = tf + 16" "tr (x_satp m) T = tf"
    using va_mappedD [OF t, of 112] va_mappedD [OF t, of 8] va_mappedD [OF t, of 32] va_mappedD [OF t, of 16]
      va_mappedD [OF t, of 0] by (simp_all add: T_def)
  have us: "uservec = [Csrw Sscratch A0, Li A0 T] @ saves A0 tf_slots @
     [Csrr T0 Sscratch, Sd T0 112 A0, Ld SP 8 A0, Ld TP 32 A0, Ld T0 16 A0, Ld T1 0 A0,
      Sfence, Csrw Satp T1, Sfence, Jalr T0 ''userret'']"
    by (simp add: uservec_split T_def)
  show ?thesis
    unfolding us exec_code_simps M_def T_def [symmetric] by (simp add: set_reg_def e [simplified] a)
qed


lemma tf_slots_ok:
  "\<forall>(r, off)\<in>set tf_slots. slot off" "distinct (map snd tf_slots)" "distinct (map fst tf_slots)" "A0 \<notin> fst ` set tf_slots"
  "snd ` set tf_slots \<subseteq> {40..<288}" "112 \<notin> snd ` set tf_slots"
proof -
  show "\<forall>(r, off)\<in>set tf_slots. slot off" using tf_off_slot by (auto simp: tf_slots_def)
  show "distinct (map snd tf_slots)" using tf_regs_all(3) tf_off_inj by (auto simp: comp_def distinct_map inj_on_def tf_slots_def)
  show "distinct (map fst tf_slots)" using tf_regs_all(3) by (simp add: comp_def tf_slots_def)
  show "A0 \<notin> fst ` set tf_slots" using tf_regs_all(2) by (auto simp: tf_slots_def)
  show "snd ` set tf_slots \<subseteq> {40..<288}" using tf_off_slot(3,4) by (auto simp: tf_slots_def)
  show "112 \<notin> snd ` set tf_slots" by (simp add: tf_regs_def tf_slots_def)
qed

lemma uservec_saves:
  assumes t: "va_mapped tr (x_satp m) TRAPFRAME tf 4096"
  shows "load64 (x_mem (exec_code lab tr uservec m)) (tf + of_nat (tf_off r)) = x_regs m r"
    and "slot n \<Longrightarrow> n < 40 \<Longrightarrow> load64 (x_mem (exec_code lab tr uservec m)) (tf + of_nat n) = load64 (x_mem m) (tf + of_nat n)"
proof -
  let ?R = "(x_regs m)(A0 := TRAPFRAME)" and ?M = "save_mem ((x_regs m)(A0 := TRAPFRAME)) tf tf_slots (x_mem m)"
  have s112: "slot 112" by (simp add: slot_def)
  have e: "x_mem (exec_code lab tr uservec m) = store64 ?M (tf + of_nat 112) (x_regs m A0)"
    by (simp add: uservec_exec [OF t])
  show "load64 (x_mem (exec_code lab tr uservec m)) (tf + of_nat (tf_off r)) = x_regs m r"
  proof (cases "r = A0")
    case True
    then show ?thesis unfolding e by (simp only: tf_off.simps load64_store64_same)
  next
    case False
    have "load64 ?M (tf + of_nat (tf_off r)) = ?R r"
      by (rule save_mem_at [OF tf_slots_ok(1,2)]) (use False tf_regs_all(1) in auto)
    then show ?thesis using False unfolding e slot_other [OF s112 tf_off_slot(1) tf_off_slot(5) [OF False, symmetric]] by simp
  qed
  assume n: "slot n" "n < 40"
  have "load64 ?M (tf + of_nat n) = load64 (x_mem m) (tf + of_nat n)"
    by (rule save_mem_other [OF tf_slots_ok(1) n(1)]) (use tf_slots_ok(5) n(2) in fastforce)
  then show "load64 (x_mem (exec_code lab tr uservec m)) (tf + of_nat n) = load64 (x_mem m) (tf + of_nat n)"
    unfolding e by (subst slot_other [OF s112 n(1)]) (use n(2) in simp_all)
qed

lemma userret_exec:
  assumes t: "va_mapped tr (x_regs m A0) TRAPFRAME tf 4096"
  shows "exec_code lab tr userret m =
    m\<lparr>x_satp := x_regs m A0, x_regs := (\<lambda>r. load64 (x_mem m) (tf + of_nat (tf_off r))),
      x_pc := x_sepc m, x_super := x_spp m, x_spp := False, x_sie := x_spie m, x_spie := True\<rparr>"
proof -
  let ?m = "m\<lparr>x_satp := x_regs m A0, x_regs := (x_regs m)(A0 := TRAPFRAME)\<rparr>"
  have e: "exec_code lab tr (loads A0 tf_slots) ?m = ?m\<lparr>x_regs := load_regs (x_mem ?m) tf tf_slots (x_regs ?m)\<rparr>"
    by (rule exec_loads [OF _ tf_slots_ok(4)]) (use t tf_off_slot in \<open>auto simp: va_mapped_def\<close>)
  have l: "(load_regs (x_mem m) tf tf_slots ((x_regs m)(A0 := TRAPFRAME)))(A0 := load64 (x_mem m) (tf + of_nat 112))
    = (\<lambda>r. load64 (x_mem m) (tf + of_nat (tf_off r)))"
  proof
    fix r
    show "((load_regs (x_mem m) tf tf_slots ((x_regs m)(A0 := TRAPFRAME)))(A0 := load64 (x_mem m) (tf + of_nat 112))) r
      = load64 (x_mem m) (tf + of_nat (tf_off r))"
    proof (cases "r = A0")
      case False
      have "load_regs (x_mem m) tf tf_slots ((x_regs m)(A0 := TRAPFRAME)) r = load64 (x_mem m) (tf + of_nat (tf_off r))"
        by (rule load_regs_at [OF tf_slots_ok(3)]) (use False tf_regs_all(1) in auto)
      then show ?thesis using False by simp
    qed simp
  qed
  have a0: "load_regs (x_mem m) tf tf_slots ((x_regs m)(A0 := TRAPFRAME)) A0 = TRAPFRAME"
    using load_regs_other [OF tf_slots_ok(4)] by (simp)
  have a: "tr (x_regs m A0) (TRAPFRAME + of_nat 112) = tf + of_nat 112" using va_mappedD [OF t, of 112] by simp
  have "exec_code lab tr userret m = exec_code lab tr [Ld A0 112 A0, Sret] (exec_code lab tr (loads A0 tf_slots) ?m)"
    by (simp add: userret_split set_reg_def)
  also have "\<dots> = exec_code lab tr [Ld A0 112 A0, Sret] (?m\<lparr>x_regs := load_regs (x_mem m) tf tf_slots ((x_regs m)(A0 := TRAPFRAME))\<rparr>)"
    unfolding e by simp
  also have "\<dots> = m\<lparr>x_satp := x_regs m A0, x_regs := (load_regs (x_mem m) tf tf_slots ((x_regs m)(A0 := TRAPFRAME)))(A0 := load64 (x_mem m) (tf + of_nat 112)),
      x_pc := x_sepc m, x_super := x_spp m, x_spp := False, x_sie := x_spie m, x_spie := True\<rparr>"
    using a0 a by (simp add: set_reg_def)
  finally show ?thesis unfolding l .
qed

text \<open>C8: A trap from user space saves every register in the trap frame and enters the kernel at
  \<open>kernel_trap\<close> with the kernel's stack, hart number and page table. If the kernel then leaves the saved registers as they
  are and comes to \<open>userret\<close> with the user page table in \<open>a0\<close>, the program goes on with all its registers, its page
  table, at \<open>sepc\<close>.\<close>

theorem uservec_userret:
  fixes m :: hart and lab :: "string \<Rightarrow> u64"
  assumes "va_mapped tr (x_satp m) TRAPFRAME tf 4096"
  defines "k \<equiv> exec_code lab tr uservec m"
  shows "x_regs k SP = load64 (x_mem m) (tf + 8) \<and> x_regs k TP = load64 (x_mem m) (tf + 32) \<and>
      x_pc k = load64 (x_mem m) (tf + 16) \<and> x_satp k = load64 (x_mem m) tf \<and>
      (\<forall>r. load64 (x_mem k) (tf + of_nat (tf_off r)) = x_regs m r) \<and>
      (\<forall>k'. x_regs k' A0 = x_satp m \<and> (\<forall>r. load64 (x_mem k') (tf + of_nat (tf_off r)) = load64 (x_mem k) (tf + of_nat (tf_off r))) \<longrightarrow>
        x_regs (exec_code lab tr userret k') = x_regs m \<and> x_satp (exec_code lab tr userret k') = x_satp m \<and>
        x_pc (exec_code lab tr userret k') = x_sepc k' \<and> x_super (exec_code lab tr userret k') = x_spp k')"
proof -
  note sv = uservec_saves(1) [OF assms(1), of lab, folded k_def]
  have h: "load64 (x_mem k) (tf + of_nat n) = load64 (x_mem m) (tf + of_nat n)" if "n mod 8 = 0" "n < 40" for n
    unfolding k_def by (rule uservec_saves(2) [OF assms(1)]) (use that in \<open>simp_all add: slot_def\<close>)
  have "x_regs k SP = load64 (x_mem k) (tf + 8) \<and> x_regs k TP = load64 (x_mem k) (tf + 32) \<and>
      x_pc k = load64 (x_mem k) (tf + 16) \<and> x_satp k = load64 (x_mem k) tf"
    unfolding k_def uservec_exec [OF assms(1)] by (simp)
  moreover have "x_regs (exec_code lab tr userret k') = x_regs m" if "x_regs k' A0 = x_satp m"
    "\<forall>r. load64 (x_mem k') (tf + of_nat (tf_off r)) = load64 (x_mem k) (tf + of_nat (tf_off r))" for k'
    using userret_exec [of tr k' tf lab] that assms(1) sv by simp
  moreover note userret_exec [of tr _ tf lab] sv h [of 8] h [of 32] h [of 16] h [of 0] assms(1)
  ultimately show ?thesis by simp
qed


definition hart0 :: hart where
  "hart0 = \<lparr>x_regs = \<lambda>r. of_nat (tf_off r), x_pc = 0, x_sscratch = 0, x_satp = 1, x_mhartid = 0, x_sepc = 64, x_super = True,
            x_spp = False, x_sie = False, x_spie = True, x_mem = \<lambda>_. 0\<rparr>"

definition tr0 :: "u64 \<Rightarrow> addr \<Rightarrow> addr" where
  "tr0 s a = (if s = 1 then a - TRAPFRAME + 4096 else a)"

theorem uservec_userret_witness:
  "va_mapped tr0 (x_satp hart0) TRAPFRAME 4096 4096 \<and>
   x_regs (exec_code (\<lambda>_. 0) tr0 userret
     ((exec_code (\<lambda>_. 0) tr0 uservec hart0)\<lparr>x_regs := (x_regs (exec_code (\<lambda>_. 0) tr0 uservec hart0))(A0 := 1)\<rparr>)) = x_regs hart0"
proof -
  have t: "va_mapped tr0 (x_satp hart0) TRAPFRAME 4096 4096" by (simp add: va_mapped_def tr0_def hart0_def)
  let ?k = "exec_code (\<lambda>_. 0) tr0 uservec hart0"
  have "x_regs (?k\<lparr>x_regs := (x_regs ?k)(A0 := 1)\<rparr>) A0 = x_satp hart0" by (simp add: hart0_def)
  then show ?thesis using t uservec_userret [OF t, of "\<lambda>_. 0"] by simp
qed

section \<open>Switching threads\<close>

lemma swtch_split: "swtch = saves A0 ctx_slots @ loads A1 ctx_slots @ [Ret]"
  by (simp add: swtch_def ctx_slots_def context_regs_def upt_conv_Cons)

lemma ctx_slots_ok:
  "\<forall>(r, off)\<in>set ctx_slots. slot off" "distinct (map snd ctx_slots)" "distinct (map fst ctx_slots)"
  "A1 \<notin> fst ` set ctx_slots" "A0 \<notin> fst ` set ctx_slots" "fst ` set ctx_slots = set context_regs" "(RA, 0) \<in> set ctx_slots"
  "\<forall>(r, off)\<in>set ctx_slots. off < 112"
  by (simp_all add: ctx_slots_def context_regs_def upt_conv_Cons slot_def)

text \<open>A context of 14 registers at \<open>p\<close>, and two that do not overlap.\<close>

definition in_context :: "(addr \<Rightarrow> byte) \<Rightarrow> addr \<Rightarrow> (reg \<Rightarrow> u64) \<Rightarrow> bool" where
  "in_context M p R \<longleftrightarrow> (\<forall>(r, off)\<in>set ctx_slots. load64 M (p + of_nat off) = R r)"

definition ctx_apart :: "addr \<Rightarrow> addr \<Rightarrow> bool" where
  "ctx_apart p q \<longleftrightarrow> (\<forall>i<112. \<forall>j<112. p + of_nat i \<noteq> q + of_nat j)"

lemma apart_load:
  assumes a: "ctx_apart p q" and "\<forall>(r, off)\<in>set L. off + 8 \<le> 112" and n: "n + 8 \<le> 112"
  shows "load64 (save_mem R p L M) (q + of_nat n) = load64 M (q + of_nat n)"
  using assms(2)
proof (induction L arbitrary: M)
  case (Cons x L)
  obtain r o' where x: "x = (r, o')" by (cases x)
  have "load64 (store64 M (p + of_nat o') (R r)) (q + of_nat n) = load64 M (q + of_nat n)"
  proof (rule load64_store64_other)
    fix i j :: nat
    assume "i < 8" "j < 8"
    then have "p + of_nat (o' + i) \<noteq> q + of_nat (n + j)" using a n Cons.prems by (simp add: ctx_apart_def x del: of_nat_add)
    then show "q + of_nat n + of_nat j \<noteq> p + of_nat o' + of_nat i" by (simp add: add.assoc)
  qed
  then show ?case using Cons by (simp add: x)
qed simp

lemma swtch_exec:
  assumes t: "va_mapped tr (x_satp m) (x_regs m A0) (x_regs m A0) 112" "va_mapped tr (x_satp m) (x_regs m A1) (x_regs m A1) 112"
  defines "M \<equiv> save_mem (x_regs m) (x_regs m A0) ctx_slots (x_mem m)"
  shows "x_mem (exec_code lab tr swtch m) = M"
    and "(r, off) \<in> set ctx_slots \<Longrightarrow> x_regs (exec_code lab tr swtch m) r = load64 M (x_regs m A1 + of_nat off)"
    and "r \<notin> set context_regs \<Longrightarrow> x_regs (exec_code lab tr swtch m) r = x_regs m r"
    and "x_pc (exec_code lab tr swtch m) = load64 M (x_regs m A1)"
proof -
  have s: "exec_code lab tr (saves A0 ctx_slots) m = m\<lparr>x_mem := M\<rparr>" 
    unfolding M_def by (rule exec_saves) (use t(1) ctx_slots_ok(8) in \<open>auto simp: va_mapped_def\<close>)
  have l: "exec_code lab tr (loads A1 ctx_slots) (m\<lparr>x_mem := M\<rparr>)
    = m\<lparr>x_mem := M, x_regs := load_regs M (x_regs m A1) ctx_slots (x_regs m)\<rparr>"
    by (subst exec_loads [where pa = "x_regs m A1"]) (use t(2) ctx_slots_ok(4,8) in \<open>auto simp: va_mapped_def\<close>)
  have e: "exec_code lab tr swtch m
    = m\<lparr>x_mem := M, x_regs := load_regs M (x_regs m A1) ctx_slots (x_regs m),
        x_pc := load_regs M (x_regs m A1) ctx_slots (x_regs m) RA\<rparr>"
    by (simp add: swtch_split s l)
  show "x_mem (exec_code lab tr swtch m) = M" by (simp add: e)
  show "(r, off) \<in> set ctx_slots \<Longrightarrow> x_regs (exec_code lab tr swtch m) r = load64 M (x_regs m A1 + of_nat off)"
    by (simp add: e load_regs_at [OF ctx_slots_ok(3)])
  show "r \<notin> set context_regs \<Longrightarrow> x_regs (exec_code lab tr swtch m) r = x_regs m r"
    by (simp add: e load_regs_other ctx_slots_ok(6))
  show "x_pc (exec_code lab tr swtch m) = load64 M (x_regs m A1)"
    by (simp add: e load_regs_at [OF ctx_slots_ok(3,7)])
qed

text \<open>C15: \<open>swtch(old, new)\<close> leaves the registers of the caller in the context at \<open>old\<close>, and goes on where the thread of
  the context at \<open>new\<close> called \<open>swtch\<close>, with the registers saved there; registers outside the context are
  untouched, which the calling convention lets \<open>swtch\<close> clobber. Hence a thread that switches away continues, whenever
  another thread switches to its unchanged context, after its own call, with its stack and saved registers.\<close>

theorem swtch_resumes:
  assumes "va_mapped tr (x_satp m) (x_regs m A0) (x_regs m A0) 112" and "va_mapped tr (x_satp m) (x_regs m A1) (x_regs m A1) 112"
    and "ctx_apart (x_regs m A0) (x_regs m A1)" and "in_context (x_mem m) (x_regs m A1) R"
  shows "in_context (x_mem (exec_code lab tr swtch m)) (x_regs m A0) (x_regs m) \<and>
    in_context (x_mem (exec_code lab tr swtch m)) (x_regs m A1) R \<and>
    (\<forall>r. x_regs (exec_code lab tr swtch m) r = (if r \<in> set context_regs then R r else x_regs m r)) \<and>
    x_pc (exec_code lab tr swtch m) = R RA"
proof -
  let ?M = "save_mem (x_regs m) (x_regs m A0) ctx_slots (x_mem m)"
  note sw = swtch_exec [where tr = tr and m = m and lab = lab, OF assms(1,2)]
  have new: "load64 ?M (x_regs m A1 + of_nat off) = R r" if "(r, off) \<in> set ctx_slots" for r off
  proof -
    have 8: "off + 8 \<le> 112" if "(r, off) \<in> set ctx_slots" for r off
      using ctx_slots_ok(1,8) that by (fastforce simp: slot_def)
    have "load64 ?M (x_regs m A1 + of_nat off) = load64 (x_mem m) (x_regs m A1 + of_nat off)"
      by (rule apart_load [OF assms(3)]) (use 8 that in auto)
    then show ?thesis using assms(4) that by (auto simp: in_context_def)
  qed
  have old: "in_context ?M (x_regs m A0) (x_regs m)"
    using save_mem_at [OF ctx_slots_ok(1,2)] by (auto simp: in_context_def)
  have regs: "x_regs (exec_code lab tr swtch m) r = (if r \<in> set context_regs then R r else x_regs m r)" for r
  proof (cases "r \<in> set context_regs")
    case True
    then obtain off where "(r, off) \<in> set ctx_slots" unfolding ctx_slots_ok(6) [symmetric] by auto
    then show ?thesis using True sw(2) new by simp
  qed (simp add: sw(3))
  have "x_pc (exec_code lab tr swtch m) = R RA" using new [OF ctx_slots_ok(7)] by (simp add: sw(4))
  then show ?thesis using old new regs by (auto simp: sw(1) in_context_def)
qed

definition hart1 :: hart where
  "hart1 = hart0\<lparr>x_regs := (x_regs hart0)(A0 := 4096, A1 := 8192), x_satp := 2\<rparr>"

lemma apart_pages: "ctx_apart 4096 8192"
proof -
  have "(4096 :: u64) + of_nat i \<noteq> 8192 + of_nat j" if "i < 112" "j < 112" for i j :: nat
  proof
    assume "(4096 :: u64) + of_nat i = 8192 + of_nat j"
    then have "unat (of_nat (4096 + i) :: u64) = unat (of_nat (8192 + j) :: u64)" by simp
    then show False using that by (simp add: unat_of_nat take_bit_eq_mod del: of_nat_add)
  qed
  then show ?thesis by (simp add: ctx_apart_def)
qed

theorem swtch_resumes_witness:
  "va_mapped tr0 (x_satp hart1) (x_regs hart1 A0) (x_regs hart1 A0) 112 \<and>
   va_mapped tr0 (x_satp hart1) (x_regs hart1 A1) (x_regs hart1 A1) 112 \<and> ctx_apart (x_regs hart1 A0) (x_regs hart1 A1) \<and>
   in_context (x_mem hart1) (x_regs hart1 A1) (\<lambda>_. 0) \<and>
   x_regs (exec_code (\<lambda>_. 0) tr0 swtch hart1) S3 = 0 \<and> x_regs (exec_code (\<lambda>_. 0) tr0 swtch hart1) A3 = 136 \<and>
   in_context (x_mem (exec_code (\<lambda>_. 0) tr0 swtch hart1)) (x_regs hart1 A0) (x_regs hart1)"
proof -
  have t: "va_mapped tr0 (x_satp hart1) (x_regs hart1 A0) (x_regs hart1 A0) 112"
    "va_mapped tr0 (x_satp hart1) (x_regs hart1 A1) (x_regs hart1 A1) 112" by (simp_all add: hart1_def tr0_def va_mapped_def)
  have a: "ctx_apart (x_regs hart1 A0) (x_regs hart1 A1)" by (simp add: hart1_def apart_pages)
  have c: "in_context (x_mem hart1) (x_regs hart1 A1) (\<lambda>_. 0)"
    by (simp add: in_context_def hart1_def hart0_def load64_def mem_read_def ctx_slots_def context_regs_def upt_conv_Cons word_of_def)
  show ?thesis using t a c swtch_resumes [where tr = tr0 and lab = "\<lambda>_. 0", OF t a c] by (simp add: context_regs_def hart1_def hart0_def)
qed

section \<open>Traps in the kernel and the first instructions\<close>

definition kv_slots :: "(reg \<times> nat) list" where
  "kv_slots = [(RA, 0), (GP, 16), (TP, 24), (T0, 32), (T1, 40), (T2, 48), (A0, 72), (A1, 80), (A2, 88), (A3, 96), (A4, 104),
     (A5, 112), (A6, 120), (A7, 128), (T3, 216), (T4, 224), (T5, 232), (T6, 240)]"

definition kv_restored :: "(reg \<times> nat) list" where "kv_restored = filter (\<lambda>(r, off). r \<noteq> TP) kv_slots"

lemma kernelvec_split:
  "kernelvec = [Addi SP SP (- 256)] @ saves SP kv_slots @ [Call ''kerneltrap'' ''kernelvec_ret'']"
  "kernelvec_ret = loads SP kv_restored @ [Addi SP SP 256, Sret]"
  by (simp_all add: kernelvec_def kernelvec_ret_def kv_restored_def kv_slots_def)

lemma kv_slots_ok:
  "\<forall>(r, off)\<in>set kv_slots. slot off" "distinct (map snd kv_slots)" "distinct (map fst kv_restored)"
  "SP \<notin> fst ` set kv_restored" "\<forall>(r, off)\<in>set kv_slots. off < 256"
  by (simp_all add: kv_restored_def kv_slots_def slot_def)

lemma kv_restored_iff: "x \<in> set kv_restored \<longleftrightarrow> x \<in> set kv_slots \<and> fst x \<noteq> TP"
  by (auto simp: kv_restored_def)

text \<open>The registers a C function keeps for its caller.\<close>

definition callee_saved :: "reg list" where
  "callee_saved = [SP, S0, S1, S2, S3, S4, S5, S6, S7, S8, S9, S10, S11]"

lemma kernelvec_exec:
  assumes t: "va_mapped tr (x_satp m) (x_regs m SP - 256) pa 256"
  shows "exec_code lab tr kernelvec m =
    m\<lparr>x_regs := (x_regs m)(SP := x_regs m SP - 256, RA := lab ''kernelvec_ret''),
      x_mem := save_mem ((x_regs m)(SP := x_regs m SP - 256)) pa kv_slots (x_mem m), x_pc := lab ''kerneltrap''\<rparr>"
proof -
  let ?m = "m\<lparr>x_regs := (x_regs m)(SP := x_regs m SP - 256)\<rparr>"
  have "exec_code lab tr (saves SP kv_slots) ?m = ?m\<lparr>x_mem := save_mem (x_regs ?m) pa kv_slots (x_mem ?m)\<rparr>"
    by (rule exec_saves) (use t kv_slots_ok(5) in \<open>auto simp: va_mapped_def\<close>)
  then show ?thesis by (simp add: kernelvec_split set_reg_def)
qed

lemma kernelvec_ret_exec:
  assumes t: "va_mapped tr (x_satp k) (x_regs k SP) pa 256"
  shows "exec_code lab tr kernelvec_ret k =
    k\<lparr>x_regs := (load_regs (x_mem k) pa kv_restored (x_regs k))(SP := x_regs k SP + 256),
      x_pc := x_sepc k, x_super := x_spp k, x_spp := False, x_sie := x_spie k, x_spie := True\<rparr>"
proof -
  have "exec_code lab tr (loads SP kv_restored) k = k\<lparr>x_regs := load_regs (x_mem k) pa kv_restored (x_regs k)\<rparr>"
    by (rule exec_loads [OF _ kv_slots_ok(4)]) (use t kv_slots_ok(5) kv_restored_iff in \<open>fastforce simp: va_mapped_def\<close>)
  then show ?thesis by (simp add: kernelvec_split set_reg_def load_regs_other [OF kv_slots_ok(4)])
qed

lemma reg_kinds: "r \<in> insert TP (set callee_saved) \<union> fst ` set kv_restored"
  by (cases r) (simp_all add: callee_saved_def kv_restored_def kv_slots_def)

lemma callee_not_restored: "r \<in> insert TP (set callee_saved) \<Longrightarrow> r \<notin> fst ` set kv_restored \<and> r \<noteq> RA"
  by (auto simp: callee_saved_def kv_restored_def kv_slots_def)

text \<open>C25: An interrupt in the kernel is invisible to the code it interrupts: if \<open>kerneltrap\<close> keeps the registers of the
  calling convention and the words \<open>kernelvec\<close> pushed, then \<open>sret\<close> goes back to \<open>sepc\<close> with every register as it was at the
  interrupt, except \<open>tp\<close>, which stays the number of the hart that runs the code now.\<close>

theorem kernelvec_transparent:
  assumes "va_mapped tr (x_satp m) (x_regs m SP - 256) pa 256" and "va_mapped tr (x_satp k) (x_regs m SP - 256) pa 256"
    and "\<forall>r\<in>set callee_saved. x_regs k r = x_regs (exec_code lab tr kernelvec m) r"
    and "\<forall>(r, off)\<in>set kv_slots. load64 (x_mem k) (pa + of_nat off)
           = load64 (x_mem (exec_code lab tr kernelvec m)) (pa + of_nat off)"
  shows "x_pc (exec_code lab tr kernelvec m) = lab ''kerneltrap'' \<and>
    (\<forall>r. x_regs (exec_code lab tr kernelvec_ret k) r = (if r = TP then x_regs k TP else x_regs m r)) \<and>
    x_pc (exec_code lab tr kernelvec_ret k) = x_sepc k \<and> x_super (exec_code lab tr kernelvec_ret k) = x_spp k \<and>
    x_sie (exec_code lab tr kernelvec_ret k) = x_spie k"
proof -
  let ?sp = "x_regs m SP - 256" and ?R = "(x_regs m)(SP := x_regs m SP - 256)"
  note k0 = kernelvec_exec [of tr m, OF assms(1), of lab]
  have sp: "x_regs k SP = ?sp" using assms(3) by (simp add: k0 callee_saved_def)
  note k1 = kernelvec_ret_exec [of tr k pa lab, unfolded sp, OF assms(2)]
  have "x_regs (exec_code lab tr kernelvec_ret k) r = (if r = TP then x_regs k TP else x_regs m r)" for r
  proof (cases "r \<in> insert TP (set callee_saved)")
    case True
    note nr = callee_not_restored [OF True]
    have l: "load_regs (x_mem k) pa kv_restored (x_regs k) r = x_regs k r" by (rule load_regs_other) (use nr in simp)
    show ?thesis
    proof (cases "r = TP \<or> r = SP")
      case True
      then show ?thesis using l sp by (auto simp: k1)
    next
      case False
      then have "x_regs k r = x_regs m r" using True assms(3) nr by (simp add: k0)
      then show ?thesis using l False by (simp add: k1 sp)
    qed
  next
    case False
    then obtain off where r: "(r, off) \<in> set kv_restored" using reg_kinds [of r] by auto
    then have kv: "(r, off) \<in> set kv_slots" "r \<noteq> TP" by (auto simp: kv_restored_iff)
    have "r \<noteq> SP" using False by (auto simp: callee_saved_def)
    moreover have "load_regs (x_mem k) pa kv_restored (x_regs k) r = load64 (x_mem k) (pa + of_nat off)"
      by (rule load_regs_at [OF kv_slots_ok(3) r])
    moreover have "load64 (x_mem k) (pa + of_nat off) = load64 (save_mem ?R pa kv_slots (x_mem m)) (pa + of_nat off)"
      using assms(4) kv(1) by (auto simp: k0)
    moreover have "\<dots> = ?R r" by (rule save_mem_at [OF kv_slots_ok(1,2) kv(1)])
    ultimately show ?thesis using kv(2) by (simp add: k1 sp)
  qed
  then show ?thesis by (simp add: k0 k1)
qed

theorem kernelvec_transparent_witness:
  "va_mapped tr0 (x_satp hart1) (x_regs hart1 SP - 256) (x_regs hart1 SP - 256) 256 \<and>
   (\<forall>r. x_regs (exec_code (\<lambda>_. 0) tr0 kernelvec_ret (exec_code (\<lambda>_. 0) tr0 kernelvec hart1)) r
     = (if r = TP then x_regs (exec_code (\<lambda>_. 0) tr0 kernelvec hart1) TP else x_regs hart1 r))"
proof -
  have t: "va_mapped tr0 (x_satp hart1) (x_regs hart1 SP - 256) (x_regs hart1 SP - 256) 256"
    by (simp add: va_mapped_def hart1_def tr0_def)
  have t': "va_mapped tr0 (x_satp (exec_code (\<lambda>_. 0) tr0 kernelvec hart1)) (x_regs hart1 SP - 256) (x_regs hart1 SP - 256) 256"
    using t by (simp add: kernelvec_exec [OF t])
  show ?thesis using t kernelvec_transparent [where lab = "\<lambda>_. 0", OF t t'] by simp
qed

text \<open>The first instructions give every hart a page of \<open>stack0\<close> for its stack and go on to \<open>start\<close>.\<close>

lemma entry_stack:
  "x_regs (exec_code lab tr entry_code m) SP = lab ''stack0'' + 4096 * (x_mhartid m + 1)"
  "x_pc (exec_code lab tr entry_code m) = lab ''start''"
  by (simp_all add: entry_code_def set_reg_def)

end
