(* ===== verification/Exec.thy ===== *)
theory Exec
  imports File
begin

text \<open>
  Program loading: \<^verbatim>\<open>kernel/exec.c\<close> with the file formats of \<^verbatim>\<open>kernel/elf.h\<close>. The argument
  strings are byte lists without their terminating zero. \<open>LAB_UTIL\<close> is defined in the build, so
  a user stack has two pages.
\<close>

unbundle bit_operations_syntax

abbreviation (input) ELF_MAGIC :: u32 where "ELF_MAGIC \<equiv> 0x464C457F"
abbreviation (input) ELF_PROG_LOAD :: u32 where "ELF_PROG_LOAD \<equiv> 1"
abbreviation (input) MAXARG :: nat where "MAXARG \<equiv> 32"

record elfhdr =
  elf_magic :: u32
  elf_entry :: u64
  elf_phoff :: u64
  elf_phnum :: u16

definition dec_elfhdr :: "byte list \<Rightarrow> elfhdr" where
  "dec_elfhdr d = \<lparr>elf_magic = get32 d 0, elf_entry = get64 d 24, elf_phoff = get64 d 32,
     elf_phnum = get16 d 56\<rparr>"

record proghdr =
  ph_type :: u32
  ph_flags :: u32
  ph_off :: u64
  ph_vaddr :: u64
  ph_filesz :: u64
  ph_memsz :: u64

definition dec_proghdr :: "byte list \<Rightarrow> proghdr" where
  "dec_proghdr d = \<lparr>ph_type = get32 d 0, ph_flags = get32 d 4, ph_off = get64 d 8,
     ph_vaddr = get64 d 16, ph_filesz = get64 d 32, ph_memsz = get64 d 40\<rparr>"

definition flags2perm :: "u32 \<Rightarrow> u64" where
  "flags2perm flags =
     (let perm = (if flags AND 1 \<noteq> 0 then PTE_X else 0) in
      if flags AND 2 \<noteq> 0 then perm OR PTE_W else perm)"

primrec loadseg_loop :: "nat \<Rightarrow> addr \<Rightarrow> u64 \<Rightarrow> nat \<Rightarrow> u32 \<Rightarrow> u32 \<Rightarrow> u32 \<Rightarrow> kstate \<Rightarrow> int kres" where
  "loadseg_loop 0 pagetable va ip offset sz i s = Block s"
| "loadseg_loop (Suc k) pagetable va ip offset sz i s =
     (if i < sz then
        bind (walkaddr pagetable (va + ucast i) s) (\<lambda>pa s.
        if pa = 0 then Panic ''loadseg: address should exist''
        else
          let n = (if sz - i < 4096 then sz - i else 4096) in
          bind (readi ip (KernDst pa) (offset + i) n s) (\<lambda>(r, _) s.
          if r \<noteq> sint n then Ok (- 1) s
          else loadseg_loop k pagetable va ip offset sz (i + 4096) s))
      else Ok 0 s)"

definition loadseg :: "addr \<Rightarrow> u64 \<Rightarrow> nat \<Rightarrow> u32 \<Rightarrow> u32 \<Rightarrow> kstate \<Rightarrow> int kres" where
  "loadseg pagetable va ip offset sz s =
     loadseg_loop (unat sz div PGSIZE + 2) pagetable va ip offset sz 0 s"

text \<open>The loop over the program headers: whether all were loaded, and the size reached.\<close>

primrec kexec_load :: "nat \<Rightarrow> addr \<Rightarrow> nat \<Rightarrow> u32 \<Rightarrow> u64 \<Rightarrow> kstate \<Rightarrow> (bool \<times> u64) kres" where
  "kexec_load 0 pagetable ip off sz s = Ok (True, sz) s"
| "kexec_load (Suc k) pagetable ip off sz s =
     bind (readi ip LocalDst off 56 s) (\<lambda>(r, bs) s.
     let ph = dec_proghdr bs in
     if r \<noteq> 56 then Ok (False, sz) s
     else if ph_type ph \<noteq> ELF_PROG_LOAD then kexec_load k pagetable ip (off + 56) sz s
     else if ph_memsz ph < ph_filesz ph then Ok (False, sz) s
     else if ph_vaddr ph + ph_memsz ph < ph_vaddr ph then Ok (False, sz) s
     else if ph_vaddr ph mod 4096 \<noteq> 0 then Ok (False, sz) s
     else
       bind (uvmalloc pagetable sz (ph_vaddr ph + ph_memsz ph) (flags2perm (ph_flags ph)) s) (\<lambda>sz1 s.
       if sz1 = 0 then Ok (False, sz) s
       else
         bind (loadseg pagetable (ph_vaddr ph) ip (ucast (ph_off ph)) (ucast (ph_filesz ph)) s) (\<lambda>r s.
         if r < 0 then Ok (False, sz1) s
         else kexec_load k pagetable ip (off + 56) sz1 s)))"

text \<open>The argument strings: their addresses and the stack pointer below them, or \<open>None\<close> for the
  jump to \<open>bad\<close>.\<close>

fun kexec_args :: "byte list list \<Rightarrow> nat \<Rightarrow> addr \<Rightarrow> u64 \<Rightarrow> u64 \<Rightarrow> u64 list \<Rightarrow> kstate
    \<Rightarrow> (u64 list \<times> u64) option kres" where
  "kexec_args [] argc pagetable sp stackbase ustack s = Ok (Some (ustack, sp)) s"
| "kexec_args (a # as) argc pagetable sp stackbase ustack s =
     (if argc \<ge> MAXARG then Ok None s
      else
        let sp = sp - (of_nat (length a) + 1); sp = sp - sp mod 16 in
        if sp < stackbase then Ok None s
        else
          bind (copyout pagetable sp (a @ [0]) s) (\<lambda>r s.
          if r < 0 then Ok None s
          else kexec_args as (Suc argc) pagetable sp stackbase (ustack @ [sp]) s))"

text \<open>\<open>safestrcpy\<close> into an array of \<open>n\<close> bytes.\<close>

definition safestrcpy_list :: "byte list \<Rightarrow> byte list \<Rightarrow> nat \<Rightarrow> byte list" where
  "safestrcpy_list dst src n =
     (let k = takeWhile (\<lambda>c. c \<noteq> 0) (take (n - 1) src) in k @ [0] @ drop (length k + 1) dst)"

definition last_elem :: "byte list \<Rightarrow> byte list" where
  "last_elem path = rev (takeWhile (\<lambda>c. c \<noteq> SLASH) (rev path))"

definition kexec_bad :: "addr \<Rightarrow> u64 \<Rightarrow> nat option \<Rightarrow> kstate \<Rightarrow> int kres" where
  "kexec_bad pagetable sz ip s =
     bind (if pagetable \<noteq> 0 then proc_freepagetable pagetable sz s else Ok () s) (\<lambda>_ s.
     case ip of
       None \<Rightarrow> Ok (- 1) s
     | Some i \<Rightarrow>
         bind (iunlockput i s) (\<lambda>_ s.
         bind (end_op s) (\<lambda>_ s. Ok (- 1) s)))"

text \<open>\<open>kexec\<close> from the user stack on, when the program has been loaded.\<close>

definition kexec_stack :: "byte list \<Rightarrow> byte list list \<Rightarrow> nat \<Rightarrow> u64 \<Rightarrow> addr \<Rightarrow> u64 \<Rightarrow> kstate \<Rightarrow> int kres" where
  "kexec_stack path argv p entry pagetable sz s =
     (let oldsz = p_sz (procs s p); sz = PGROUNDUP sz in
      bind (uvmalloc pagetable sz (sz + 3 * 4096) PTE_W s) (\<lambda>sz1 s.
      if sz1 = 0 then kexec_bad pagetable sz None s
      else
        let sz = sz1 in
        bind (uvmclear pagetable (sz - 3 * 4096) s) (\<lambda>_ s.
        let stackbase = sz - 2 * 4096 in
        bind (kexec_args argv 0 pagetable sz stackbase [] s) (\<lambda>r s.
        case r of
          None \<Rightarrow> kexec_bad pagetable sz None s
        | Some (ustack, sp) \<Rightarrow>
            let argc = length ustack;
                sp = sp - (of_nat argc + 1) * 8; sp = sp - sp mod 16 in
            if sp < stackbase then kexec_bad pagetable sz None s
            else
              bind (copyout pagetable sp (concat (map (bytes_of 8) (ustack @ [0]))) s) (\<lambda>r s.
              if r < 0 then kexec_bad pagetable sz None s
              else
                let s = tf_set p TF_a1 sp s;
                    s = upd_proc p (\<lambda>q. q\<lparr>p_name := safestrcpy_list (p_name q) (last_elem path) 16\<rparr>) s;
                    oldpagetable = p_pagetable (procs s p);
                    s = upd_proc p (\<lambda>q. q\<lparr>p_pagetable := pagetable, p_sz := sz\<rparr>) s;
                    s = tf_set p TF_epc entry s;
                    s = tf_set p TF_sp sp s in
                bind (proc_freepagetable oldpagetable oldsz s) (\<lambda>_ s.
                Ok (int argc) s))))))"

definition kexec :: "byte list \<Rightarrow> byte list list \<Rightarrow> kstate \<Rightarrow> int kres" where
  "kexec path argv s =
     (case cur s of
        None \<Rightarrow> Panic ''kerneltrap''
      | Some p \<Rightarrow>
          bind (begin_op s) (\<lambda>_ s.
          bind (namei path s) (\<lambda>ip s.
          case ip of
            None \<Rightarrow> bind (end_op s) (\<lambda>_ s. Ok (- 1) s)
          | Some ip \<Rightarrow>
              bind (ilock ip s) (\<lambda>_ s.
              bind (readi ip LocalDst 0 64 s) (\<lambda>(r, bs) s.
              let elf = dec_elfhdr bs in
              if r \<noteq> 64 \<or> elf_magic elf \<noteq> ELF_MAGIC then kexec_bad 0 0 (Some ip) s
              else
                bind (proc_pagetable p s) (\<lambda>pagetable s.
                if pagetable = 0 then kexec_bad 0 0 (Some ip) s
                else
                  bind (kexec_load (unat (elf_phnum elf)) pagetable ip (ucast (elf_phoff elf)) 0 s) (\<lambda>(ok, sz) s.
                  if \<not> ok then kexec_bad pagetable sz (Some ip) s
                  else
                    bind (iunlockput ip s) (\<lambda>_ s.
                    bind (end_op s) (\<lambda>_ s.
                    kexec_stack path argv p (elf_entry elf) pagetable sz s)))))))))"

end
