(* ===== verification/Process.thy ===== *)
theory Process
  imports Exec
begin

text \<open>
  The life of a process: \<open>userinit\<close>, \<open>kfork\<close>, \<open>kexit\<close> and \<open>forkret\<close> of \<^verbatim>\<open>kernel/proc.c\<close>, and
  \<open>prepare_return\<close> of \<^verbatim>\<open>kernel/trap.c\<close>.
\<close>

unbundle bit_operations_syntax

abbreviation (input) SSTATUS_SPP :: u64 where "SSTATUS_SPP \<equiv> 0x100"
abbreviation (input) SSTATUS_SPIE :: u64 where "SSTATUS_SPIE \<equiv> 0x20"
abbreviation (input) SSTATUS_SIE :: u64 where "SSTATUS_SIE \<equiv> 2"

abbreviation upd_csr :: "(csrs \<Rightarrow> csrs) \<Rightarrow> kstate \<Rightarrow> kstate" where
  "upd_csr f s \<equiv> s\<lparr>csr := f (csr s)\<rparr>"

definition userinit :: "kstate \<Rightarrow> unit kres" where
  "userinit s =
     bind (allocproc s) (\<lambda>f s.
     let s = s\<lparr>initproc := f\<rparr> in
     case f of
       None \<Rightarrow> Panic ''kerneltrap''
     | Some p \<Rightarrow>
         bind (namei [SLASH] s) (\<lambda>c s.
         release (L_proc p) (upd_proc p (\<lambda>q. q\<lparr>p_cwd := c, p_state := RUNNABLE\<rparr>) s)))"

definition fork_files :: "nat \<Rightarrow> nat \<Rightarrow> kstate \<Rightarrow> unit kres" where
  "fork_files p np s =
     for_each [0..<NOFILE] (\<lambda>i s.
       case p_ofile (procs s p) i of
         None \<Rightarrow> Ok () s
       | Some f \<Rightarrow>
           bind (filedup f s) (\<lambda>f s.
           Ok () (upd_proc np (\<lambda>q. q\<lparr>p_ofile := (p_ofile q)(i := Some f)\<rparr>) s))) s"

definition kfork :: "kstate \<Rightarrow> int kres" where
  "kfork s =
     (case cur s of
        None \<Rightarrow> Panic ''kerneltrap''
      | Some p \<Rightarrow>
          bind (allocproc s) (\<lambda>f s.
          case f of
            None \<Rightarrow> Ok (- 1) s
          | Some np \<Rightarrow>
              bind (uvmcopy (p_pagetable (procs s p)) (p_pagetable (procs s np)) (p_sz (procs s p)) s) (\<lambda>r s.
              if r < 0 then
                bind (freeproc np s) (\<lambda>_ s.
                bind (release (L_proc np) s) (\<lambda>_ s. Ok (- 1) s))
              else
                let s = upd_proc np (\<lambda>q. q\<lparr>p_sz := p_sz (procs s p)\<rparr>) s;
                    s = s\<lparr>mem := mem_write (mem s) (p_trapframe (procs s np))
                          (mem_read (mem s) (p_trapframe (procs s p)) TF_SIZE)\<rparr>;
                    s = tf_set np TF_a0 0 s in
                bind (fork_files p np s) (\<lambda>_ s.
                bind (case p_cwd (procs s p) of None \<Rightarrow> Panic ''kerneltrap'' | Some c \<Rightarrow> idup c s) (\<lambda>c s.
                let s = upd_proc np (\<lambda>q. q\<lparr>p_cwd := Some c,
                          p_name := safestrcpy_list (p_name q) (p_name (procs s p)) 16\<rparr>) s;
                    pid = p_pid (procs s np) in
                bind (release (L_proc np) s) (\<lambda>_ s.
                bind (acquire L_wait s) (\<lambda>_ s.
                bind (release L_wait (upd_proc np (\<lambda>q. q\<lparr>p_parent := Some p\<rparr>) s)) (\<lambda>_ s.
                bind (acquire (L_proc np) s) (\<lambda>_ s.
                bind (release (L_proc np) (upd_proc np (\<lambda>q. q\<lparr>p_state := RUNNABLE\<rparr>) s)) (\<lambda>_ s.
                Ok pid s))))))))))"

definition exit_files :: "nat \<Rightarrow> kstate \<Rightarrow> unit kres" where
  "exit_files p s =
     for_each [0..<NOFILE] (\<lambda>fd s.
       case p_ofile (procs s p) fd of
         None \<Rightarrow> Ok () s
       | Some f \<Rightarrow>
           bind (fileclose f s) (\<lambda>_ s.
           Ok () (upd_proc p (\<lambda>q. q\<lparr>p_ofile := (p_ofile q)(fd := None)\<rparr>) s))) s"

text \<open>\<open>kexit\<close> ends in \<open>sched\<close> and never returns.\<close>

definition kexit :: "int \<Rightarrow> kstate \<Rightarrow> 'a kres" where
  "kexit status s =
     (case cur s of
        None \<Rightarrow> Panic ''kerneltrap''
      | Some p \<Rightarrow>
          if Some p = initproc s then Panic ''init exiting''
          else
            bind (exit_files p s) (\<lambda>_ s.
            bind (begin_op s) (\<lambda>_ s.
            bind (case p_cwd (procs s p) of None \<Rightarrow> Panic ''kerneltrap'' | Some c \<Rightarrow> iput c s) (\<lambda>_ s.
            bind (end_op s) (\<lambda>_ s.
            bind (acquire L_wait (upd_proc p (\<lambda>q. q\<lparr>p_cwd := None\<rparr>) s)) (\<lambda>_ s.
            bind (reparent p s) (\<lambda>_ s.
            bind (wakeup_ptr (p_parent (procs s p)) s) (\<lambda>_ s.
            bind (acquire (L_proc p) s) (\<lambda>_ s.
            bind (release L_wait (upd_proc p (\<lambda>q. q\<lparr>p_xstate := status, p_state := ZOMBIE\<rparr>) s)) (\<lambda>_ s.
            sched s))))))))))"

definition prepare_return :: "kstate \<Rightarrow> unit kres" where
  "prepare_return s =
     (case cur s of
        None \<Rightarrow> Panic ''kerneltrap''
      | Some p \<Rightarrow>
          let s = upd_csr (\<lambda>c. c\<lparr>c_sstatus := c_sstatus c AND NOT SSTATUS_SIE\<rparr>) s;
              s = upd_csr (\<lambda>c. c\<lparr>c_stvec := TRAMPOLINE + (y_uservec (syms s) - y_trampoline (syms s))\<rparr>) s;
              s = tf_set p TF_kernel_satp (c_satp (csr s)) s;
              s = tf_set p TF_kernel_sp (p_kstack (procs s p) + 4096) s;
              s = tf_set p TF_kernel_trap (y_usertrap (syms s)) s;
              s = tf_set p TF_kernel_hartid (c_tp (csr s)) s;
              s = upd_csr (\<lambda>c. c\<lparr>c_sstatus := (c_sstatus c AND NOT SSTATUS_SPP) OR SSTATUS_SPIE\<rparr>) s in
          Ok () (upd_csr (\<lambda>c. c\<lparr>c_sepc := tf_get p TF_epc s\<rparr>) s))"

text \<open>\<open>forkret\<close>, up to the jump to the trampoline: the page table it switches to.\<close>

definition init_path :: "byte list" where
  "init_path = [0x2F, 0x69, 0x6E, 0x69, 0x74]"

definition forkret :: "kstate \<Rightarrow> u64 kres" where
  "forkret s =
     (case cur s of
        None \<Rightarrow> Panic ''kerneltrap''
      | Some p \<Rightarrow>
          bind (release (L_proc p) s) (\<lambda>_ s.
          bind (if first s then
                  bind (fsinit ROOTDEV s) (\<lambda>_ s.
                  bind (kexec init_path [init_path] (s\<lparr>first := False\<rparr>)) (\<lambda>r s.
                  let s = tf_set p TF_a0 (of_int r) s in
                  if tf_get p TF_a0 s = - 1 then Panic ''exec'' else Ok () s))
                else Ok () s) (\<lambda>_ s.
          bind (prepare_return s) (\<lambda>_ s.
          Ok (MAKE_SATP (p_pagetable (procs s p))) s))))"

end
