(* ===== verification/Syscall.thy ===== *)
theory Syscall
  imports Process
begin

text \<open>
  System calls: argument fetching and dispatch of \<^verbatim>\<open>kernel/syscall.c\<close>, and the calls of
  \<^verbatim>\<open>kernel/sysproc.c\<close> and \<^verbatim>\<open>kernel/sysfile.c\<close>. A call returns the 64-bit value that goes to
  register \<open>a0\<close>. Strings fetched from user memory are byte lists without the terminating zero.
\<close>

unbundle bit_operations_syntax

abbreviation (input) MAXPATH :: nat where "MAXPATH \<equiv> 128"
abbreviation (input) O_WRONLY :: int where "O_WRONLY \<equiv> 1"
abbreviation (input) O_RDWR :: int where "O_RDWR \<equiv> 2"
abbreviation (input) O_CREATE :: int where "O_CREATE \<equiv> 0x200"
abbreviation (input) O_TRUNC :: int where "O_TRUNC \<equiv> 0x400"
abbreviation (input) SBRK_EAGER :: int where "SBRK_EAGER \<equiv> 1"

section \<open>Arguments\<close>

text \<open>\<open>with_proc\<close> is the use of \<open>myproc()\<close>, which is null in no system call.\<close>

definition with_proc :: "(nat \<Rightarrow> kstate \<Rightarrow> 'a kres) \<Rightarrow> kstate \<Rightarrow> 'a kres" where
  "with_proc f s = (case cur s of None \<Rightarrow> Panic ''kerneltrap'' | Some p \<Rightarrow> f p s)"

definition fetchaddr :: "u64 \<Rightarrow> kstate \<Rightarrow> u64 option kres" where
  "fetchaddr addr s = with_proc (\<lambda>p s.
     if addr \<ge> p_sz (procs s p) \<or> addr + 8 > p_sz (procs s p) then Ok None s
     else
       bind (copyin (p_pagetable (procs s p)) addr 8 s) (\<lambda>(r, bs) s.
       Ok (if r \<noteq> 0 then None else Some (word_of bs)) s)) s"

text \<open>The length of the string and the string; -1 on failure.\<close>

definition fetchstr :: "u64 \<Rightarrow> nat \<Rightarrow> kstate \<Rightarrow> (int \<times> byte list) kres" where
  "fetchstr addr mx s = with_proc (\<lambda>p s.
     bind (copyinstr (p_pagetable (procs s p)) addr mx s) (\<lambda>(r, bs) s.
     if r < 0 then Ok (- 1, bs) s
     else let t = takeWhile (\<lambda>c. c \<noteq> 0) bs in Ok (int (length t), t) s)) s"

definition argraw :: "nat \<Rightarrow> kstate \<Rightarrow> u64 kres" where
  "argraw n s = with_proc (\<lambda>p s.
     if n < 6 then Ok (tf_get p (112 + 8 * of_nat n) s) s else Panic ''argraw'') s"

definition argint :: "nat \<Rightarrow> kstate \<Rightarrow> int kres" where
  "argint n s = bind (argraw n s) (\<lambda>w s. Ok (sint (ucast w :: u32)) s)"

definition argaddr :: "nat \<Rightarrow> kstate \<Rightarrow> u64 kres" where
  "argaddr n s = argraw n s"

definition argstr :: "nat \<Rightarrow> nat \<Rightarrow> kstate \<Rightarrow> (int \<times> byte list) kres" where
  "argstr n mx s = bind (argaddr n s) (\<lambda>a s. fetchstr a mx s)"

text \<open>The descriptor and its file, or \<open>None\<close> for -1.\<close>

definition argfd :: "nat \<Rightarrow> kstate \<Rightarrow> (nat \<times> nat) option kres" where
  "argfd n s =
     bind (argint n s) (\<lambda>fd s. with_proc (\<lambda>p s.
     if fd < 0 \<or> fd \<ge> int NOFILE then Ok None s
     else case p_ofile (procs s p) (nat fd) of
       None \<Rightarrow> Ok None s
     | Some f \<Rightarrow> Ok (Some (nat fd, f)) s) s)"

definition fdalloc :: "nat \<Rightarrow> kstate \<Rightarrow> int kres" where
  "fdalloc f s = with_proc (\<lambda>p s.
     case List.find (\<lambda>fd. p_ofile (procs s p) fd = None) [0..<NOFILE] of
       None \<Rightarrow> Ok (- 1) s
     | Some fd \<Rightarrow> Ok (int fd) (upd_proc p (\<lambda>q. q\<lparr>p_ofile := (p_ofile q)(fd := Some f)\<rparr>) s)) s"

section \<open>kernel/sysproc.c\<close>

definition sys_exit :: "kstate \<Rightarrow> u64 kres" where
  "sys_exit s = bind (argint 0 s) (\<lambda>n s. kexit n s)"

definition sys_getpid :: "kstate \<Rightarrow> u64 kres" where
  "sys_getpid s = with_proc (\<lambda>p s. Ok (of_int (p_pid (procs s p))) s) s"

definition sys_fork :: "kstate \<Rightarrow> u64 kres" where
  "sys_fork s = bind (kfork s) (\<lambda>r s. Ok (of_int r) s)"

definition sys_wait :: "kstate \<Rightarrow> u64 kres" where
  "sys_wait s = bind (argaddr 0 s) (\<lambda>p s. bind (kwait p s) (\<lambda>r s. Ok (of_int r) s))"

definition sys_sbrk :: "kstate \<Rightarrow> u64 kres" where
  "sys_sbrk s =
     bind (argint 0 s) (\<lambda>n s.
     bind (argint 1 s) (\<lambda>t s. with_proc (\<lambda>p s.
     let addr = p_sz (procs s p) in
     if t = SBRK_EAGER \<or> n < 0 then
       bind (growproc n s) (\<lambda>r s. Ok (if r < 0 then - 1 else addr) s)
     else if addr + of_int n < addr then Ok (- 1) s
     else Ok addr (upd_proc p (\<lambda>q. q\<lparr>p_sz := p_sz q + of_int n\<rparr>) s)) s))"

text \<open>The loop of \<open>sys_pause\<close>; a sleeper that is woken runs it again. \<open>n\<close> is compared as an
  unsigned number.\<close>

definition sys_pause_loop :: "int \<Rightarrow> u32 \<Rightarrow> kstate \<Rightarrow> u64 kres" where
  "sys_pause_loop n ticks0 s = with_proc (\<lambda>p s.
     if ticks s - ticks0 < of_int n then
       bind (killed p s) (\<lambda>k s.
       if k then bind (release L_tickslock s) (\<lambda>_ s. Ok (- 1) s)
       else sleep Ch_ticks L_tickslock s)
     else bind (release L_tickslock s) (\<lambda>_ s. Ok 0 s)) s"

definition sys_pause :: "kstate \<Rightarrow> u64 kres" where
  "sys_pause s =
     bind (argint 0 s) (\<lambda>n s.
     bind (acquire L_tickslock s) (\<lambda>_ s.
     sys_pause_loop (if n < 0 then 0 else n) (ticks s) s))"

definition sys_kill :: "kstate \<Rightarrow> u64 kres" where
  "sys_kill s = bind (argint 0 s) (\<lambda>pid s. bind (kkill pid s) (\<lambda>r s. Ok (of_int r) s))"

definition sys_uptime :: "kstate \<Rightarrow> u64 kres" where
  "sys_uptime s =
     bind (acquire L_tickslock s) (\<lambda>_ s.
     let x = ticks s in
     bind (release L_tickslock s) (\<lambda>_ s. Ok (ucast x) s))"

section \<open>kernel/sysfile.c: descriptors\<close>

definition sys_dup :: "kstate \<Rightarrow> u64 kres" where
  "sys_dup s =
     bind (argfd 0 s) (\<lambda>r s.
     case r of
       None \<Rightarrow> Ok (- 1) s
     | Some (_, f) \<Rightarrow>
         bind (fdalloc f s) (\<lambda>fd s.
         if fd < 0 then Ok (- 1) s
         else bind (filedup f s) (\<lambda>_ s. Ok (of_int fd) s)))"

definition sys_read :: "kstate \<Rightarrow> u64 kres" where
  "sys_read s =
     bind (argaddr 1 s) (\<lambda>p s.
     bind (argint 2 s) (\<lambda>n s.
     bind (argfd 0 s) (\<lambda>r s.
     case r of
       None \<Rightarrow> Ok (- 1) s
     | Some (_, f) \<Rightarrow> bind (fileread f p n s) (\<lambda>r s. Ok (of_int r) s))))"

definition sys_write :: "kstate \<Rightarrow> u64 kres" where
  "sys_write s =
     bind (argaddr 1 s) (\<lambda>p s.
     bind (argint 2 s) (\<lambda>n s.
     bind (argfd 0 s) (\<lambda>r s.
     case r of
       None \<Rightarrow> Ok (- 1) s
     | Some (_, f) \<Rightarrow> bind (filewrite f p n s) (\<lambda>r s. Ok (of_int r) s))))"

definition sys_close :: "kstate \<Rightarrow> u64 kres" where
  "sys_close s =
     bind (argfd 0 s) (\<lambda>r s.
     case r of
       None \<Rightarrow> Ok (- 1) s
     | Some (fd, f) \<Rightarrow> with_proc (\<lambda>p s.
         bind (fileclose f (upd_proc p (\<lambda>q. q\<lparr>p_ofile := (p_ofile q)(fd := None)\<rparr>) s)) (\<lambda>_ s.
         Ok 0 s)) s)"

definition sys_fstat :: "kstate \<Rightarrow> u64 kres" where
  "sys_fstat s =
     bind (argaddr 1 s) (\<lambda>st s.
     bind (argfd 0 s) (\<lambda>r s.
     case r of
       None \<Rightarrow> Ok (- 1) s
     | Some (_, f) \<Rightarrow> bind (filestat f st s) (\<lambda>r s. Ok (of_int r) s)))"

section \<open>kernel/sysfile.c: names\<close>

text \<open>\<open>end_op\<close> followed by a return of -1.\<close>

definition end_fail :: "kstate \<Rightarrow> u64 kres" where
  "end_fail s = bind (end_op s) (\<lambda>_ s. Ok (- 1) s)"

definition sys_link_bad :: "nat \<Rightarrow> kstate \<Rightarrow> u64 kres" where
  "sys_link_bad ip s =
     bind (ilock ip s) (\<lambda>_ s.
     bind (iupdate ip (upd_inode ip (\<lambda>x. x\<lparr>i_nlink := i_nlink x - 1\<rparr>) s)) (\<lambda>_ s.
     bind (iunlockput ip s) (\<lambda>_ s.
     end_fail s)))"

definition link_at :: "byte list \<Rightarrow> nat \<Rightarrow> kstate \<Rightarrow> u64 kres" where
  "link_at new ip s =
     bind (nameiparent new s) (\<lambda>(dp, name) s.
     case dp of
       None \<Rightarrow> sys_link_bad ip s
     | Some dp \<Rightarrow>
         bind (ilock dp s) (\<lambda>_ s.
         bind (if i_dev (inodes s dp) \<noteq> i_dev (inodes s ip) then Ok (- 1) s
               else dirlink dp name (i_inum (inodes s ip)) s) (\<lambda>r s.
         if r < 0 then bind (iunlockput dp s) (\<lambda>_ s. sys_link_bad ip s)
         else
           bind (iunlockput dp s) (\<lambda>_ s.
           bind (iput ip s) (\<lambda>_ s.
           bind (end_op s) (\<lambda>_ s. Ok 0 s))))))"

definition sys_link :: "kstate \<Rightarrow> u64 kres" where
  "sys_link s =
     bind (argstr 0 MAXPATH s) (\<lambda>(r0, old) s.
     if r0 < 0 then Ok (- 1) s
     else bind (argstr 1 MAXPATH s) (\<lambda>(r1, new) s.
     if r1 < 0 then Ok (- 1) s
     else
       bind (begin_op s) (\<lambda>_ s.
       bind (namei old s) (\<lambda>f s.
       case f of
         None \<Rightarrow> end_fail s
       | Some ip \<Rightarrow>
           bind (ilock ip s) (\<lambda>_ s.
           if i_type (inodes s ip) = T_DIR then bind (iunlockput ip s) (\<lambda>_ s. end_fail s)
           else
             bind (iupdate ip (upd_inode ip (\<lambda>x. x\<lparr>i_nlink := i_nlink x + 1\<rparr>) s)) (\<lambda>_ s.
             bind (iunlock ip s) (\<lambda>_ s.
             link_at new ip s)))))))"

primrec isdirempty_loop :: "nat \<Rightarrow> nat \<Rightarrow> u32 \<Rightarrow> kstate \<Rightarrow> bool kres" where
  "isdirempty_loop 0 dp off s = Block s"
| "isdirempty_loop (Suc k) dp off s =
     (if off < i_size (inodes s dp) then
        bind (readi dp LocalDst off 16 s) (\<lambda>(r, de) s.
        if r \<noteq> 16 then Panic ''isdirempty: readi''
        else if de_inum de \<noteq> 0 then Ok False s
        else isdirempty_loop k dp (off + 16) s)
      else Ok True s)"

definition isdirempty :: "nat \<Rightarrow> kstate \<Rightarrow> bool kres" where
  "isdirempty dp s = isdirempty_loop (unat (i_size (inodes s dp)) div 16 + 2) dp 32 s"

definition sys_unlink_bad :: "nat \<Rightarrow> kstate \<Rightarrow> u64 kres" where
  "sys_unlink_bad dp s = bind (iunlockput dp s) (\<lambda>_ s. end_fail s)"

definition unlink_entry :: "nat \<Rightarrow> nat \<Rightarrow> u32 \<Rightarrow> kstate \<Rightarrow> u64 kres" where
  "unlink_entry dp ip off s =
     bind (writei dp (LocalSrc (replicate 16 0)) off 16 s) (\<lambda>r s.
     if r \<noteq> 16 then Panic ''unlink: writei''
     else
       bind (if i_type (inodes s ip) = T_DIR
             then iupdate dp (upd_inode dp (\<lambda>x. x\<lparr>i_nlink := i_nlink x - 1\<rparr>) s)
             else Ok () s) (\<lambda>_ s.
       bind (iunlockput dp s) (\<lambda>_ s.
       bind (iupdate ip (upd_inode ip (\<lambda>x. x\<lparr>i_nlink := i_nlink x - 1\<rparr>) s)) (\<lambda>_ s.
       bind (iunlockput ip s) (\<lambda>_ s.
       bind (end_op s) (\<lambda>_ s.
       Ok 0 s))))))"

definition sys_unlink :: "kstate \<Rightarrow> u64 kres" where
  "sys_unlink s =
     bind (argstr 0 MAXPATH s) (\<lambda>(r, path) s.
     if r < 0 then Ok (- 1) s
     else
       bind (begin_op s) (\<lambda>_ s.
       bind (nameiparent path s) (\<lambda>(f, name) s.
       case f of
         None \<Rightarrow> end_fail s
       | Some dp \<Rightarrow>
           bind (ilock dp s) (\<lambda>_ s.
           if namecmp name [0x2E] = 0 \<or> namecmp name [0x2E, 0x2E] = 0 then sys_unlink_bad dp s
           else
             bind (dirlookup dp name s) (\<lambda>g s.
             case g of
               None \<Rightarrow> sys_unlink_bad dp s
             | Some (ip, off) \<Rightarrow>
                 bind (ilock ip s) (\<lambda>_ s.
                 if sint (i_nlink (inodes s ip)) < 1 then Panic ''unlink: nlink < 1''
                 else
                   bind (if i_type (inodes s ip) = T_DIR then isdirempty ip s else Ok True s) (\<lambda>e s.
                   if \<not> e then bind (iunlockput ip s) (\<lambda>_ s. sys_unlink_bad dp s)
                   else unlink_entry dp ip off s)))))))"

definition create_fail :: "nat \<Rightarrow> nat \<Rightarrow> kstate \<Rightarrow> nat option kres" where
  "create_fail dp ip s =
     bind (iupdate ip (upd_inode ip (\<lambda>x. x\<lparr>i_nlink := 0\<rparr>) s)) (\<lambda>_ s.
     bind (iunlockput ip s) (\<lambda>_ s.
     bind (iunlockput dp s) (\<lambda>_ s.
     Ok None s)))"

definition create_new :: "nat \<Rightarrow> byte list \<Rightarrow> u16 \<Rightarrow> u16 \<Rightarrow> u16 \<Rightarrow> kstate \<Rightarrow> nat option kres" where
  "create_new dp name typ major minor s =
     bind (ialloc (i_dev (inodes s dp)) typ s) (\<lambda>f s.
     case f of
       None \<Rightarrow> bind (iunlockput dp s) (\<lambda>_ s. Ok None s)
     | Some ip \<Rightarrow>
         bind (ilock ip s) (\<lambda>_ s.
         bind (iupdate ip (upd_inode ip (\<lambda>x. x\<lparr>i_major := major, i_minor := minor, i_nlink := 1\<rparr>) s)) (\<lambda>_ s.
         bind (if typ = T_DIR then
                 bind (dirlink ip [0x2E] (i_inum (inodes s ip)) s) (\<lambda>r s.
                 if r < 0 then Ok r s else dirlink ip [0x2E, 0x2E] (i_inum (inodes s dp)) s)
               else Ok 0 s) (\<lambda>r s.
         if r < 0 then create_fail dp ip s
         else
           bind (dirlink dp name (i_inum (inodes s ip)) s) (\<lambda>r s.
           if r < 0 then create_fail dp ip s
           else
             bind (if typ = T_DIR
                   then iupdate dp (upd_inode dp (\<lambda>x. x\<lparr>i_nlink := i_nlink x + 1\<rparr>) s)
                   else Ok () s) (\<lambda>_ s.
             bind (iunlockput dp s) (\<lambda>_ s.
             Ok (Some ip) s)))))))"

definition create :: "byte list \<Rightarrow> u16 \<Rightarrow> u16 \<Rightarrow> u16 \<Rightarrow> kstate \<Rightarrow> nat option kres" where
  "create path typ major minor s =
     bind (nameiparent path s) (\<lambda>(f, name) s.
     case f of
       None \<Rightarrow> Ok None s
     | Some dp \<Rightarrow>
         bind (ilock dp s) (\<lambda>_ s.
         bind (dirlookup dp name s) (\<lambda>g s.
         case g of
           Some (ip, _) \<Rightarrow>
             bind (iunlockput dp s) (\<lambda>_ s.
             bind (ilock ip s) (\<lambda>_ s.
             if typ = T_FILE \<and> (i_type (inodes s ip) = T_FILE \<or> i_type (inodes s ip) = T_DEVICE)
             then Ok (Some ip) s
             else bind (iunlockput ip s) (\<lambda>_ s. Ok None s)))
         | None \<Rightarrow> create_new dp name typ major minor s)))"

section \<open>kernel/sysfile.c: open, directories, exec, pipe\<close>

text \<open>\<open>sys_open\<close> with the inode locked.\<close>

definition open_inode :: "nat \<Rightarrow> int \<Rightarrow> kstate \<Rightarrow> u64 kres" where
  "open_inode ip omode s =
     (if i_type (inodes s ip) = T_DEVICE
         \<and> (sint (i_major (inodes s ip)) < 0 \<or> sint (i_major (inodes s ip)) \<ge> int NDEV)
      then bind (iunlockput ip s) (\<lambda>_ s. end_fail s)
      else
        bind (filealloc s) (\<lambda>ff s.
        bind (case ff of None \<Rightarrow> Ok (- 1) s | Some f \<Rightarrow> fdalloc f s) (\<lambda>fd s.
        case ff of
          None \<Rightarrow> bind (iunlockput ip s) (\<lambda>_ s. end_fail s)
        | Some f \<Rightarrow>
            if fd < 0 then
              bind (fileclose f s) (\<lambda>_ s.
              bind (iunlockput ip s) (\<lambda>_ s. end_fail s))
            else
              let s = (if i_type (inodes s ip) = T_DEVICE
                       then upd_file f (\<lambda>x. x\<lparr>f_type := FD_DEVICE, f_major := i_major (inodes s ip)\<rparr>) s
                       else upd_file f (\<lambda>x. x\<lparr>f_type := FD_INODE, f_off := 0\<rparr>) s);
                  s = upd_file f (\<lambda>x. x\<lparr>f_ip := ip, f_readable := (omode AND O_WRONLY = 0),
                        f_writable := (omode AND O_WRONLY \<noteq> 0 \<or> omode AND O_RDWR \<noteq> 0)\<rparr>) s in
              bind (if omode AND O_TRUNC \<noteq> 0 \<and> i_type (inodes s ip) = T_FILE then itrunc ip s
                    else Ok () s) (\<lambda>_ s.
              bind (iunlock ip s) (\<lambda>_ s.
              bind (end_op s) (\<lambda>_ s.
              Ok (of_int fd) s))))))"

definition sys_open :: "kstate \<Rightarrow> u64 kres" where
  "sys_open s =
     bind (argint 1 s) (\<lambda>omode s.
     bind (argstr 0 MAXPATH s) (\<lambda>(n, path) s.
     if n < 0 then Ok (- 1) s
     else
       bind (begin_op s) (\<lambda>_ s.
       if omode AND O_CREATE \<noteq> 0 then
         bind (create path T_FILE 0 0 s) (\<lambda>f s.
         case f of None \<Rightarrow> end_fail s | Some ip \<Rightarrow> open_inode ip omode s)
       else
         bind (namei path s) (\<lambda>f s.
         case f of
           None \<Rightarrow> end_fail s
         | Some ip \<Rightarrow>
             bind (ilock ip s) (\<lambda>_ s.
             if i_type (inodes s ip) = T_DIR \<and> omode \<noteq> 0 then
               bind (iunlockput ip s) (\<lambda>_ s. end_fail s)
             else open_inode ip omode s)))))"

definition sys_mkdir :: "kstate \<Rightarrow> u64 kres" where
  "sys_mkdir s =
     bind (begin_op s) (\<lambda>_ s.
     bind (argstr 0 MAXPATH s) (\<lambda>(n, path) s.
     bind (if n < 0 then Ok None s else create path T_DIR 0 0 s) (\<lambda>f s.
     case f of
       None \<Rightarrow> end_fail s
     | Some ip \<Rightarrow>
         bind (iunlockput ip s) (\<lambda>_ s.
         bind (end_op s) (\<lambda>_ s. Ok 0 s)))))"

definition sys_mknod :: "kstate \<Rightarrow> u64 kres" where
  "sys_mknod s =
     bind (begin_op s) (\<lambda>_ s.
     bind (argint 1 s) (\<lambda>major s.
     bind (argint 2 s) (\<lambda>minor s.
     bind (argstr 0 MAXPATH s) (\<lambda>(n, path) s.
     bind (if n < 0 then Ok None s else create path T_DEVICE (of_int major) (of_int minor) s) (\<lambda>f s.
     case f of
       None \<Rightarrow> end_fail s
     | Some ip \<Rightarrow>
         bind (iunlockput ip s) (\<lambda>_ s.
         bind (end_op s) (\<lambda>_ s. Ok 0 s)))))))"

definition sys_chdir :: "kstate \<Rightarrow> u64 kres" where
  "sys_chdir s = with_proc (\<lambda>p s.
     bind (begin_op s) (\<lambda>_ s.
     bind (argstr 0 MAXPATH s) (\<lambda>(n, path) s.
     bind (if n < 0 then Ok None s else namei path s) (\<lambda>f s.
     case f of
       None \<Rightarrow> end_fail s
     | Some ip \<Rightarrow>
         bind (ilock ip s) (\<lambda>_ s.
         if i_type (inodes s ip) \<noteq> T_DIR then bind (iunlockput ip s) (\<lambda>_ s. end_fail s)
         else
           bind (iunlock ip s) (\<lambda>_ s.
           bind (case p_cwd (procs s p) of None \<Rightarrow> Panic ''kerneltrap'' | Some c \<Rightarrow> iput c s) (\<lambda>_ s.
           bind (end_op s) (\<lambda>_ s.
           Ok 0 (upd_proc p (\<lambda>q. q\<lparr>p_cwd := Some ip\<rparr>) s))))))))) s"

text \<open>The argument loop of \<open>sys_exec\<close>: whether it reached the null pointer, and the pages of the
  strings.\<close>

primrec sys_exec_args :: "nat \<Rightarrow> nat \<Rightarrow> u64 \<Rightarrow> addr list \<Rightarrow> kstate \<Rightarrow> (bool \<times> addr list) kres" where
  "sys_exec_args 0 i uargv pgs s = Block s"
| "sys_exec_args (Suc k) i uargv pgs s =
     (if i \<ge> MAXARG then Ok (False, pgs) s
      else
        bind (fetchaddr (uargv + 8 * of_nat i) s) (\<lambda>r s.
        case r of
          None \<Rightarrow> Ok (False, pgs) s
        | Some uarg \<Rightarrow>
            if uarg = 0 then Ok (True, pgs) s
            else
              bind (kalloc s) (\<lambda>p s.
              if p = 0 then Ok (False, pgs) s
              else
                bind (with_proc (\<lambda>q s. copyinstr (p_pagetable (procs s q)) uarg PGSIZE s) s) (\<lambda>(r, bs) s.
                let s = s\<lparr>mem := mem_write (mem s) p bs\<rparr> in
                if r < 0 then Ok (False, pgs @ [p]) s
                else sys_exec_args k (Suc i) uargv (pgs @ [p]) s))))"

definition page_str :: "memory \<Rightarrow> addr \<Rightarrow> byte list" where
  "page_str m p = takeWhile (\<lambda>c. c \<noteq> 0) (mem_read m p PGSIZE)"

definition sys_exec :: "kstate \<Rightarrow> u64 kres" where
  "sys_exec s =
     bind (argaddr 1 s) (\<lambda>uargv s.
     bind (argstr 0 MAXPATH s) (\<lambda>(n, path) s.
     if n < 0 then Ok (- 1) s
     else
       bind (sys_exec_args (MAXARG + 1) 0 uargv [] s) (\<lambda>(ok, pgs) s.
       bind (if ok then kexec path (map (page_str (mem s)) pgs) s else Ok (- 1) s) (\<lambda>ret s.
       bind (for_each pgs kfree s) (\<lambda>_ s.
       Ok (of_int ret) s)))))"

definition set_ofile :: "nat \<Rightarrow> int \<Rightarrow> kstate \<Rightarrow> kstate" where
  "set_ofile p fd s = upd_proc p (\<lambda>q. q\<lparr>p_ofile := (p_ofile q)(nat fd := None)\<rparr>) s"

definition sys_pipe :: "kstate \<Rightarrow> u64 kres" where
  "sys_pipe s = with_proc (\<lambda>p s.
     bind (argaddr 0 s) (\<lambda>fdarray s.
     bind (pipealloc s) (\<lambda>r s.
     case r of
       None \<Rightarrow> Ok (- 1) s
     | Some (rfile, wfile) \<Rightarrow>
         bind (fdalloc rfile s) (\<lambda>fd0 s.
         bind (if fd0 < 0 then Ok (- 1) s else fdalloc wfile s) (\<lambda>fd1 s.
         if fd0 < 0 \<or> fd1 < 0 then
           let s = (if fd0 \<ge> 0 then set_ofile p fd0 s else s) in
           bind (fileclose rfile s) (\<lambda>_ s.
           bind (fileclose wfile s) (\<lambda>_ s. Ok (- 1) s))
         else
           bind (copyout (p_pagetable (procs s p)) fdarray (bytes_of 4 (of_int fd0 :: u32)) s) (\<lambda>r s.
           bind (if r < 0 then Ok r s
                 else copyout (p_pagetable (procs s p)) (fdarray + 4) (bytes_of 4 (of_int fd1 :: u32)) s) (\<lambda>r s.
           if r < 0 then
             bind (fileclose rfile (set_ofile p fd1 (set_ofile p fd0 s))) (\<lambda>_ s.
             bind (fileclose wfile s) (\<lambda>_ s. Ok (- 1) s))
           else Ok 0 s))))))) s"

section \<open>Dispatch\<close>

definition syscalls :: "int \<Rightarrow> (kstate \<Rightarrow> u64 kres) option" where
  "syscalls num =
     (if 1 \<le> num \<and> num \<le> 21 then
        Some ([sys_fork, sys_exit, sys_wait, sys_pipe, sys_read, sys_kill, sys_exec, sys_fstat,
          sys_chdir, sys_dup, sys_getpid, sys_sbrk, sys_pause, sys_uptime, sys_open, sys_write,
          sys_mknod, sys_unlink, sys_link, sys_mkdir, sys_close] ! nat (num - 1))
      else None)"

definition syscall :: "kstate \<Rightarrow> unit kres" where
  "syscall s = with_proc (\<lambda>p s.
     let num = sint (ucast (tf_get p TF_a7 s) :: u32) in
     case syscalls num of
       Some f \<Rightarrow> bind (f s) (\<lambda>r s. Ok () (tf_set p TF_a0 r s))
     | None \<Rightarrow> Ok () (tf_set p TF_a0 (- 1) (kprintf ''%d %s: unknown sys call %d'' s))) s"

end
