(* ===== verification/Trap.thy ===== *)
theory Trap
  imports Syscall
begin

text \<open>
  Traps: \<^verbatim>\<open>kernel/trap.c\<close> and the claim of an interrupt in \<^verbatim>\<open>kernel/plic.c\<close>. A disk transfer is
  one step of this model, so that the disk's interrupt has nothing left to do here; how the
  driver and the device bring a transfer about is the subject of theory \<open>Virtio\<close>.
\<close>

unbundle bit_operations_syntax

abbreviation (input) UART0_IRQ :: int where "UART0_IRQ \<equiv> 10"
abbreviation (input) VIRTIO0_IRQ :: int where "VIRTIO0_IRQ \<equiv> 1"

definition trapinithart :: "kstate \<Rightarrow> kstate" where
  "trapinithart s = upd_csr (\<lambda>c. c\<lparr>c_stvec := y_kernelvec (syms s)\<rparr>) s"

definition clockintr :: "kstate \<Rightarrow> unit kres" where
  "clockintr s =
     bind (if c_tp (csr s) = 0 then
             bind (acquire L_tickslock s) (\<lambda>_ s.
             bind (wakeup Ch_ticks (s\<lparr>ticks := ticks s + 1\<rparr>)) (\<lambda>_ s.
             release L_tickslock s))
           else Ok () s) (\<lambda>_ s.
     Ok () (upd_csr (\<lambda>c. c\<lparr>c_stimecmp := c_time c + 1000000\<rparr>) s))"

definition plic_claim :: "kstate \<Rightarrow> int \<times> kstate" where
  "plic_claim s =
     (case c_plic (csr s) of
        [] \<Rightarrow> (0, s)
      | i # is \<Rightarrow> (i, upd_csr (\<lambda>c. c\<lparr>c_plic := is, c_serving := i # c_serving c\<rparr>) s))"

definition plic_complete :: "int \<Rightarrow> kstate \<Rightarrow> kstate" where
  "plic_complete irq s = upd_csr (\<lambda>c. c\<lparr>c_serving := remove1 irq (c_serving c)\<rparr>) s"

definition devintr :: "kstate \<Rightarrow> int kres" where
  "devintr s =
     (let scause = c_scause (csr s) in
      if scause = 0x8000000000000009 then
        let (irq, s) = plic_claim s in
        bind (if irq = UART0_IRQ then uartintr s
              else if irq = VIRTIO0_IRQ then Ok () s
              else if irq \<noteq> 0 then Ok () (kprintf ''unexpected interrupt irq=%d'' s)
              else Ok () s) (\<lambda>_ s.
        Ok 1 (if irq \<noteq> 0 then plic_complete irq s else s))
      else if scause = 0x8000000000000005 then bind (clockintr s) (\<lambda>_ s. Ok 2 s)
      else Ok 0 s)"

text \<open>The case distinction of \<open>usertrap\<close>: the value of \<open>which_dev\<close>.\<close>

definition usertrap_cause :: "nat \<Rightarrow> kstate \<Rightarrow> int kres" where
  "usertrap_cause p s =
     (if c_scause (csr s) = 8 then
        bind (killed p s) (\<lambda>k s.
        if k then kexit (- 1) s
        else
          let s = tf_set p TF_epc (tf_get p TF_epc s + 4) s;
              s = upd_csr (\<lambda>c. c\<lparr>c_sstatus := c_sstatus c OR SSTATUS_SIE\<rparr>) s in
          bind (syscall s) (\<lambda>_ s. Ok 0 s))
      else
        bind (devintr s) (\<lambda>which_dev s.
        if which_dev \<noteq> 0 then Ok which_dev s
        else
          bind (if c_scause (csr s) = 15 \<or> c_scause (csr s) = 13
                then vmfault (p_pagetable (procs s p)) (c_stval (csr s)) s else Ok 0 s) (\<lambda>pa s.
          if pa \<noteq> 0 then Ok 0 s
          else
            let s = kprintf ''usertrap(): unexpected scause 0x%lx pid=%d'' s;
                s = kprintf ''            sepc=0x%lx stval=0x%lx'' s in
            bind (setkilled p s) (\<lambda>_ s. Ok 0 s))))"

definition usertrap :: "kstate \<Rightarrow> u64 kres" where
  "usertrap s =
     (if c_sstatus (csr s) AND SSTATUS_SPP \<noteq> 0 then Panic ''usertrap: not from user mode''
      else with_proc (\<lambda>p s.
        let s = tf_set p TF_epc (c_sepc (csr s)) s in
        bind (usertrap_cause p s) (\<lambda>which_dev s.
        bind (killed p s) (\<lambda>k s.
        if k then kexit (- 1) s
        else
          bind (if which_dev = 2 then yield s else Ok () s) (\<lambda>_ s.
          bind (prepare_return s) (\<lambda>_ s.
          Ok (MAKE_SATP (p_pagetable (procs s p))) s))))) (trapinithart s))"

definition kerneltrap :: "kstate \<Rightarrow> unit kres" where
  "kerneltrap s =
     (let sepc = c_sepc (csr s); sstatus = c_sstatus (csr s) in
      if sstatus AND SSTATUS_SPP = 0 then Panic ''kerneltrap: not from supervisor mode''
      else if c_sstatus (csr s) AND SSTATUS_SIE \<noteq> 0 then Panic ''kerneltrap: interrupts enabled''
      else
        bind (devintr s) (\<lambda>which_dev s.
        if which_dev = 0 then Panic ''kerneltrap''
        else
          bind (if which_dev = 2 \<and> cur s \<noteq> None then yield s else Ok () s) (\<lambda>_ s.
          Ok () (upd_csr (\<lambda>c. c\<lparr>c_sepc := sepc, c_sstatus := sstatus\<rparr>) s))))"

end
