(* ===== verification/Devices.thy ===== *)
theory Devices
  imports Prelude
begin

text \<open>
  What runs before \<open>main\<close> and what only programs registers: \<^verbatim>\<open>kernel/start.c\<close>, \<^verbatim>\<open>kernel/plic.c\<close> and
  \<open>uartinit\<close> of \<^verbatim>\<open>kernel/uart.c\<close>. A hart in machine mode is a record of its control registers; the
  inline functions of \<^verbatim>\<open>kernel/riscv.h\<close> read and write its fields. Writes to memory-mapped registers are
  lists of an address and a value.
\<close>

unbundle bit_operations_syntax

section \<open>kernel/start.c\<close>

record mhart =
  m_mstatus :: u64
  m_mepc :: u64
  m_satp :: u64
  m_medeleg :: u64
  m_mideleg :: u64
  m_sie :: u64
  m_pmpaddr0 :: u64
  m_pmpcfg0 :: u64
  m_mie :: u64
  m_menvcfg :: u64
  m_mcounteren :: u64
  m_stimecmp :: u64
  m_time :: u64
  m_mhartid :: u64
  m_tp :: u64
  m_priv :: nat
  m_pc :: u64

definition MSTATUS_MPP_MASK :: u64 where "MSTATUS_MPP_MASK = push_bit 11 3"
definition MSTATUS_MPP_S :: u64 where "MSTATUS_MPP_S = push_bit 11 1"
definition SIE_SEIE :: u64 where "SIE_SEIE = push_bit 9 1"
definition SIE_STIE :: u64 where "SIE_STIE = push_bit 5 1"
definition MIE_STIE :: u64 where "MIE_STIE = push_bit 5 1"

definition timerinit :: "mhart \<Rightarrow> mhart" where
  "timerinit m =
     (let m = m\<lparr>m_mie := m_mie m OR MIE_STIE\<rparr>;
          m = m\<lparr>m_menvcfg := m_menvcfg m OR push_bit 63 1\<rparr>;
          m = m\<lparr>m_mcounteren := m_mcounteren m OR 2\<rparr> in
      m\<lparr>m_stimecmp := m_time m + 1000000\<rparr>)"

text \<open>The instruction \<open>mret\<close>: the mode in the bits MPP, the address in \<open>mepc\<close>.\<close>

definition mret :: "mhart \<Rightarrow> mhart" where
  "mret m = m\<lparr>m_priv := unat (drop_bit 11 (m_mstatus m) AND 3), m_pc := m_mepc m\<rparr>"

definition start :: "u64 \<Rightarrow> mhart \<Rightarrow> mhart" where
  "start main_addr m =
     (let x = m_mstatus m;
          x = x AND NOT MSTATUS_MPP_MASK;
          x = x OR MSTATUS_MPP_S;
          m = m\<lparr>m_mstatus := x\<rparr>;
          m = m\<lparr>m_mepc := main_addr\<rparr>;
          m = m\<lparr>m_satp := 0\<rparr>;
          m = m\<lparr>m_medeleg := 0xFFFF, m_mideleg := 0xFFFF\<rparr>;
          m = m\<lparr>m_sie := m_sie m OR SIE_SEIE OR SIE_STIE\<rparr>;
          m = m\<lparr>m_pmpaddr0 := 0x3FFFFFFFFFFFFF, m_pmpcfg0 := 0xF\<rparr>;
          m = timerinit m;
          hid = (ucast (m_mhartid m) :: u32);
          m = m\<lparr>m_tp := scast hid\<rparr> in
      mret m)"

text \<open>A hart enters \<open>main\<close> in supervisor mode, without paging, with every interrupt and exception
  delegated and all other bits of \<open>mstatus\<close> as they were.\<close>

lemma start_priv: "drop_bit 11 ((x AND NOT MSTATUS_MPP_MASK) OR MSTATUS_MPP_S) AND 3 = (1 :: u64)"
proof -
  have 3: "(3 :: u64) = mask 2" by (simp add: mask_eq_exp_minus_1)
  show ?thesis unfolding MSTATUS_MPP_MASK_def MSTATUS_MPP_S_def 3
    by (rule bit_eqI) (auto simp: bit_simps)
qed

lemma start_enters_main:
  "m_priv (start main_addr m) = 1 \<and> m_pc (start main_addr m) = main_addr \<and> m_satp (start main_addr m) = 0
   \<and> m_medeleg (start main_addr m) = 0xFFFF \<and> m_mideleg (start main_addr m) = 0xFFFF"
  using start_priv [of "m_mstatus m"] by (simp add: start_def timerinit_def mret_def Let_def)

section \<open>kernel/plic.c and uartinit\<close>

type_synonym mmio = "(u64 \<times> u32) list"

definition PLIC :: u64 where "PLIC = 0x0C000000"
definition PLIC_SENABLE :: "u64 \<Rightarrow> u64" where "PLIC_SENABLE hart = PLIC + 0x2080 + hart * 0x100"
definition PLIC_SPRIORITY :: "u64 \<Rightarrow> u64" where "PLIC_SPRIORITY hart = PLIC + 0x201000 + hart * 0x2000"
definition PLIC_SCLAIM :: "u64 \<Rightarrow> u64" where "PLIC_SCLAIM hart = PLIC + 0x201004 + hart * 0x2000"

definition plicinit :: mmio where
  "plicinit = [(PLIC + 10 * 4, 1), (PLIC + 1 * 4, 1)]"

definition plicinithart :: "u64 \<Rightarrow> mmio" where
  "plicinithart hart = [(PLIC_SENABLE hart, push_bit 10 1 OR push_bit 1 1), (PLIC_SPRIORITY hart, 0)]"

definition uartinit :: "(nat \<times> byte) list" where
  "uartinit = [(1, 0x00), (3, push_bit 7 1), (0, 0x03), (1, 0x00), (3, 3), (2, 1 OR push_bit 1 3), (1, 2 OR 1)]"

text \<open>The registers \<open>plicinithart\<close> writes lie in the part of the address space that \<open>kvmmake\<close> maps for the PLIC.\<close>

lemma plicinithart_regs:
  "\<forall>h \<in> {0, 1, 2, 3, 4, 5, 6, 7}. \<forall>(a, x) \<in> set (plicinithart h). PLIC \<le> a \<and> a < PLIC + 0x4000000"
  by (simp add: plicinithart_def PLIC_SENABLE_def PLIC_SPRIORITY_def PLIC_def)

end
