(* ===== verification/Boot.thy ===== *)
theory Boot
  imports Trap Printf Devices
begin

text \<open>
  \<open>main\<close> of \<^verbatim>\<open>kernel/main.c\<close>, up to the call of \<open>scheduler\<close>: \<open>kmain\<close> on the first hart, \<open>kmain_other\<close>
  on the others, and the writes to device registers that \<open>consoleinit\<close>, \<open>plicinit\<close> and
  \<open>plicinithart\<close> make on the way (\<open>main_uart\<close>, \<open>main_plic\<close>; theory \<open>Devices\<close>). The initialisations that
  set a lock to its initial state (\<open>printfinit\<close>, \<open>trapinit\<close>, \<open>fileinit\<close>) have no effect on the state of
  the model. Of \<open>virtio_disk_init\<close> only the allocation of the three pages of the queue is here
  (\<open>virtio_pages\<close>); the registers and the queue itself are in theory \<open>Virtio\<close>.
\<close>

definition booting_msg :: "byte list" where
  "booting_msg = bytes_str ''xv6 kernel is booting'' @ [10]"

definition virtio_pages :: "kstate \<Rightarrow> unit kres" where
  "virtio_pages s =
     bind (kalloc s) (\<lambda>dsc s.
     bind (kalloc s) (\<lambda>av s.
     bind (kalloc s) (\<lambda>us s.
     if dsc = 0 \<or> av = 0 \<or> us = 0 then Panic ''virtio disk kalloc''
     else Ok () (s\<lparr>mem := memset (memset (memset (mem s) dsc 0 PGSIZE) av 0 PGSIZE) us 0 PGSIZE\<rparr>))))"

definition kmain :: "kstate \<Rightarrow> unit kres" where
  "kmain s =
     bind (printf [10] [] s) (\<lambda>_ s.
     bind (printf booting_msg [] s) (\<lambda>_ s.
     bind (printf [10] [] s) (\<lambda>_ s.
     bind (kinit s) (\<lambda>_ s.
     bind (kvminit s) (\<lambda>_ s.
     let s = iinit (binit (trapinithart (procinit (kvminithart s)))) in
     bind (virtio_pages s) (\<lambda>_ s.
     userinit s))))))"

text \<open>The other harts wait until the first has set \<open>started\<close>.\<close>

definition kmain_other :: "u64 \<Rightarrow> bool \<Rightarrow> kstate \<Rightarrow> unit kres" where
  "kmain_other hart started s =
     (if \<not> started then Block s
      else
        bind (printf (bytes_str ''hart %d starting'' @ [10]) [ANum hart] s) (\<lambda>_ s.
        Ok () (trapinithart (kvminithart s))))"

definition consoleinit :: "(nat \<times> byte) list" where
  "consoleinit = uartinit"

definition main_uart :: "u64 \<Rightarrow> (nat \<times> byte) list" where
  "main_uart hart = (if hart = 0 then consoleinit else [])"

definition main_plic :: "u64 \<Rightarrow> mmio" where
  "main_plic hart = (if hart = 0 then plicinit @ plicinithart hart else plicinithart hart)"

end
