(* ===== verification/Spec2Isabelle.thy ===== *)
theory Spec2Isabelle
  imports Spinlock Interleave PipeQueue Grep ShellRun VirtioSim Umalloc Asm Boot
begin

text \<open>
  A verification library of the xv6 operating system kept in this repository: the kernel under
  \<^verbatim>\<open>src/kernel\<close>, and of the user programs under \<^verbatim>\<open>src/user\<close> the C library, the shell, the memory allocator
  and the text filters.

  \<^bold>\<open>How code becomes definitions.\<close> A kernel function is a HOL function of the same name that takes
  the kernel state \<open>kstate\<close> last and returns a \<open>res\<close>: \<open>Ok\<close> with the C result and the new state,
  \<open>Panic\<close> with the message of the C code, or \<open>Block\<close> when the thread goes to sleep or spins. Structures
  are records, pointers into static tables are indices, pages and page tables live in a byte-addressed
  physical memory, on-disk structures in the bytes of the blocks. Machine integers are words of
  their width. The kernel state is that of one thread at a time; the interleavings that matter have step
  relations of their own: several harts on a spin lock (\<open>Spinlock\<close>), operations and commits on the log
  (\<open>Interleave\<close>), the disk driver against its device (\<open>Virtio\<close>).

  \<^bold>\<open>Foundations.\<close>
  \<^item> \<open>Prelude\<close>: the result type, \<open>bind\<close>, generic lemmas and the rewrite collections.
  \<^item> \<open>Bytes\<close>: little-endian layout of words in byte lists and in memory.
  \<^item> \<open>Contracts\<close>, \<open>Fifo\<close>: the interfaces as locales. \<open>allocator\<close> is interpreted on the page allocator,
    \<open>bounded_fifo\<close> on the ring of a pipe and on the rings of the disk driver.
  \<^item> \<open>State\<close>: the structures of \<^verbatim>\<open>proc.h\<close>, \<^verbatim>\<open>buf.h\<close>, \<^verbatim>\<open>file.h\<close>, \<^verbatim>\<open>fs.h\<close>, the kernel's globals, one hart's view of
    locks, \<open>sleep\<close>, \<open>wakeup\<close>, sleep locks.

  \<^bold>\<open>Kernel.\<close>
  \<^item> \<open>KString\<close> (\<^verbatim>\<open>string.c\<close>, string part of \<^verbatim>\<open>ulib.c\<close>): \<open>memmove\<close> on overlapping ranges, fixed-size names,
    terminated copies.
  \<^item> \<open>Spinlock\<close> (\<^verbatim>\<open>spinlock.c\<close>): mutual exclusion for any number of harts, and that the held list of \<open>State\<close> is
    what one hart sees of it.
  \<^item> \<open>Kalloc\<close> (\<^verbatim>\<open>kalloc.c\<close>): the free list in memory is a set of pages; initialisation, distinctness, reuse.
  \<^item> \<open>Bio\<close> (\<^verbatim>\<open>bio.c\<close>): the ring of buffers is a list in order of use, a read returns the current block.
  \<^item> \<open>Log\<close>, \<open>Trans\<close>, \<open>Crash\<close>, \<open>Interleave\<close> (\<^verbatim>\<open>log.c\<close>): a transaction is atomic under a crash between any two disk writes;
    with operations and the pieces of a commit interleaved, no operation runs during a commit and the reservations of
    \<open>begin_op\<close> keep the log from overflowing; the one commit that still panics.
  \<^item> \<open>Vm\<close>, \<open>PageTable\<close>, \<open>UserMem\<close> (\<^verbatim>\<open>vm.c\<close>): page tables as translations, \<open>mappages\<close>, and the view a program has of its
    memory under lazy allocation and the copies in and out.
  \<^item> \<open>Proc\<close>, \<open>Process\<close> (\<^verbatim>\<open>proc.c\<close>), \<open>Exec\<close> (\<^verbatim>\<open>exec.c\<close>), \<open>Fs\<close> (\<^verbatim>\<open>fs.c\<close>), \<open>Syscall\<close> (\<^verbatim>\<open>syscall.c\<close>, \<^verbatim>\<open>sysproc.c\<close>, \<^verbatim>\<open>sysfile.c\<close>),
    \<open>Trap\<close> (\<^verbatim>\<open>trap.c\<close>, \<^verbatim>\<open>plic.c\<close>), \<open>Boot\<close> (\<^verbatim>\<open>main.c\<close>), \<open>Devices\<close> (\<^verbatim>\<open>start.c\<close>, device registers): executable models of
    every function, each with its error exits, composed as the code composes them.
  \<^item> \<open>File\<close>, \<open>PipeQueue\<close> (\<^verbatim>\<open>file.c\<close>, \<^verbatim>\<open>pipe.c\<close>): a pipe is a queue of at most 512 bytes; every outcome of reading and
    writing it.
  \<^item> \<open>Console\<close>, \<open>Printf\<close> (\<^verbatim>\<open>console.c\<close>, \<^verbatim>\<open>uart.c\<close>, both \<^verbatim>\<open>printf.c\<close>): line editing, and that numbers are printed as their
    numerals.
  \<^item> \<open>Virtio\<close>, \<open>VirtioInv\<close>, \<open>VirtioSim\<close> (\<^verbatim>\<open>virtio_disk.c\<close>): driver and device refine a disk that performs each request at
    one moment and no request is lost, when the device reports no error (\<open>device\<close>); with errors (\<open>blk_device\<close>) the
    only reachable panic is the one for an error status.
  \<^item> \<open>Asm\<close> (\<^verbatim>\<open>trampoline.S\<close>, \<^verbatim>\<open>swtch.S\<close>, \<^verbatim>\<open>kernelvec.S\<close>, \<^verbatim>\<open>entry.S\<close>): the assembly files as lists of instructions on registers
    and memory; a trap and its return, and a context switch, restore what they saved.

  \<^bold>\<open>User programs.\<close>
  \<^item> \<open>Grep\<close> (\<^verbatim>\<open>grep.c\<close>, \<^verbatim>\<open>wc.c\<close>, \<^verbatim>\<open>cat.c\<close>): the matcher decides the regular language of its pattern, the filters do not depend
    on how \<open>read\<close> cuts the input.
  \<^item> \<open>Shell\<close>, \<open>ShellPrint\<close>, \<open>ShellRun\<close> (\<^verbatim>\<open>sh.c\<close>): the parser terminates, stays within its tables, inverts printing;
    running a command forks, waits and starts programs as the command means, each with the descriptors it names,
    whichever system calls fail.
  \<^item> \<open>Umalloc\<close> (\<^verbatim>\<open>umalloc.c\<close>): \<open>malloc\<close> and \<open>free\<close> keep a well-formed heap and hand out disjoint blocks.

  \<^bold>\<open>Bounds and fuel.\<close> Loops over tables and lists recurse on what they range over. Loops over addresses in
  \<open>Vm\<close> carry the number of pages computed from their limits, which \<open>copyout_updates_view\<close> and \<open>copyin_reads_view\<close> show to
  be enough. The parser of the shell takes four times the length of the line plus four as fuel, enough by \<open>parsecmd_terminates\<close>.
  The walks of \<open>Umalloc\<close> take fuel; its theorems give a bound from which every amount is enough. Unbounded C loops on strings are
  partial functions into \<open>option\<close>. The theorem on \<open>malloc\<close> is for sizes up to 2^31 - 32 bytes; larger ones are truncated by the
  code.

  \<^bold>\<open>Outside the sources\<close> are the disk device (a relation that keeps to the virtio specification), the results of \<open>read\<close>,
  \<open>write\<close>, \<open>open\<close> for the filters and of \<open>sbrk\<close> for the allocator (parameters with named contracts), and for the
  shell which calls of \<open>open\<close>, \<open>exec\<close>, \<open>fork\<close>, \<open>pipe\<close> and \<open>chdir\<close> succeed.

  \<^bold>\<open>Not modelled.\<close>
  \<^item> \<^verbatim>\<open>usertests.c\<close>, \<^verbatim>\<open>grind.c\<close>, \<^verbatim>\<open>forktest.c\<close>, \<^verbatim>\<open>stressfs.c\<close>, \<^verbatim>\<open>logstress.c\<close>, \<^verbatim>\<open>forphan.c\<close>, \<^verbatim>\<open>dorphan.c\<close>, \<^verbatim>\<open>zombie.c\<close>: tests
    that exercise the system calls; they have no contract besides the kernel's.
  \<^item> \<^verbatim>\<open>init.c\<close>, \<^verbatim>\<open>ls.c\<close>, \<^verbatim>\<open>echo.c\<close>, \<^verbatim>\<open>ln.c\<close>, \<^verbatim>\<open>kill.c\<close>, \<^verbatim>\<open>mkdir.c\<close>, \<^verbatim>\<open>rm.c\<close>, \<^verbatim>\<open>sleep.c\<close>, \<^verbatim>\<open>pingpong.c\<close>, \<^verbatim>\<open>memdump.c\<close>: thin
    sequences of system calls on their arguments.
  \<^item> \<^verbatim>\<open>mkfs.c\<close>: a host program that writes the initial disk image.
  \<^item> The graders \<^verbatim>\<open>gradelib.py\<close>, \<^verbatim>\<open>test-xv6.py\<close>: scripts that run the emulator.
  \<^item> \<^verbatim>\<open>usys.pl\<close>, \<^verbatim>\<open>defs.h\<close>, \<^verbatim>\<open>user.h\<close>: generator of call stubs and prototypes.
  \<^item> Memory ordering weaker than sequential consistency, the TLB, and caches.
\<close>

end
